(* ===== verification/Berith_Prelude.thy ===== *)
theory Berith_Prelude
  imports Complex_Main "HOL-Library.Word"
begin

text \<open>
  Vocabulary shared by every component of the development: the fixed-width types of the Go
  sources, the panics of the Go runtime, the conversions of \<open>math/big\<close>, and the generic
  lemmas on lists, options and words that the component proofs use.

  \<^item> \<open>address\<close> is \<open>common.Address\<close> (20 bytes) and \<open>hash\<close> is \<open>common.Hash\<close> (32 bytes), both
    read as big-endian numbers; \<open>addr_bytes\<close> gives the bytes back.
  \<^item> \<open>u64\<close> is Go's \<open>uint64\<close>: addition, subtraction and multiplication wrap around.
  \<^item> \<open>*big.Int\<close> is \<open>int\<close>; Go's \<open>int\<close> and \<open>int64\<close> are \<open>int\<close> where the values are lengths,
    ranks and indices, and go through \<open>int64\<close> where a conversion may change the value.
  \<^item> A Go run-time panic is a value of \<open>go_panic\<close> on the left of a sum; so is
    \<open>UnspecifiedConversion\<close>, a conversion whose value the language leaves open.
\<close>

named_theorems fork_simps "fork predicates of the chain configuration"
named_theorems view_simps "what a state operation does to the observable accounts"
named_theorems inv_intros "operations that keep an invariant"

type_synonym byte = "8 word"
type_synonym address = "160 word"
type_synonym hash = "256 word"
type_synonym u64 = "64 word"

datatype go_panic =
    DivideByZero
  | IndexOutOfRange
  | NilDereference
  | InvalidArgument
  | UnspecifiedConversion
  | Panicked string

type_synonym 'a run = "go_panic + 'a"

fun bind_run :: "'a run \<Rightarrow> ('a \<Rightarrow> 'b run) \<Rightarrow> 'b run" where
  "bind_run (Inl p) f = Inl p"
| "bind_run (Inr x) f = f x"

lemma bind_run_eq_Inr [simp]:
  "bind_run m f = Inr y \<longleftrightarrow> (\<exists>x. m = Inr x \<and> f x = Inr y)"
  by (cases m) auto

lemma bind_run_cong [fundef_cong]:
  "m = m' \<Longrightarrow> (\<And>x. m' = Inr x \<Longrightarrow> f x = g x) \<Longrightarrow> bind_run m f = bind_run m' g"
  by (cases m') auto

text \<open>A computation that may run forever is \<open>None\<close> if it does.\<close>

type_synonym 'a loop = "'a run option"

fun bind_loop :: "'a loop \<Rightarrow> ('a \<Rightarrow> 'b loop) \<Rightarrow> 'b loop" where
  "bind_loop None f = None"
| "bind_loop (Some (Inl p)) f = Some (Inl p)"
| "bind_loop (Some (Inr x)) f = f x"

lemma bind_loop_eq_Inr [simp]:
  "bind_loop m f = Some (Inr y) \<longleftrightarrow> (\<exists>x. m = Some (Inr x) \<and> f x = Some (Inr y))"
  by (cases "(m, f)" rule: bind_loop.cases) auto

lemma bind_loop_cong [fundef_cong]:
  "m = m' \<Longrightarrow> (\<And>x. m' = Some (Inr x) \<Longrightarrow> f x = g x) \<Longrightarrow> bind_loop m f = bind_loop m' g"
  by (cases "(m', f)" rule: bind_loop.cases) auto

subsection \<open>Numbers of the Go sources\<close>

text \<open>\<open>big.Int.Uint64\<close> takes the low 64 bits of the absolute value; \<open>big.Int.Int64\<close> reads
  those bits as a signed number and restores the sign.\<close>

definition big_Uint64 :: "int \<Rightarrow> u64" where
  "big_Uint64 x = word_of_int \<bar>x\<bar>"

definition int64 :: "int \<Rightarrow> int" where
  "int64 x = (x + 2 ^ 63) mod 2 ^ 64 - 2 ^ 63"

definition big_Int64 :: "int \<Rightarrow> int" where
  "big_Int64 x = (if x < 0 then int64 (- int64 \<bar>x\<bar>) else int64 \<bar>x\<bar>)"

text \<open>\<open>big.Int.Div\<close> is Euclidean division and panics on a zero divisor.\<close>

definition big_Div :: "int \<Rightarrow> int \<Rightarrow> int run" where
  "big_Div x y =
     (if y = 0 then Inl DivideByZero
      else Inr (if 0 < y then x div y else - (x div (- y))))"

lemma int64_id: "- (2 ^ 63) \<le> x \<Longrightarrow> x < 2 ^ 63 \<Longrightarrow> int64 x = x"
  by (simp add: int64_def)

lemma int64_idn: "- 9223372036854775808 \<le> x \<Longrightarrow> x \<le> 9223372036854775807 \<Longrightarrow> int64 x = x"
  by (rule int64_id) simp_all

lemma int64_bounds: "- (2 ^ 63) \<le> int64 x \<and> int64 x < 2 ^ 63"
  using pos_mod_bound [of "2 ^ 64" "x + 2 ^ 63"] pos_mod_sign [of "2 ^ 64" "x + 2 ^ 63"]
  by (simp add: int64_def)

lemma uint_big_Uint64: "0 \<le> x \<Longrightarrow> x < 2 ^ 64 \<Longrightarrow> uint (big_Uint64 x) = x"
  by (simp add: big_Uint64_def uint_word_of_int)

lemma unat_big_Uint64: "0 \<le> x \<Longrightarrow> x < 2 ^ 64 \<Longrightarrow> unat (big_Uint64 x) = nat x"
  by (simp add: unat_eq_nat_uint uint_big_Uint64)

lemma big_Div_pos: "0 < y \<Longrightarrow> big_Div x y = Inr (x div y)"
  by (simp add: big_Div_def)

lemma div_mult_bounds:
  assumes "0 < (d::int)"
  shows "x div d * d \<le> x" and "x < x div d * d + d"
  using div_mult_mod_eq [of x d] pos_mod_sign [OF assms, of x] pos_mod_bound [OF assms, of x]
  by linarith+

subsection \<open>Bytes of addresses and hashes\<close>

text \<open>The bytes of a number, most significant first, and back.\<close>

fun be_bytes :: "nat \<Rightarrow> nat \<Rightarrow> byte list" where
  "be_bytes 0 n = []"
| "be_bytes (Suc k) n = be_bytes k (n div 256) @ [of_nat (n mod 256)]"

fun be_value :: "byte list \<Rightarrow> nat" where
  "be_value [] = 0"
| "be_value (b # bs) = unat b * 256 ^ length bs + be_value bs"

definition addr_bytes :: "address \<Rightarrow> byte list" where
  "addr_bytes a = be_bytes 20 (unat a)"

definition addr_of_bytes :: "byte list \<Rightarrow> address" where
  "addr_of_bytes b = of_nat (be_value b)"

definition hash_bytes :: "hash \<Rightarrow> byte list" where
  "hash_bytes h = be_bytes 32 (unat h)"

lemma length_be_bytes [simp]: "length (be_bytes k n) = k"
  by (induction k arbitrary: n) auto

lemma be_value_append: "be_value (xs @ ys) = be_value xs * 256 ^ length ys + be_value ys"
  by (induction xs) (auto simp: algebra_simps power_add)

lemma unat_byte_mod: "unat (of_nat (n mod 256) :: byte) = n mod 256"
  by (simp add: unat_of_nat)

lemma be_value_be_bytes: "be_value (be_bytes k n) = n mod 256 ^ k"
proof (induction k arbitrary: n)
  case 0
  then show ?case by simp
next
  case (Suc k)
  have "be_value (be_bytes (Suc k) n) = (n div 256) mod 256 ^ k * 256 + n mod 256"
    by (simp add: be_value_append Suc.IH unat_byte_mod)
  also have "\<dots> = n mod (256 * 256 ^ k)"
    by (simp add: mod_mult2_eq)
  finally show ?case by simp
qed

lemma be_value_less: "be_value bs < 256 ^ length bs"
proof (induction bs)
  case Nil
  then show ?case by simp
next
  case (Cons b bs)
  have "unat b < 256" using unsigned_less [of b] by simp
  then have "(unat b + 1) * 256 ^ length bs \<le> 256 * 256 ^ length bs"
    by (intro mult_le_mono1) simp
  then have "unat b * 256 ^ length bs + 256 ^ length bs \<le> 256 ^ length (b # bs)"
    unfolding add_mult_distrib by simp
  with Cons.IH show ?case unfolding be_value.simps by linarith
qed

text \<open>Lexicographic comparison of byte strings of the same length is comparison of the
  numbers they denote: the Go code sorts addresses with \<open>bytes.Compare\<close>.\<close>

fun bytes_less :: "byte list \<Rightarrow> byte list \<Rightarrow> bool" where
  "bytes_less xs [] = False"
| "bytes_less [] (y # ys) = True"
| "bytes_less (x # xs) (y # ys) = (x < y \<or> x = y \<and> bytes_less xs ys)"

lemma bytes_less_be_value:
  "length xs = length ys \<Longrightarrow> bytes_less xs ys \<longleftrightarrow> be_value xs < be_value ys"
proof (induction xs ys rule: bytes_less.induct)
  case (3 x xs y ys)
  then have len: "length xs = length ys" by simp
  have bx: "be_value xs < 256 ^ length ys" and bY: "be_value ys < 256 ^ length ys"
    using be_value_less [of xs] be_value_less [of ys] len by simp_all
  consider "x < y" | "x = y" | "y < x" by force
  then show ?case
  proof cases
    case 1
    then have "unat x + 1 \<le> unat y" by (simp add: word_less_nat_alt)
    then have "(unat x + 1) * 256 ^ length ys \<le> unat y * 256 ^ length ys"
      by (rule mult_le_mono1)
    with 1 bx show ?thesis by (simp add: len algebra_simps)
  next
    case 2
    with "3.IH" len show ?thesis by simp
  next
    case 3
    then have "unat y + 1 \<le> unat x" by (simp add: word_less_nat_alt)
    then have "(unat y + 1) * 256 ^ length ys \<le> unat x * 256 ^ length ys"
      by (rule mult_le_mono1)
    with 3 bY show ?thesis by (auto simp add: len algebra_simps)
  qed
qed auto

lemma be_value_addr_bytes [simp]: "be_value (addr_bytes a) = unat a"
proof -
  have "unat a < 256 ^ 20" using unsigned_less [of a] by simp
  then show ?thesis by (simp add: addr_bytes_def be_value_be_bytes)
qed

lemma length_addr_bytes: "length (addr_bytes a) = 20"
  by (simp add: addr_bytes_def)

lemma addr_of_addr_bytes [simp]: "addr_of_bytes (addr_bytes a) = a"
  by (simp add: addr_of_bytes_def)

lemma addr_bytes_less: "bytes_less (addr_bytes a) (addr_bytes b) \<longleftrightarrow> a < b"
  by (simp add: bytes_less_be_value addr_bytes_def [of a] addr_bytes_def [of b]
      be_value_addr_bytes [unfolded addr_bytes_def] word_less_nat_alt)

subsection \<open>Lists\<close>

lemma nth_append_length_Suc [simp]: "(xs @ x # ys) ! length xs = x"
  by simp

lemma butlast_drop_last: "take (length xs - 1) xs = butlast xs"
  by (simp add: butlast_conv_take)

lemma sum_list_take_Suc:
  "i < length xs \<Longrightarrow> sum_list (take (Suc i) xs) = sum_list (take i xs) + (xs ! i :: 'a::monoid_add)"
  by (simp add: take_Suc_conv_app_nth)

end
