(* ===== verification/Go_Float.thy ===== *)
theory Go_Float
  imports Berith_Prelude "HOL-Library.Log_Nat"
begin

text \<open>
  The floating-point arithmetic the sources use: \<open>float64\<close> (53 bits) in the rank groups, the
  selection points and the block reward, and \<open>big.Float\<close> (a precision per value, 64 bits for
  converted integers) in the BIP4 advantage. A value is the rational number it denotes and
  every operation is the exact one followed by \<open>fl p\<close>, rounding to \<open>p\<close> bits with ties to even,
  the mode both types use. Infinities, NaNs and subnormal numbers do not occur: every operand
  is a block number, a period, a rank or an amount, or a quotient of two of them.
\<close>

definition pow2 :: "int \<Rightarrow> rat" where
  "pow2 k = (if 0 \<le> k then 2 ^ nat k else 1 / 2 ^ nat (- k))"

text \<open>\<open>flog2 x\<close> is the exponent of \<open>x > 0\<close>: the \<open>k\<close> with \<open>2 ^ k \<le> x < 2 ^ (k + 1)\<close>.\<close>

definition flog2 :: "rat \<Rightarrow> int" where
  "flog2 x =
     (let (p, q) = quotient_of x; k = bitlen p - bitlen q
      in if pow2 k \<le> x then k else k - 1)"

definition round_half_even :: "rat \<Rightarrow> int" where
  "round_half_even x =
     (let n = \<lfloor>x\<rfloor>; d = x - of_int n
      in if d < 1 / 2 then n else if 1 / 2 < d then n + 1 else if even n then n else n + 1)"

definition fl_pos :: "nat \<Rightarrow> rat \<Rightarrow> rat" where
  "fl_pos p x =
     (let e = flog2 x - int p + 1 in of_int (round_half_even (x / pow2 e)) * pow2 e)"

definition fl :: "nat \<Rightarrow> rat \<Rightarrow> rat" where
  "fl p x = (if x = 0 then 0 else if 0 < x then fl_pos p x else - fl_pos p (- x))"

abbreviation f64 :: "rat \<Rightarrow> rat" where
  "f64 \<equiv> fl 53"

definition f64_of_int :: "int \<Rightarrow> rat" where
  "f64_of_int i = f64 (of_int i)"

definition f64_add :: "rat \<Rightarrow> rat \<Rightarrow> rat" where
  "f64_add x y = f64 (x + y)"

definition f64_sub :: "rat \<Rightarrow> rat \<Rightarrow> rat" where
  "f64_sub x y = f64 (x - y)"

definition f64_mul :: "rat \<Rightarrow> rat \<Rightarrow> rat" where
  "f64_mul x y = f64 (x * y)"

definition f64_div :: "rat \<Rightarrow> rat \<Rightarrow> rat" where
  "f64_div x y = f64 (x / y)"

text \<open>\<open>math.Ceil\<close>, \<open>math.Round\<close> (ties away from zero) and the conversion of a \<open>float64\<close> to an
  integer type (towards zero).\<close>

definition go_ceil :: "rat \<Rightarrow> rat" where
  "go_ceil x = of_int \<lceil>x\<rceil>"

definition go_round :: "rat \<Rightarrow> rat" where
  "go_round x = (if x < 0 then - of_int \<lfloor>- x + 1 / 2\<rfloor> else of_int \<lfloor>x + 1 / 2\<rfloor>)"

definition go_trunc :: "rat \<Rightarrow> int" where
  "go_trunc x = (if x < 0 then - \<lfloor>- x\<rfloor> else \<lfloor>x\<rfloor>)"

subsection \<open>Powers of two and the exponent\<close>

lemma pow2_pos [simp]: "0 < pow2 k"
  by (simp add: pow2_def)

lemma pow2_nz [simp]: "pow2 k \<noteq> 0"
  using pow2_pos [of k] by linarith

lemma pow2_0 [simp]: "pow2 0 = 1"
  by (simp add: pow2_def)

lemma pow2_nat [simp]: "pow2 (int n) = 2 ^ n"
  by (simp add: pow2_def)

lemma pow2_Suc: "pow2 (k + 1) = 2 * pow2 k"
proof (cases "0 \<le> k")
  case True
  then show ?thesis by (simp add: pow2_def nat_add_distrib)
next
  case False
  then obtain n where k: "k = - int (Suc n)"
    by (metis not_le int_cases of_nat_0_le_iff neg_0_le_iff_le)
  show ?thesis
  proof (cases n)
    case 0
    with k show ?thesis by (simp add: pow2_def)
  next
    case (Suc m)
    with k show ?thesis by (simp add: pow2_def nat_add_distrib)
  qed
qed

lemma pow2_add_nat: "pow2 (k + int n) = pow2 k * 2 ^ n"
proof (induction n)
  case 0
  then show ?case by simp
next
  case (Suc n)
  have "pow2 (k + int (Suc n)) = pow2 ((k + int n) + 1)" by (simp add: algebra_simps)
  also have "\<dots> = 2 * pow2 (k + int n)" by (rule pow2_Suc)
  finally show ?case by (simp add: Suc.IH)
qed

lemma pow2_add: "pow2 (j + k) = pow2 j * pow2 k"
proof (cases k)
  case (nonneg n)
  then show ?thesis by (simp add: pow2_add_nat)
next
  case (neg n)
  then have "pow2 (j + k) * 2 ^ Suc n = pow2 j"
    using pow2_add_nat [of "j + k" "Suc n"] by simp
  moreover have "pow2 k * 2 ^ Suc n = 1"
    using pow2_add_nat [of k "Suc n"] neg by simp
  ultimately have "pow2 (j + k) * 2 ^ Suc n = pow2 j * pow2 k * 2 ^ Suc n"
    by (simp add: mult.assoc)
  then show ?thesis by (metis mult_right_cancel power_not_zero zero_neq_numeral)
qed

lemma pow2_mono: "j \<le> k \<Longrightarrow> pow2 j \<le> pow2 k"
proof -
  assume "j \<le> k"
  then obtain n where "k = j + int n" by (metis zle_iff_zadd)
  then show ?thesis
    using mult_left_mono [of 1 "2 ^ n" "pow2 j"] by (simp add: pow2_add_nat less_imp_le)
qed

lemma pow2_less_iff: "pow2 j < pow2 k \<longleftrightarrow> j < k"
proof
  show "pow2 j < pow2 k \<Longrightarrow> j < k" using pow2_mono [of k j] by (meson not_le)
next
  assume "j < k"
  then have "pow2 (j + 1) \<le> pow2 k" by (intro pow2_mono) simp
  moreover have "pow2 j < pow2 (j + 1)" using pow2_pos [of j] by (simp only: pow2_Suc)
  ultimately show "pow2 j < pow2 k" by linarith
qed

lemma bitlen_rat:
  assumes "0 < n"
  shows "pow2 (bitlen n - 1) \<le> of_int n \<and> of_int n < pow2 (bitlen n)"
proof -
  have b: "2 ^ nat (bitlen n - 1) \<le> n" "n < 2 ^ nat (bitlen n)"
    using bitlen_bounds [OF assms] by auto
  have pos: "0 < bitlen n"
  proof (rule ccontr)
    assume "\<not> 0 < bitlen n"
    with b(2) assms show False by simp
  qed
  have "of_int (2 ^ nat (bitlen n - 1)) \<le> (of_int n :: rat)"
    "of_int n < (of_int (2 ^ nat (bitlen n)) :: rat)"
    using b by (simp_all only: of_int_le_iff of_int_less_iff)
  with pos show ?thesis by (simp add: pow2_def)
qed

lemma flog2_bounds:
  assumes "0 < x"
  shows "pow2 (flog2 x) \<le> x \<and> x < pow2 (flog2 x + 1)"
proof -
  obtain p q where pq: "quotient_of x = (p, q)" by (cases "quotient_of x")
  have q: "0 < q" using pq by (rule quotient_of_denom_pos)
  have x: "x = of_int p / of_int q" using pq by (rule quotient_of_div)
  with assms q have p: "0 < p" by (simp add: zero_less_divide_iff)
  define k where "k = bitlen p - bitlen q"
  have upper: "x < pow2 (k + 1)"
  proof -
    have "of_int p < pow2 (bitlen p)" using bitlen_rat [OF p] by simp
    also have "pow2 (bitlen p) = pow2 (k + 1) * pow2 (bitlen q - 1)"
      by (simp add: k_def flip: pow2_add)
    also have "\<dots> \<le> pow2 (k + 1) * of_int q"
      using bitlen_rat [OF q] by (intro mult_left_mono) (auto intro: less_imp_le)
    finally show ?thesis using q by (simp add: x divide_less_eq)
  qed
  have lower: "pow2 (k - 1) \<le> x"
  proof -
    have "pow2 (k - 1) * of_int q \<le> pow2 (k - 1) * pow2 (bitlen q)"
      using bitlen_rat [OF q] by (intro mult_left_mono) (auto intro: less_imp_le)
    also have "\<dots> = pow2 (bitlen p - 1)" by (simp add: k_def flip: pow2_add)
    also have "\<dots> \<le> of_int p" using bitlen_rat [OF p] by simp
    finally show ?thesis using q by (simp add: x le_divide_eq)
  qed
  show ?thesis
    using upper lower by (auto simp: flog2_def pq k_def [symmetric] Let_def)
qed

lemma flog2_mono:
  assumes "0 < x" "x \<le> y"
  shows "flog2 x \<le> flog2 y"
proof -
  have "pow2 (flog2 x) \<le> x" "y < pow2 (flog2 y + 1)"
    using flog2_bounds [of x] flog2_bounds [of y] assms by auto
  with assms have "pow2 (flog2 x) < pow2 (flog2 y + 1)" by linarith
  then show ?thesis by (simp add: pow2_less_iff)
qed

subsection \<open>Rounding\<close>

lemma round_half_even_cases:
  "round_half_even x = \<lfloor>x\<rfloor> \<or> round_half_even x = \<lfloor>x\<rfloor> + 1"
  by (auto simp: round_half_even_def Let_def)

lemma round_half_even_error: "\<bar>of_int (round_half_even x) - x\<bar> \<le> 1 / 2"
  using floor_correct [of x] by (auto simp: round_half_even_def Let_def abs_le_iff)

lemma round_half_even_int [simp]: "round_half_even (of_int n) = n"
  by (simp add: round_half_even_def)

lemma round_half_even_mono:
  assumes "x \<le> y"
  shows "round_half_even x \<le> round_half_even y"
proof (cases "\<lfloor>x\<rfloor> = \<lfloor>y\<rfloor>")
  case True
  with assms show ?thesis by (auto simp: round_half_even_def Let_def)
next
  case False
  with floor_mono [OF assms] have "\<lfloor>x\<rfloor> + 1 \<le> \<lfloor>y\<rfloor>" by linarith
  with round_half_even_cases [of x] round_half_even_cases [of y] show ?thesis by linarith
qed

definition mantissa_of :: "nat \<Rightarrow> rat \<Rightarrow> rat" where
  "mantissa_of p x = x / pow2 (flog2 x - int p + 1)"

lemma fl_pos_mantissa:
  "fl_pos p x = of_int (round_half_even (mantissa_of p x)) * pow2 (flog2 x - int p + 1)"
  by (simp add: fl_pos_def mantissa_of_def Let_def)

lemma mantissa_bounds:
  assumes "0 < x" "0 < p"
  shows "2 ^ (p - 1) \<le> mantissa_of p x \<and> mantissa_of p x < 2 ^ p"
proof -
  let ?e = "flog2 x - int p + 1"
  have "pow2 (flog2 x) = pow2 ?e * 2 ^ (p - 1)"
    using assms(2) pow2_add_nat [of ?e "p - 1"] by simp
  moreover have "pow2 (flog2 x + 1) = pow2 ?e * 2 ^ p"
    using pow2_add_nat [of ?e p] by simp
  ultimately show ?thesis
    using flog2_bounds [OF assms(1)]
    by (simp add: mantissa_of_def le_divide_eq divide_less_eq mult.commute)
qed

lemma rounded_mantissa_bounds:
  assumes "0 < x" "0 < p"
  shows "2 ^ (p - 1) \<le> round_half_even (mantissa_of p x) \<and> round_half_even (mantissa_of p x) \<le> 2 ^ p"
proof -
  have "round_half_even (of_int (2 ^ (p - 1))) \<le> round_half_even (mantissa_of p x)"
    using mantissa_bounds [OF assms] by (intro round_half_even_mono) simp
  moreover have "round_half_even (mantissa_of p x) \<le> round_half_even (of_int (2 ^ p))"
    using mantissa_bounds [OF assms] by (intro round_half_even_mono) simp
  ultimately show ?thesis by (simp only: round_half_even_int)
qed

lemma fl_pos_bounds:
  assumes "0 < x" "0 < p"
  shows "pow2 (flog2 x) \<le> fl_pos p x \<and> fl_pos p x \<le> pow2 (flog2 x + 1)"
proof -
  let ?e = "flog2 x - int p + 1" and ?m = "round_half_even (mantissa_of p x)"
  have lo: "of_int (2 ^ (p - 1)) \<le> (of_int ?m :: rat)" and hi: "of_int ?m \<le> (of_int (2 ^ p) :: rat)"
    using rounded_mantissa_bounds [OF assms] by (simp_all only: of_int_le_iff)
  have "pow2 (flog2 x) = 2 ^ (p - 1) * pow2 ?e"
    using assms(2) pow2_add_nat [of ?e "p - 1"] by simp
  moreover have "pow2 (flog2 x + 1) = 2 ^ p * pow2 ?e"
    using pow2_add_nat [of ?e p] by simp
  ultimately show ?thesis
    using lo hi by (simp add: fl_pos_mantissa)
qed

lemma fl_pos_mono:
  assumes "0 < x" "x \<le> y" "0 < p"
  shows "fl_pos p x \<le> fl_pos p y"
proof (cases "flog2 x = flog2 y")
  case True
  then have "mantissa_of p x \<le> mantissa_of p y"
    using assms(2) by (simp add: mantissa_of_def divide_right_mono less_imp_le)
  from round_half_even_mono [OF this] True show ?thesis
    by (simp add: fl_pos_mantissa)
next
  case False
  with flog2_mono [OF assms(1,2)] have "pow2 (flog2 x + 1) \<le> pow2 (flog2 y)"
    by (intro pow2_mono) simp
  with fl_pos_bounds [of x p] fl_pos_bounds [of y p] assms show ?thesis by linarith
qed

lemma fl_pos_error:
  assumes "0 < x" "0 < p"
  shows "\<bar>fl_pos p x - x\<bar> \<le> x / 2 ^ p"
proof -
  let ?e = "flog2 x - int p + 1"
  have "fl_pos p x - x = (of_int (round_half_even (mantissa_of p x)) - mantissa_of p x) * pow2 ?e"
    by (simp add: fl_pos_mantissa mantissa_of_def left_diff_distrib)
  then have "\<bar>fl_pos p x - x\<bar> \<le> 1 / 2 * pow2 ?e"
    using round_half_even_error [of "mantissa_of p x"]
    by (simp add: abs_mult mult_right_mono less_imp_le)
  also have "\<dots> = pow2 (flog2 x) / 2 ^ p"
  proof -
    have "2 * pow2 (flog2 x) = pow2 ?e * 2 ^ p"
      using pow2_add_nat [of ?e p] pow2_Suc [of "flog2 x"] by simp
    then show ?thesis by (simp only: eq_divide_eq) simp
  qed
  also have "\<dots> \<le> x / 2 ^ p"
    using flog2_bounds [OF assms(1)] by (simp add: divide_right_mono)
  finally show ?thesis .
qed

lemma fl_pos_dyadic:
  assumes "x = of_int m * pow2 k" "0 < m" "m < 2 ^ p"
  shows "fl_pos p x = x"
proof -
  have pos: "0 < x" using assms by simp
  have "x < pow2 (k + int p)"
  proof -
    have "of_int m < (of_int (2 ^ p) :: rat)" using assms(3) by (simp only: of_int_less_iff)
    then show ?thesis by (simp add: assms(1) pow2_add_nat mult.commute)
  qed
  moreover have "pow2 (flog2 x) \<le> x" using flog2_bounds [OF pos] by simp
  ultimately have "pow2 (flog2 x) < pow2 (k + int p)" by linarith
  then have le: "flog2 x - int p + 1 \<le> k" by (simp add: pow2_less_iff)
  define e where "e = flog2 x - int p + 1"
  from le obtain n where n: "k = e + int n" unfolding e_def by (metis zle_iff_zadd)
  have x: "x = of_int (m * 2 ^ n) * pow2 e" by (simp add: assms(1) n pow2_add_nat)
  then have "x / pow2 e = of_int (m * 2 ^ n)" by simp
  then have "mantissa_of p x = of_int (m * 2 ^ n)" by (simp only: mantissa_of_def e_def)
  with x show ?thesis by (simp only: fl_pos_mantissa round_half_even_int e_def)
qed

lemma go_trunc_of_int [simp]: "go_trunc (of_int n) = n"
  by (simp add: go_trunc_def flip: of_int_minus)

lemma fl_0 [simp]: "fl p 0 = 0"
  by (simp add: fl_def)

lemma fl_pos_pos: "0 < x \<Longrightarrow> 0 < p \<Longrightarrow> 0 < fl_pos p x"
  using fl_pos_bounds [of x p] pow2_pos [of "flog2 x"] by linarith

lemma fl_gt0: "0 < x \<Longrightarrow> 0 < p \<Longrightarrow> 0 < fl p x"
  by (simp add: fl_def fl_pos_pos)

lemma fl_minus: "fl p (- x) = - fl p x"
  by (simp add: fl_def)

lemma fl_mono:
  assumes "x \<le> y" "0 < p"
  shows "fl p x \<le> fl p y"
proof -
  consider "0 < x" | "x \<le> 0" "0 \<le> y" | "y < 0" by linarith
  then show ?thesis
  proof cases
    case 1
    with assms show ?thesis by (simp add: fl_def fl_pos_mono)
  next
    case 2
    with assms(2) have "fl p x \<le> 0" "0 \<le> fl p y"
      by (auto simp: fl_def less_imp_le fl_pos_pos)
    then show ?thesis by linarith
  next
    case 3
    with assms have "fl_pos p (- y) \<le> fl_pos p (- x)" by (intro fl_pos_mono) auto
    with 3 assms show ?thesis by (simp add: fl_def)
  qed
qed

lemma fl_error: "0 < p \<Longrightarrow> \<bar>fl p x - x\<bar> \<le> \<bar>x\<bar> / 2 ^ p"
  using fl_pos_error [of x p] fl_pos_error [of "- x" p]
  by (cases x "0 :: rat" rule: linorder_cases) (auto simp: fl_def)

lemma fl_dyadic: "x = of_int m * pow2 k \<Longrightarrow> \<bar>m\<bar> < 2 ^ p \<Longrightarrow> fl p x = x"
proof (cases m "0 :: int" rule: linorder_cases)
  case less
  assume x: "x = of_int m * pow2 k" and m: "\<bar>m\<bar> < 2 ^ p"
  have "fl_pos p (- x) = - x"
    using less m by (intro fl_pos_dyadic [where m = "- m" and k = k]) (auto simp: x)
  moreover have "x < 0" using less by (simp add: x mult_less_0_iff)
  ultimately show ?thesis by (simp add: fl_def)
next
  case equal
  assume "x = of_int m * pow2 k"
  with equal show ?thesis by simp
next
  case greater
  assume x: "x = of_int m * pow2 k" and m: "\<bar>m\<bar> < 2 ^ p"
  have "fl_pos p x = x"
    using greater m by (intro fl_pos_dyadic [OF x]) auto
  moreover have "0 < x" using greater by (simp add: x)
  ultimately show ?thesis by (simp add: fl_def)
qed

lemma fl_of_int: "\<bar>n\<bar> < 2 ^ p \<Longrightarrow> fl p (of_int n) = of_int n"
  using fl_dyadic [of "of_int n" n 0 p] by simp

lemma f64_of_int_exact: "\<bar>n\<bar> < 2 ^ 53 \<Longrightarrow> f64_of_int n = of_int n"
  by (simp add: f64_of_int_def fl_of_int)

text \<open>A rounded quotient of two integers has the same ceiling as the exact one when the
  numerator fits in the mantissa: the rounding error is smaller than the distance of a
  non-integral quotient to the integer below it.\<close>

lemma ceiling_f64_div:
  assumes "0 < a" "a < 2 ^ 53" "0 < b"
  shows "\<lceil>f64 (of_int a / of_int b)\<rceil> = \<lceil>(of_int a / of_int b :: rat)\<rceil>"
proof (rule ceiling_unique)
  let ?x = "of_int a / of_int b :: rat"
  have x: "0 < ?x" using assms by simp
  have "\<lceil>?x\<rceil> \<le> \<lceil>(of_int a :: rat)\<rceil>"
    using assms by (intro ceiling_mono) (simp add: divide_le_eq mult_le_cancel_left1)
  moreover have "0 < \<lceil>?x\<rceil>" using x by (simp only: zero_less_ceiling)
  ultimately have small: "\<bar>\<lceil>?x\<rceil>\<bar> < 2 ^ 53" using assms(2) unfolding ceiling_of_int by linarith
  have "f64 ?x \<le> f64 (of_int \<lceil>?x\<rceil>)" by (rule fl_mono) simp_all
  then show "f64 ?x \<le> of_int \<lceil>?x\<rceil>" using small by (simp add: fl_of_int)
  show "of_int \<lceil>?x\<rceil> - 1 < f64 ?x"
  proof -
    have gap: "of_int \<lceil>?x\<rceil> - 1 + 1 / of_int b \<le> ?x"
    proof -
      have "(\<lceil>?x\<rceil> - 1) * b < a"
      proof -
        have "of_int (\<lceil>?x\<rceil> - 1) < ?x" using ceiling_correct [of ?x] by simp
        then have "of_int ((\<lceil>?x\<rceil> - 1) * b) < (of_int a :: rat)"
          using assms(3) by (simp add: less_divide_eq)
        then show ?thesis by (simp only: of_int_less_iff)
      qed
      then have "(\<lceil>?x\<rceil> - 1) * b + 1 \<le> a" by linarith
      then have "of_int ((\<lceil>?x\<rceil> - 1) * b + 1) \<le> (of_int a :: rat)" by (simp only: of_int_le_iff)
      then have "of_int ((\<lceil>?x\<rceil> - 1) * b + 1) / of_int b \<le> ?x"
        using assms(3) by (intro divide_right_mono) simp_all
      then show ?thesis using assms(3) by (simp add: add_divide_distrib)
    qed
    have "\<bar>f64 ?x - ?x\<bar> \<le> ?x / 2 ^ 53"
      using fl_error [of 53 ?x] x by simp
    moreover have "?x / 2 ^ 53 < 1 / of_int b"
    proof -
      have "of_int a < (of_int (2 ^ 53) :: rat)" using assms(2) by (simp only: of_int_less_iff)
      then have "of_int a / 2 ^ 53 / of_int b < (1 :: rat) / of_int b"
        using assms(3) by (intro divide_strict_right_mono) simp_all
      then show ?thesis by (simp add: mult.commute)
    qed
    ultimately show ?thesis using gap by linarith
  qed
qed

end
