(* ===== verification/Rank_Group.thy ===== *)
theory Rank_Group
  imports Go_Float
begin

text \<open>
  Rank groups, \<open>common/group.go\<close>. A block creator's rank decides how long it waits before it
  seals; ranks are collected in groups of equal size after the first one. The interface
  \<open>SequenceGroup\<close> is the locale \<open>sequence_group\<close>; \<open>ArithmeticGroup\<close> implements it for every
  positive common difference (\<open>arithmetic_group\<close>), although the source computes the group
  with \<open>float64\<close> division and \<open>math.Ceil\<close>.
\<close>

datatype group_error = TermOrderNotPositive | GroupOrderNotPositive | IntOfInfinity

record ArithmeticGroup =
  CommonDiff :: int

text \<open>With a zero common difference the source converts an infinite \<open>float64\<close> to \<open>int\<close>, whose
  value the language leaves open; that case is the error \<open>IntOfInfinity\<close>.\<close>

definition GetGroupOrder :: "ArithmeticGroup \<Rightarrow> int \<Rightarrow> group_error + int" where
  "GetGroupOrder a termOrder =
     (if termOrder < 1 then Inl TermOrderNotPositive
      else if termOrder = 1 then Inr 1
      else if CommonDiff a = 0 then Inl IntOfInfinity
      else
        let d = go_ceil (f64_div (f64_of_int (int64 (termOrder - 1))) (f64_of_int (CommonDiff a)))
        in Inr (int64 (go_trunc d + 1)))"

definition GetGroupRange :: "ArithmeticGroup \<Rightarrow> int \<Rightarrow> group_error + int \<times> int" where
  "GetGroupRange a groupOrder =
     (if groupOrder < 1 then Inl GroupOrderNotPositive
      else if groupOrder = 1 then Inr (1, 1)
      else Inr (int64 (2 + (groupOrder - 2) * CommonDiff a),
                int64 (1 + (groupOrder - 1) * CommonDiff a)))"

subsection \<open>The interface\<close>

text \<open>What a client of \<open>SequenceGroup\<close> relies on, for the ranks up to \<open>bound\<close>: every rank has a
  group, the range of that group contains it, and the ranges follow each other without gaps.\<close>

locale sequence_group =
  fixes order :: "int \<Rightarrow> group_error + int"
    and range :: "int \<Rightarrow> group_error + int \<times> int"
    and bound :: int
  assumes order_bad: "r < 1 \<Longrightarrow> order r = Inl TermOrderNotPositive"
    and order_first: "order 1 = Inr 1"
    and range_first: "range 1 = Inr (1, 1)"
    and order_total: "1 \<le> r \<Longrightarrow> r \<le> bound \<Longrightarrow> \<exists>g. order r = Inr g \<and> 1 \<le> g"
    and range_of_order:
      "1 \<le> r \<Longrightarrow> r \<le> bound \<Longrightarrow> order r = Inr g \<Longrightarrow>
         \<exists>s e. range g = Inr (s, e) \<and> s \<le> r \<and> r \<le> e"
    and range_next:
      "1 \<le> r \<Longrightarrow> r < bound \<Longrightarrow> order r = Inr g \<Longrightarrow> order (r + 1) = Inr h \<Longrightarrow>
         h = g \<or> h = g + 1 \<and> (\<exists>s e. range h = Inr (r + 1, e) \<and> range g = Inr (s, r))"
begin

lemma start_exists:
  assumes "1 \<le> r" "r \<le> bound"
  shows "\<exists>g s e. order r = Inr g \<and> 1 \<le> g \<and> range g = Inr (s, e) \<and> s \<le> r \<and> r \<le> e"
  using order_total [OF assms] range_of_order [OF assms] by blast

text \<open>The delay a rank gets when each group before it costs \<open>gd\<close> and each place in its own group
  costs \<open>td\<close>.\<close>

lemma next_delay:
  assumes r: "1 \<le> r" "r < bound"
    and g: "order r = Inr g" "range g = Inr (s, e)"
    and h: "order (r + 1) = Inr h" "range h = Inr (s', e')"
    and width: "e - s + 1 \<le> width"
    and cost: "0 < td" "(width - 1) * td < gd"
  shows "(g - 1) * gd + (r - s) * td < (h - 1) * gd + (r + 1 - s') * td"
proof (cases "h = g")
  case True
  with g h have "s' = s" by simp
  with True cost(1) show ?thesis by (simp add: algebra_simps)
next
  case False
  with range_next [OF r g(1) h(1)] have "h = g + 1" "s' = r + 1" "e = r"
    using g(2) h(2) by auto
  moreover have "r - s + 1 \<le> width" using width \<open>e = r\<close> by simp
  then have "(r - s) * td \<le> (width - 1) * td" using cost(1) by (simp add: mult_right_mono)
  ultimately show ?thesis using cost(2) by (simp add: algebra_simps)
qed

end

subsection \<open>Arithmetic groups\<close>

lemma ceiling_int_div:
  assumes "0 < (b::int)"
  shows "\<lceil>(of_int a / of_int b :: rat)\<rceil> = (a + b - 1) div b"
proof -
  have "\<lceil>(of_int a / of_int b :: rat)\<rceil> = - ((- a) div b)"
    using floor_divide_of_int_eq [of "- a" b, where 'a = rat] by (simp add: ceiling_def)
  also have "\<dots> = (a + b - 1) div b"
  proof -
    have "a + b - 1 = (- ((- a) div b)) * b + (b - 1 - (- a) mod b)"
      using mult_div_mod_eq [of b "- a"] by (simp add: algebra_simps)
    moreover have "0 \<le> b - 1 - (- a) mod b" "b - 1 - (- a) mod b < b"
      using pos_mod_bound [OF assms, of "- a"] pos_mod_sign [OF assms, of "- a"] by linarith+
    ultimately show ?thesis
      by (metis add_0 div_mult_self3 div_pos_pos_trivial assms less_irrefl add.commute)
  qed
  finally show ?thesis .
qed

text \<open>The \<open>float64\<close> computation is the exact one for every rank a chain can produce.\<close>

lemma GetGroupOrder_exact:
  assumes "2 \<le> r" "r < 2 ^ 53" "0 < d" "d < 2 ^ 53" "CommonDiff a = d"
  shows "GetGroupOrder a r = Inr ((r - 2) div d + 2)"
proof -
  have i: "int64 (r - 1) = r - 1" using assms by (intro int64_id) auto
  have c: "\<lceil>f64_div (f64_of_int (r - 1)) (f64_of_int d)\<rceil> = (r - 1 + d - 1) div d"
    using assms ceiling_f64_div [of "r - 1" d] ceiling_int_div [of d "r - 1"]
    by (simp add: f64_div_def f64_of_int_exact)
  have q: "(r - 1 + d - 1) div d = (r - 2) div d + 1"
  proof -
    have "r - 1 + d - 1 = (r - 2) + d" by simp
    then show ?thesis using assms(3) by (simp only: div_add_self2)
  qed
  have "0 \<le> (r - 2) div d" "(r - 2) div d \<le> r - 2"
    using assms zdiv_mono2 [of "r - 2" 1 d] by (auto simp: pos_imp_zdiv_nonneg_iff)
  then have t: "int64 ((r - 2) div d + 1 + 1) = (r - 2) div d + 2"
    using assms by (subst int64_id) auto
  have "go_trunc (go_ceil (f64_div (f64_of_int (r - 1)) (f64_of_int d))) = (r - 2) div d + 1"
    using \<open>0 \<le> (r - 2) div d\<close> unfolding go_ceil_def c q by (simp only: go_trunc_of_int)
  with assms t i show ?thesis by (simp add: GetGroupOrder_def Let_def)
qed

lemma GetGroupRange_exact:
  assumes "2 \<le> g" "0 < d" "(g - 1) * d < 2 ^ 62" "CommonDiff a = d"
  shows "GetGroupRange a g = Inr (2 + (g - 2) * d, 1 + (g - 1) * d)"
proof -
  have "0 \<le> (g - 2) * d" "(g - 2) * d \<le> (g - 1) * d"
    using assms by (auto intro: mult_right_mono)
  moreover have "(g - 1) * d < 4611686018427387904" using assms(3) by simp
  ultimately have "int64 (2 + (g - 2) * d) = 2 + (g - 2) * d" by (intro int64_idn) linarith+
  moreover have "int64 (1 + (g - 1) * d) = 1 + (g - 1) * d"
    using \<open>0 \<le> (g - 2) * d\<close> \<open>(g - 2) * d \<le> (g - 1) * d\<close> \<open>(g - 1) * d < 4611686018427387904\<close>
    by (intro int64_idn) linarith+
  ultimately show ?thesis using assms by (simp add: GetGroupRange_def)
qed

text \<open>The range of the group of a rank.\<close>

lemma GetGroupRange_of_rank:
  assumes "2 \<le> r" "r < 2 ^ 53" "0 < d" "d < 2 ^ 53" "CommonDiff a = d"
  shows "GetGroupRange a ((r - 2) div d + 2)
    = Inr (2 + (r - 2) div d * d, 1 + ((r - 2) div d + 1) * d)"
proof -
  have "(r - 2) div d * d \<le> r - 2" "0 \<le> (r - 2) div d"
    using assms div_mult_bounds [of d "r - 2"] by (auto simp: pos_imp_zdiv_nonneg_iff)
  moreover from this(1) have "((r - 2) div d + 1) * d < 2 ^ 62"
    using assms by (simp add: distrib_right)
  ultimately show ?thesis
    using assms by (subst GetGroupRange_exact) (auto simp: algebra_simps)
qed

lemma div_step:
  assumes "0 < (d::int)"
  shows "(x + 1) div d = x div d \<or> (x + 1) div d = x div d + 1 \<and> x + 1 = (x div d + 1) * d"
proof -
  have x: "x = x div d * d + x mod d" and m: "0 \<le> x mod d" "x mod d < d"
    using assms by simp_all
  show ?thesis
  proof (cases "x mod d + 1 = d")
    case True
    with x have e: "x + 1 = (x div d + 1) * d" unfolding distrib_right by linarith
    then have "(x + 1) div d = x div d + 1" using assms by simp
    with e show ?thesis by blast
  next
    case False
    with m have "(x mod d + 1) div d = 0" by (intro div_pos_pos_trivial) auto
    moreover have "(x + 1) div d = x div d + (x mod d + 1) div d"
      using assms div_mult_self3 [of d "x div d" "x mod d + 1"] x by (simp add: add.assoc)
    ultimately show ?thesis by simp
  qed
qed

theorem arithmetic_group:
  assumes d: "0 < d" "d < 2 ^ 53" "CommonDiff a = d"
  shows "sequence_group (GetGroupOrder a) (GetGroupRange a) (2 ^ 53 - 1)"
proof
  fix r g :: int
  assume r: "1 \<le> r" "r \<le> 2 ^ 53 - 1"
  show "\<exists>g. GetGroupOrder a r = Inr g \<and> 1 \<le> g"
    using r d GetGroupOrder_exact [of r d a]
    by (cases "r = 1") (auto simp: GetGroupOrder_def pos_imp_zdiv_nonneg_iff)
  assume g: "GetGroupOrder a r = Inr g"
  show "\<exists>s e. GetGroupRange a g = Inr (s, e) \<and> s \<le> r \<and> r \<le> e"
  proof (cases "r = 1")
    case True
    with g show ?thesis by (auto simp: GetGroupOrder_def GetGroupRange_def)
  next
    case False
    with r d g have "g = (r - 2) div d + 2" using GetGroupOrder_exact [of r d a] by simp
    moreover have "(r - 2) div d * d \<le> r - 2" "r - 2 < (r - 2) div d * d + d"
      using div_mult_bounds [OF d(1), of "r - 2"] by auto
    ultimately show ?thesis
      using False r d GetGroupRange_of_rank [of r d a] by (simp add: distrib_right)
  qed
next
  fix r g h :: int
  assume r: "1 \<le> r" "r < 2 ^ 53 - 1"
    and g: "GetGroupOrder a r = Inr g" and h: "GetGroupOrder a (r + 1) = Inr h"
  have h': "h = (r - 1) div d + 2" using r d h GetGroupOrder_exact [of "r + 1" d a] by simp
  have rh: "GetGroupRange a h = Inr (2 + (r - 1) div d * d, 1 + ((r - 1) div d + 1) * d)"
    using r d GetGroupRange_of_rank [of "r + 1" d a] by (simp add: h')
  show "h = g \<or> h = g + 1 \<and> (\<exists>s e. GetGroupRange a h = Inr (r + 1, e) \<and> GetGroupRange a g = Inr (s, r))"
  proof (cases "r = 1")
    case True
    with g have "g = 1" by (simp add: GetGroupOrder_def)
    with True h' rh show ?thesis by (simp add: GetGroupRange_def)
  next
    case False
    with r d g have g': "g = (r - 2) div d + 2" using GetGroupOrder_exact [of r d a] by simp
    have rg: "GetGroupRange a g = Inr (2 + (r - 2) div d * d, 1 + ((r - 2) div d + 1) * d)"
      using False r d GetGroupRange_of_rank [of r d a] by (simp add: g')
    show ?thesis
      using div_step [OF d(1), of "r - 2"] g' h' rg rh by auto
  qed
qed (auto simp: GetGroupOrder_def GetGroupRange_def)

text \<open>The engine groups ranks with common difference 3 (\<open>commonDiff\<close> in
  \<open>consensus/bsrr/berith.go\<close>).\<close>

definition rankGroup :: ArithmeticGroup where
  "rankGroup = \<lparr>CommonDiff = 3\<rparr>"

interpretation rank3: sequence_group "GetGroupOrder rankGroup" "GetGroupRange rankGroup" "2 ^ 53 - 1"
  by (rule arithmetic_group [of 3]) (simp_all add: rankGroup_def)

text \<open>C27: Every rank below 2^53 has a group whose range contains the rank, for every positive common
  difference below 2^53, although the group is computed with a \<open>float64\<close> division.\<close>

theorem Group_contains_rank:
  assumes "0 < CommonDiff a" "CommonDiff a < 2 ^ 53" "1 \<le> rank" "rank < 2 ^ 53"
  shows "\<exists>g s e. GetGroupOrder a rank = Inr g \<and> 1 \<le> g \<and> GetGroupRange a g = Inr (s, e)
    \<and> s \<le> rank \<and> rank \<le> e"
  using sequence_group.start_exists [OF arithmetic_group [OF assms(1,2) refl], of rank] assms(3,4)
  by simp

theorem Group_contains_rank_witness:
  "\<exists>g s e. GetGroupOrder \<lparr>CommonDiff = 3\<rparr> 9007199254740991 = Inr g \<and> 1 \<le> g
    \<and> GetGroupRange \<lparr>CommonDiff = 3\<rparr> g = Inr (s, e) \<and> s \<le> 9007199254740991 \<and> 9007199254740991 \<le> e"
  by (rule Group_contains_rank) simp_all

end
