(* ===== verification/Chain_Params.thy ===== *)
theory Chain_Params
  imports Berith_Prelude
begin

text \<open>
  Chain parameters, \<open>params/config.go\<close>, \<open>params/gas_table.go\<close> and the constants of
  \<open>params/protocol_params.go\<close> that the modelled code reads: the chain configuration with its
  fork schedule, the fork predicates, the rules of a block, the gas table of a block, and the
  compatibility check of two configurations. A \<open>*big.Int\<close> that may be nil is an \<open>int option\<close>.
\<close>

record BSRRConfig =
  Period :: u64
  Epoch :: u64
  Rewards :: "int option"
  StakeMinimum :: "int option"
  LimitStakeBalance :: "int option"
  SlashRound :: u64
  ForkFactor :: rat

record ChainConfig =
  ChainID :: "int option"
  HomesteadBlock :: "int option"
  DAOForkBlock :: "int option"
  DAOForkSupport :: bool
  EIP150Block :: "int option"
  EIP150Hash :: hash
  EIP155Block :: "int option"
  EIP158Block :: "int option"
  ByzantiumBlock :: "int option"
  ConstantinopleBlock :: "int option"
  EWASMBlock :: "int option"
  Bsrr :: BSRRConfig
  BIP1Block :: "int option"
  BIP2Block :: "int option"
  BIP3Block :: "int option"
  BIP4Block :: "int option"

text \<open>The amounts the configurations name, in wei.\<close>

definition params_StakeMinimum :: int where
  "params_StakeMinimum = 1000000000000000000"

definition params_LimitStakeBalance :: int where
  "params_LimitStakeBalance = 100000000000000000000000000"

definition MainnetChainConfig :: ChainConfig where
  "MainnetChainConfig = \<lparr>
     ChainID = Some 106, HomesteadBlock = Some 0, DAOForkBlock = None, DAOForkSupport = True,
     EIP150Block = Some 0, EIP150Hash = 0, EIP155Block = Some 0, EIP158Block = Some 0,
     ByzantiumBlock = Some 0, ConstantinopleBlock = Some 0, EWASMBlock = None,
     Bsrr = \<lparr>Period = 5, Epoch = 360, Rewards = Some 360,
       StakeMinimum = Some params_StakeMinimum, LimitStakeBalance = Some params_LimitStakeBalance,
       SlashRound = 0, ForkFactor = 1\<rparr>,
     BIP1Block = Some 0, BIP2Block = Some 0, BIP3Block = Some 0, BIP4Block = Some 4\<rparr>"

definition TestnetChainConfig :: ChainConfig where
  "TestnetChainConfig = \<lparr>
     ChainID = Some 206, HomesteadBlock = Some 0, DAOForkBlock = None, DAOForkSupport = False,
     EIP150Block = None, EIP150Hash = 0, EIP155Block = Some 0, EIP158Block = Some 0,
     ByzantiumBlock = None, ConstantinopleBlock = None, EWASMBlock = None,
     Bsrr = \<lparr>Period = 5, Epoch = 40, Rewards = Some 20000,
       StakeMinimum = Some params_StakeMinimum, LimitStakeBalance = Some params_LimitStakeBalance,
       SlashRound = 500, ForkFactor = 1\<rparr>,
     BIP1Block = None, BIP2Block = None, BIP3Block = None, BIP4Block = None\<rparr>"

subsection \<open>Fork predicates\<close>

fun isForked :: "int option \<Rightarrow> int option \<Rightarrow> bool" where
  "isForked (Some s) (Some head) = (s \<le> head)"
| "isForked _ _ = False"

fun configNumEqual :: "int option \<Rightarrow> int option \<Rightarrow> bool" where
  "configNumEqual None y = (y = None)"
| "configNumEqual (Some x) None = False"
| "configNumEqual (Some x) (Some y) = (x = y)"

definition isForkIncompatible :: "int option \<Rightarrow> int option \<Rightarrow> int option \<Rightarrow> bool" where
  "isForkIncompatible s1 s2 head \<longleftrightarrow>
     (isForked s1 head \<or> isForked s2 head) \<and> \<not> configNumEqual s1 s2"

definition IsHomestead :: "ChainConfig \<Rightarrow> int option \<Rightarrow> bool" where
  "IsHomestead c num = isForked (HomesteadBlock c) num"

definition IsDAOFork :: "ChainConfig \<Rightarrow> int option \<Rightarrow> bool" where
  "IsDAOFork c num = isForked (DAOForkBlock c) num"

definition IsEIP150 :: "ChainConfig \<Rightarrow> int option \<Rightarrow> bool" where
  "IsEIP150 c num = isForked (EIP150Block c) num"

definition IsEIP155 :: "ChainConfig \<Rightarrow> int option \<Rightarrow> bool" where
  "IsEIP155 c num = isForked (EIP155Block c) num"

definition IsEIP158 :: "ChainConfig \<Rightarrow> int option \<Rightarrow> bool" where
  "IsEIP158 c num = isForked (EIP158Block c) num"

definition IsByzantium :: "ChainConfig \<Rightarrow> int option \<Rightarrow> bool" where
  "IsByzantium c num = isForked (ByzantiumBlock c) num"

definition IsConstantinople :: "ChainConfig \<Rightarrow> int option \<Rightarrow> bool" where
  "IsConstantinople c num = isForked (ConstantinopleBlock c) num"

definition IsBIP1 :: "ChainConfig \<Rightarrow> int option \<Rightarrow> bool" where
  "IsBIP1 c num = isForked (BIP1Block c) num"

definition IsBIP2 :: "ChainConfig \<Rightarrow> int option \<Rightarrow> bool" where
  "IsBIP2 c num = isForked (BIP2Block c) num"

definition IsBIP3 :: "ChainConfig \<Rightarrow> int option \<Rightarrow> bool" where
  "IsBIP3 c num = isForked (BIP3Block c) num"

definition IsBIP4 :: "ChainConfig \<Rightarrow> int option \<Rightarrow> bool" where
  "IsBIP4 c num = isForked (BIP4Block c) num"

definition IsBIP1Block :: "ChainConfig \<Rightarrow> int option \<Rightarrow> bool" where
  "IsBIP1Block c num =
     (case (BIP1Block c, num) of (Some b, Some n) \<Rightarrow> b = n | _ \<Rightarrow> False)"

definition IsEWASM :: "ChainConfig \<Rightarrow> int option \<Rightarrow> bool" where
  "IsEWASM c num = isForked (EWASMBlock c) num"

lemmas [fork_simps] =
  IsHomestead_def IsDAOFork_def IsEIP150_def IsEIP155_def IsEIP158_def IsByzantium_def
  IsConstantinople_def IsBIP1_def IsBIP2_def IsBIP3_def IsBIP4_def IsBIP1Block_def IsEWASM_def

subsection \<open>Gas tables and rules\<close>

record GasTable =
  gt_ExtcodeSize :: u64
  gt_ExtcodeCopy :: u64
  gt_ExtcodeHash :: u64
  gt_Balance :: u64
  gt_SLoad :: u64
  gt_Calls :: u64
  gt_Suicide :: u64
  gt_ExpByte :: u64
  gt_CreateBySuicide :: u64

definition GasTableHomestead :: GasTable where
  "GasTableHomestead = \<lparr>gt_ExtcodeSize = 20, gt_ExtcodeCopy = 20, gt_ExtcodeHash = 0,
     gt_Balance = 20, gt_SLoad = 50, gt_Calls = 40, gt_Suicide = 0, gt_ExpByte = 10,
     gt_CreateBySuicide = 0\<rparr>"

definition GasTableEIP150 :: GasTable where
  "GasTableEIP150 = \<lparr>gt_ExtcodeSize = 700, gt_ExtcodeCopy = 700, gt_ExtcodeHash = 0,
     gt_Balance = 400, gt_SLoad = 200, gt_Calls = 700, gt_Suicide = 5000, gt_ExpByte = 10,
     gt_CreateBySuicide = 25000\<rparr>"

definition GasTableEIP158 :: GasTable where
  "GasTableEIP158 = \<lparr>gt_ExtcodeSize = 700, gt_ExtcodeCopy = 700, gt_ExtcodeHash = 0,
     gt_Balance = 400, gt_SLoad = 200, gt_Calls = 700, gt_Suicide = 5000, gt_ExpByte = 50,
     gt_CreateBySuicide = 25000\<rparr>"

definition GasTableConstantinople :: GasTable where
  "GasTableConstantinople = \<lparr>gt_ExtcodeSize = 700, gt_ExtcodeCopy = 700, gt_ExtcodeHash = 400,
     gt_Balance = 400, gt_SLoad = 200, gt_Calls = 700, gt_Suicide = 5000, gt_ExpByte = 50,
     gt_CreateBySuicide = 25000\<rparr>"

definition gas_table :: "ChainConfig \<Rightarrow> int option \<Rightarrow> GasTable" where
  "gas_table c num =
     (if num = None then GasTableHomestead
      else if IsConstantinople c num then GasTableConstantinople
      else if IsEIP158 c num then GasTableEIP158
      else if IsEIP150 c num then GasTableEIP150
      else GasTableHomestead)"

record Rules =
  r_ChainID :: int
  r_IsHomestead :: bool
  r_IsEIP150 :: bool
  r_IsEIP155 :: bool
  r_IsEIP158 :: bool
  r_IsByzantium :: bool
  r_IsConstantinople :: bool

definition chain_rules :: "ChainConfig \<Rightarrow> int option \<Rightarrow> Rules" where
  "chain_rules c num = \<lparr>
     r_ChainID = (case ChainID c of None \<Rightarrow> 0 | Some i \<Rightarrow> i),
     r_IsHomestead = IsHomestead c num, r_IsEIP150 = IsEIP150 c num,
     r_IsEIP155 = IsEIP155 c num, r_IsEIP158 = IsEIP158 c num,
     r_IsByzantium = IsByzantium c num, r_IsConstantinople = IsConstantinople c num\<rparr>"

definition GasLimitBoundDivisor :: u64 where "GasLimitBoundDivisor = 1024"
definition MinGasLimit :: u64 where "MinGasLimit = 5000"
definition TxGas :: u64 where "TxGas = 21000"
definition TxGasContractCreation :: u64 where "TxGasContractCreation = 53000"
definition TxDataZeroGas :: u64 where "TxDataZeroGas = 4"
definition TxDataNonZeroGas :: u64 where "TxDataNonZeroGas = 68"
definition CallCreateDepth :: u64 where "CallCreateDepth = 1024"
definition CreateDataGas :: u64 where "CreateDataGas = 200"
definition MaxCodeSize :: nat where "MaxCodeSize = 24576"

subsection \<open>Compatibility of two configurations\<close>

record ConfigCompatError =
  What :: string
  StoredConfig :: "int option"
  NewConfig :: "int option"
  RewindTo :: u64

definition newCompatError :: "string \<Rightarrow> int option \<Rightarrow> int option \<Rightarrow> ConfigCompatError" where
  "newCompatError what storedblock newblock =
     (let rew = (case storedblock of
                   None \<Rightarrow> newblock
                 | Some s \<Rightarrow> (case newblock of
                                None \<Rightarrow> storedblock
                              | Some n \<Rightarrow> if s < n then storedblock else newblock))
      in \<lparr>What = what, StoredConfig = storedblock, NewConfig = newblock,
          RewindTo = (case rew of Some r \<Rightarrow> if 0 < r then big_Uint64 r - 1 else 0 | None \<Rightarrow> 0)\<rparr>)"

definition checkCompatible ::
  "ChainConfig \<Rightarrow> ChainConfig \<Rightarrow> int option \<Rightarrow> ConfigCompatError option" where
  "checkCompatible c newcfg head =
    (if isForkIncompatible (HomesteadBlock c) (HomesteadBlock newcfg) head
     then Some (newCompatError ''Homestead fork block'' (HomesteadBlock c) (HomesteadBlock newcfg))
     else if isForkIncompatible (DAOForkBlock c) (DAOForkBlock newcfg) head
     then Some (newCompatError ''DAO fork block'' (DAOForkBlock c) (DAOForkBlock newcfg))
     else if IsDAOFork c head \<and> DAOForkSupport c \<noteq> DAOForkSupport newcfg
     then Some (newCompatError ''DAO fork support flag'' (DAOForkBlock c) (DAOForkBlock newcfg))
     else if isForkIncompatible (EIP150Block c) (EIP150Block newcfg) head
     then Some (newCompatError ''EIP150 fork block'' (EIP150Block c) (EIP150Block newcfg))
     else if isForkIncompatible (EIP155Block c) (EIP155Block newcfg) head
     then Some (newCompatError ''EIP155 fork block'' (EIP155Block c) (EIP155Block newcfg))
     else if isForkIncompatible (EIP158Block c) (EIP158Block newcfg) head
     then Some (newCompatError ''EIP158 fork block'' (EIP158Block c) (EIP158Block newcfg))
     else if IsEIP158 c head \<and> \<not> configNumEqual (ChainID c) (ChainID newcfg)
     then Some (newCompatError ''EIP158 chain ID'' (EIP158Block c) (EIP158Block newcfg))
     else if isForkIncompatible (ByzantiumBlock c) (ByzantiumBlock newcfg) head
     then Some (newCompatError ''Byzantium fork block'' (ByzantiumBlock c) (ByzantiumBlock newcfg))
     else if isForkIncompatible (ConstantinopleBlock c) (ConstantinopleBlock newcfg) head
     then Some (newCompatError ''Constantinople fork block''
                  (ConstantinopleBlock c) (ConstantinopleBlock newcfg))
     else if isForkIncompatible (EWASMBlock c) (EWASMBlock newcfg) head
     then Some (newCompatError ''ewasm fork block'' (EWASMBlock c) (EWASMBlock newcfg))
     else if isForkIncompatible (BIP1Block c) (BIP1Block newcfg) head
     then Some (newCompatError ''bip1 fork block'' (BIP1Block c) (BIP1Block newcfg))
     else if isForkIncompatible (BIP2Block c) (BIP2Block newcfg) head
     then Some (newCompatError ''bip2 fork block'' (BIP2Block c) (BIP2Block newcfg))
     else if isForkIncompatible (BIP3Block c) (BIP3Block newcfg) head
     then Some (newCompatError ''bip3 fork block'' (BIP3Block c) (BIP3Block newcfg))
     else if isForkIncompatible (BIP4Block c) (BIP4Block newcfg) head
     then Some (newCompatError ''bip4 fork block'' (BIP4Block c) (BIP4Block newcfg))
     else None)"

text \<open>The error of an incompatible or already active fork points strictly below the head,
  unless it points at the genesis block: this is what makes the loop of \<open>CheckCompatible\<close>
  stop.\<close>

definition rewinds_below :: "u64 \<Rightarrow> ConfigCompatError \<Rightarrow> bool" where
  "rewinds_below h err \<longleftrightarrow> RewindTo err < h \<or> RewindTo err = 0"

lemma rewinds_below_uint:
  assumes "r \<le> uint h"
  shows "(if 0 < r then big_Uint64 r - 1 else 0) < h \<or> (if 0 < r then big_Uint64 r - 1 else 0) = 0"
proof (cases "0 < r")
  case True
  have "r < 2 ^ 64" using assms uint_lt2p [of h] by simp
  with True have u: "uint (big_Uint64 r) = r" by (intro uint_big_Uint64) auto
  then have "1 \<le> big_Uint64 r" using True by (simp only: word_le_def uint_1)
  then have "uint (big_Uint64 r - 1) = uint (big_Uint64 r) - uint (1 :: u64)"
    by (rule uint_minus_simple_alt [THEN iffD1])
  then have "uint (big_Uint64 r - 1) = r - 1" by (simp only: uint_1 u)
  then have "big_Uint64 r - 1 < h" using assms by (simp only: word_less_def)
  with True show ?thesis by simp
qed simp

lemma rewinds_below_active:
  assumes "isForked s1 (Some (uint h)) \<or> isForked s2 (Some (uint h))"
  shows "rewinds_below h (newCompatError w s1 s2)"
proof -
  define rew where "rew = (case s1 of None \<Rightarrow> s2
    | Some s \<Rightarrow> (case s2 of None \<Rightarrow> s1 | Some n \<Rightarrow> if s < n then s1 else s2))"
  from assms obtain r where r: "rew = Some r" "r \<le> uint h"
    by (cases s1; cases s2; cases "the s1 < the s2") (auto simp: rew_def)
  have "RewindTo (newCompatError w s1 s2)
    = (case rew of Some r \<Rightarrow> if 0 < r then big_Uint64 r - 1 else 0 | None \<Rightarrow> 0)"
    by (simp only: newCompatError_def Let_def rew_def ConfigCompatError.select_convs)
  also have "\<dots> = (if 0 < r then big_Uint64 r - 1 else 0)" by (simp only: r option.case)
  finally have eq: "RewindTo (newCompatError w s1 s2) = (if 0 < r then big_Uint64 r - 1 else 0)" .
  show ?thesis
    using rewinds_below_uint [OF r(2)] unfolding rewinds_below_def eq .
qed

lemma if_SomeE:
  "(if b then Some a else r) = Some x \<Longrightarrow> (b \<Longrightarrow> x = a \<Longrightarrow> P) \<Longrightarrow> (r = Some x \<Longrightarrow> P) \<Longrightarrow> P"
  by (cases b) simp_all

lemma checkCompatible_RewindTo:
  assumes "checkCompatible c n (Some (uint h)) = Some err"
  shows "rewinds_below h err"
  using assms unfolding checkCompatible_def isForkIncompatible_def IsDAOFork_def IsEIP158_def
  by (elim if_SomeE) (simp_all only: rewinds_below_active simp_thms option.distinct)

function CheckCompatible_loop ::
  "ChainConfig \<Rightarrow> ChainConfig \<Rightarrow> u64 \<Rightarrow> ConfigCompatError option \<Rightarrow> ConfigCompatError option" where
  "CheckCompatible_loop c newcfg bhead lasterr =
     (case checkCompatible c newcfg (Some (uint bhead)) of
        None \<Rightarrow> lasterr
      | Some err \<Rightarrow>
          if map_option RewindTo lasterr = Some (RewindTo err) then lasterr
          else CheckCompatible_loop c newcfg (RewindTo err) (Some err))"
  by pat_completeness auto
termination
proof (relation "measure (\<lambda>(c, newcfg, bhead, lasterr).
    2 * unat bhead + (if map_option RewindTo lasterr = Some bhead then 0 else 1))", goal_cases)
  case 1
  show ?case by simp
next
  case (2 c newcfg bhead lasterr err)
  from checkCompatible_RewindTo [OF 2(1)] show ?case
    unfolding rewinds_below_def
  proof
    assume "RewindTo err < bhead"
    then show ?thesis by (simp add: word_less_nat_alt)
  next
    assume z: "RewindTo err = 0"
    show ?thesis
    proof (cases "bhead = 0")
      case True
      with z 2(2) show ?thesis by simp
    next
      case False
      then have "0 < unat bhead" by (simp add: unat_gt_0)
      with z show ?thesis by simp
    qed
  qed
qed

declare CheckCompatible_loop.simps [simp del]

definition CheckCompatible ::
  "ChainConfig \<Rightarrow> ChainConfig \<Rightarrow> u64 \<Rightarrow> ConfigCompatError option" where
  "CheckCompatible c newcfg height = CheckCompatible_loop c newcfg height None"

subsection \<open>The lowest conflict\<close>

lemma configNumEqual_iff: "configNumEqual x y \<longleftrightarrow> x = y"
  by (cases x; cases y) auto

lemma checkCompatible_self: "checkCompatible c c head = None"
  by (simp add: checkCompatible_def isForkIncompatible_def configNumEqual_iff)

text \<open>The specification: the blocks from which on two configurations differ. Two settings of one fork
  differ from either of their blocks on, the flag of the DAO fork and the chain identifier matter
  from the fork that uses them on.\<close>

definition differing :: "int option \<Rightarrow> int option \<Rightarrow> int set" where
  "differing x y = (if x = y then {} else set_option x \<union> set_option y)"

definition conflicts :: "ChainConfig \<Rightarrow> ChainConfig \<Rightarrow> int set" where
  "conflicts c d =
     (\<Union>f\<in>{HomesteadBlock, DAOForkBlock, EIP150Block, EIP155Block, EIP158Block, ByzantiumBlock, ConstantinopleBlock,
          EWASMBlock, BIP1Block, BIP2Block, BIP3Block, BIP4Block}. differing (f c) (f d))
     \<union> (if DAOForkSupport c = DAOForkSupport d then {} else set_option (DAOForkBlock c))
     \<union> (if ChainID c = ChainID d then {} else set_option (EIP158Block c))"

lemma finite_conflicts: "finite (conflicts c d)"
  by (simp add: conflicts_def differing_def)

lemma isForked_iff: "isForked x (Some h) \<longleftrightarrow> (\<exists>b\<in>set_option x. b \<le> h)"
  by (cases x) simp_all

lemma isForkIncompatible_iff: "isForkIncompatible x y (Some h) \<longleftrightarrow> (\<exists>b\<in>differing x y. b \<le> h)"
  by (auto simp: isForkIncompatible_def isForked_iff configNumEqual_iff differing_def)

lemma no_conflict:
  "\<not> isForkIncompatible x y (Some h) \<longleftrightarrow> (\<forall>b\<in>differing x y. h < b)"
  "\<not> (isForked x (Some h) \<and> p \<noteq> q) \<longleftrightarrow> (\<forall>b\<in>(if p = q then {} else set_option x). h < b)"
  unfolding isForkIncompatible_iff isForked_iff by (auto simp: not_le)

lemma if_None: "(if b then Some a else r) = None \<longleftrightarrow> \<not> b \<and> r = None"
  by simp

lemma checkCompatible_None: "checkCompatible c d (Some h) = None \<longleftrightarrow> (\<forall>b\<in>conflicts c d. h < b)"
  unfolding checkCompatible_def conflicts_def IsDAOFork_def IsEIP158_def configNumEqual_iff
  by (simp only: if_None no_conflict ball_Un UN_insert UN_empty Un_empty_right simp_thms(21,22)) argo

text \<open>An error rewinds to the block before one of the conflicts at the head.\<close>

definition rewinds_before :: "int set \<Rightarrow> int \<Rightarrow> ConfigCompatError \<Rightarrow> bool" where
  "rewinds_before B h err \<longleftrightarrow> (\<exists>m\<in>B. m \<le> h \<and> uint (RewindTo err) = max 0 (m - 1))"

lemma uint_rewind:
  assumes "m \<le> uint (h :: u64)"
  shows "uint (if 0 < m then big_Uint64 m - 1 else 0) = max 0 (m - 1)"
proof (cases "0 < m")
  case True
  have "m < 2 ^ 64" using assms uint_lt2p [of h] by simp
  with True have u: "uint (big_Uint64 m) = m" by (intro uint_big_Uint64) auto
  then have "1 \<le> big_Uint64 m" using True by (simp only: word_le_def uint_1)
  then have "uint (big_Uint64 m - 1) = uint (big_Uint64 m) - uint (1 :: u64)"
    by (rule uint_minus_simple_alt [THEN iffD1])
  with True show ?thesis by (simp add: u)
qed simp

lemma newCompatError_rewinds:
  assumes "isForkIncompatible x y (Some (uint (h :: u64)))"
  shows "rewinds_before (differing x y) (uint h) (newCompatError w x y)"
proof -
  define rew where "rew = (case x of None \<Rightarrow> y
    | Some s \<Rightarrow> (case y of None \<Rightarrow> x | Some n \<Rightarrow> if s < n then x else y))"
  from assms obtain m where m: "rew = Some m" "m \<in> differing x y" "m \<le> uint h"
    by (cases x; cases y; cases "the x < the y")
      (auto simp: rew_def isForkIncompatible_iff differing_def split: if_splits)
  have "RewindTo (newCompatError w x y)
    = (case rew of Some m \<Rightarrow> if 0 < m then big_Uint64 m - 1 else 0 | None \<Rightarrow> 0)"
    by (simp only: newCompatError_def Let_def rew_def ConfigCompatError.select_convs)
  also have "\<dots> = (if 0 < m then big_Uint64 m - 1 else 0)" by (simp only: m(1) option.case)
  finally show ?thesis unfolding rewinds_before_def by (simp only: uint_rewind [OF m(3)]) (use m in blast)
qed

lemma newCompatError_flag:
  assumes "isForked x (Some (uint (h :: u64)))" "\<not> isForkIncompatible x y (Some (uint h))"
  shows "rewinds_before (set_option x) (uint h) (newCompatError w x y)"
proof -
  from assms obtain m where m: "x = Some m" "y = Some m" "m \<le> uint h"
    by (cases x) (auto simp: isForkIncompatible_def configNumEqual_iff)
  with uint_rewind [OF m(3)] show ?thesis by (simp add: rewinds_before_def newCompatError_def Let_def)
qed

lemma rewinds_before_mono: "rewinds_before A h err \<Longrightarrow> A \<subseteq> B \<Longrightarrow> rewinds_before B h err"
  by (auto simp: rewinds_before_def)

lemma if_SomeE':
  "(if b then Some a else r) = Some x \<Longrightarrow> (b \<Longrightarrow> x = a \<Longrightarrow> P) \<Longrightarrow> (\<not> b \<Longrightarrow> r = Some x \<Longrightarrow> P) \<Longrightarrow> P"
  by (cases b) simp_all

lemma checkCompatible_rewinds:
  assumes "checkCompatible c d (Some (uint (h :: u64))) = Some err"
  shows "rewinds_before (conflicts c d) (uint h) err"
proof -
  have pair: "rewinds_before (conflicts c d) (uint h) (newCompatError w (f c) (f d))"
    if "isForkIncompatible (f c) (f d) (Some (uint h))"
      "f \<in> {HomesteadBlock, DAOForkBlock, EIP150Block, EIP155Block, EIP158Block, ByzantiumBlock, ConstantinopleBlock,
          EWASMBlock, BIP1Block, BIP2Block, BIP3Block, BIP4Block}" for f w
    by (rule rewinds_before_mono [OF newCompatError_rewinds [OF that(1)]]) (use that(2) in \<open>unfold conflicts_def, blast\<close>)
  note pairs = pair [of HomesteadBlock] pair [of DAOForkBlock] pair [of EIP150Block] pair [of EIP155Block]
    pair [of EIP158Block] pair [of ByzantiumBlock] pair [of ConstantinopleBlock] pair [of EWASMBlock]
    pair [of BIP1Block] pair [of BIP2Block] pair [of BIP3Block] pair [of BIP4Block]
  have flags: "rewinds_before (conflicts c d) (uint h) (newCompatError w (DAOForkBlock c) (DAOForkBlock d))"
    if "\<not> isForkIncompatible (DAOForkBlock c) (DAOForkBlock d) (Some (uint h))"
      "isForked (DAOForkBlock c) (Some (uint h)) \<and> DAOForkSupport c \<noteq> DAOForkSupport d" for w
    by (rule rewinds_before_mono [OF newCompatError_flag]) (use that in \<open>auto simp: conflicts_def\<close>)
  have ids: "rewinds_before (conflicts c d) (uint h) (newCompatError w (EIP158Block c) (EIP158Block d))"
    if "\<not> isForkIncompatible (EIP158Block c) (EIP158Block d) (Some (uint h))"
      "isForked (EIP158Block c) (Some (uint h)) \<and> ChainID c \<noteq> ChainID d" for w
    by (rule rewinds_before_mono [OF newCompatError_flag]) (use that in \<open>auto simp: conflicts_def\<close>)
  show ?thesis
    using assms unfolding checkCompatible_def IsDAOFork_def IsEIP158_def configNumEqual_iff
    by (elim if_SomeE') (simp_all add: pairs flags ids)
qed

lemma lowest_unique:
  assumes "\<forall>b\<in>B. h < b" "m \<in> B" "h = max 0 (m - 1)"
  shows "(\<forall>b\<in>B. m \<le> b) \<and> h = max 0 (m - (1 :: int))"
  using assms by fastforce

lemma CheckCompatible_loop_lowest:
  assumes "CheckCompatible_loop c d h le = Some e" "le = None \<or> (\<exists>l. le = Some l \<and> RewindTo l = h \<and> rewinds_before (conflicts c d) H l)"
    "uint h \<le> H"
  shows "\<exists>m\<in>conflicts c d. (\<forall>b\<in>conflicts c d. m \<le> b) \<and> m \<le> H \<and> uint (RewindTo e) = max 0 (m - 1)"
  using assms
proof (induction c d h le rule: CheckCompatible_loop.induct)
  case (1 c d h le)
  let ?B = "conflicts c d"
  show ?case
  proof (cases "checkCompatible c d (Some (uint h))")
    case None
    with "1.prems" have "le = Some e" "RewindTo e = h" "rewinds_before ?B H e"
      by (auto simp: CheckCompatible_loop.simps [of c d h le])
    then obtain m where "m \<in> ?B" "m \<le> H" "uint h = max 0 (m - 1)" "RewindTo e = h" by (auto simp: rewinds_before_def)
    with None lowest_unique [of ?B "uint h" m] show ?thesis unfolding checkCompatible_None by auto
  next
    case (Some err)
    note r = checkCompatible_rewinds [OF Some]
    show ?thesis
    proof (cases "map_option RewindTo le = Some (RewindTo err)")
      case True
      with "1.prems" Some have e: "le = Some e" "RewindTo e = h" "RewindTo err = h"
        by (auto simp: CheckCompatible_loop.simps [of c d h le])
      with checkCompatible_RewindTo [OF Some] have h: "h = 0" by (simp add: rewinds_below_def)
      with r obtain m where m: "m \<in> ?B" "m \<le> 0" by (auto simp: rewinds_before_def)
      then have "Min ?B \<in> ?B" "Min ?B \<le> 0" "\<forall>b\<in>?B. Min ?B \<le> b"
        using finite_conflicts [of c d] order_trans [OF Min_le [of ?B m]] by (auto intro: Min_in)
      with e(2) h "1.prems"(3) show ?thesis by force
    next
      case False
      with "1.prems"(1) Some have "CheckCompatible_loop c d (RewindTo err) (Some err) = Some e"
        unfolding CheckCompatible_loop.simps [of c d h le] by (simp only: option.case if_False)
      moreover have "rewinds_before ?B H err" using r "1.prems"(3) order_trans unfolding rewinds_before_def by blast
      moreover have "uint (RewindTo err) \<le> H"
      proof -
        from r obtain m where m: "m \<le> uint h" "uint (RewindTo err) = max 0 (m - 1)" unfolding rewinds_before_def by blast
        have "0 \<le> uint h" by simp
        with m "1.prems"(3) show ?thesis by linarith
      qed
      ultimately show ?thesis using "1.IH" [OF Some False] by blast
    qed
  qed
qed

lemma CheckCompatible_loop_Some: "CheckCompatible_loop c n h (Some le) \<noteq> None"
proof (induction c n h "Some le" arbitrary: le rule: CheckCompatible_loop.induct)
  case (1 c n h)
  then show ?case
    by (subst CheckCompatible_loop.simps) (auto split: option.split)
qed

lemma CheckCompatible_None:
  "CheckCompatible c n h = None \<longleftrightarrow> checkCompatible c n (Some (uint h)) = None"
  by (cases "checkCompatible c n (Some (uint h))")
    (simp_all add: CheckCompatible_def CheckCompatible_loop.simps [of c n h None]
      CheckCompatible_loop_Some)



end
