(* ===== verification/Rlp.thy ===== *)
theory Rlp
  imports Berith_Prelude
begin

text \<open>
  The RLP encoder, \<open>rlp/encode.go\<close>, and the slice-splitting helpers of \<open>rlp/raw.go\<close>.

  The encoder dispatches on the reflected type of its argument. \<open>rlp_value\<close> has one constructor
  for each kind of writer that \<open>makeWriter\<close> chooses; a custom \<open>EncodeRLP\<close> method is the value it
  encodes, and a value of an unsupported type is \<open>VUnsupported\<close>. A pointer to a string, an array
  of bytes or a struct encodes as what it points to; the zero values that stand for nil pointers
  are \<open>VBytes []\<close>, \<open>VBigInt None\<close> and \<open>VList []\<close>. The encoder writes string data and list headers
  to two separate buffers (\<open>encbuf\<close>), because the size of a list is known only when it ends;
  \<open>toBytes\<close> merges them. \<open>rlp_spec\<close> is the encoding as the specification of RLP describes it.
\<close>

unbundle bit_operations_syntax

subsection \<open>Integers and headers\<close>

definition putint :: "u64 \<Rightarrow> byte list" where
  "putint i =
     (if i < 2 ^ 8 then [ucast i]
      else if i < 2 ^ 16 then [ucast (drop_bit 8 i), ucast i]
      else if i < 2 ^ 24 then [ucast (drop_bit 16 i), ucast (drop_bit 8 i), ucast i]
      else if i < 2 ^ 32 then
        [ucast (drop_bit 24 i), ucast (drop_bit 16 i), ucast (drop_bit 8 i), ucast i]
      else if i < 2 ^ 40 then
        [ucast (drop_bit 32 i), ucast (drop_bit 24 i), ucast (drop_bit 16 i), ucast (drop_bit 8 i),
         ucast i]
      else if i < 2 ^ 48 then
        [ucast (drop_bit 40 i), ucast (drop_bit 32 i), ucast (drop_bit 24 i), ucast (drop_bit 16 i),
         ucast (drop_bit 8 i), ucast i]
      else if i < 2 ^ 56 then
        [ucast (drop_bit 48 i), ucast (drop_bit 40 i), ucast (drop_bit 32 i), ucast (drop_bit 24 i),
         ucast (drop_bit 16 i), ucast (drop_bit 8 i), ucast i]
      else
        [ucast (drop_bit 56 i), ucast (drop_bit 48 i), ucast (drop_bit 40 i), ucast (drop_bit 32 i),
         ucast (drop_bit 24 i), ucast (drop_bit 16 i), ucast (drop_bit 8 i), ucast i])"

lemma unat_drop_bit: "unat (drop_bit k (i :: u64)) = unat i div 2 ^ k"
  by (subst unat_drop_bit_eq) (rule drop_bit_eq_div)

lemma drop_byte_shrinks:
  assumes "drop_bit 8 i \<noteq> 0"
  shows "unat (drop_bit 8 i) < unat (i :: u64)"
proof -
  have "0 < unat i div 256" using assms unat_drop_bit [of 8 i] by (simp flip: unat_gt_0)
  then show ?thesis unfolding unat_drop_bit by (cases "unat i = 0") (simp_all add: div_less_dividend)
qed

function intsize_loop :: "u64 \<Rightarrow> nat \<Rightarrow> nat" where
  "intsize_loop i sz =
     (if drop_bit 8 i = 0 then sz else intsize_loop (drop_bit 8 i) (sz + 1))"
  by pat_completeness auto
termination
  by (relation "measure (\<lambda>(i, sz). unat i)") (auto intro: drop_byte_shrinks)

declare intsize_loop.simps [simp del]

definition intsize :: "u64 \<Rightarrow> nat" where
  "intsize i = intsize_loop i 1"

definition headsize :: "u64 \<Rightarrow> nat" where
  "headsize sz = (if sz < 56 then 1 else 1 + intsize sz)"

definition ListSize :: "u64 \<Rightarrow> u64" where
  "ListSize contentSize = of_nat (headsize contentSize) + contentSize"

definition puthead :: "byte \<Rightarrow> byte \<Rightarrow> u64 \<Rightarrow> byte list" where
  "puthead smalltag largetag sz =
     (if sz < 56 then [smalltag + ucast sz]
      else (largetag + of_nat (length (putint sz))) # putint sz)"

subsection \<open>The encoder buffer\<close>

datatype rlp_error =
    EOL | ErrExpectedString | ErrExpectedList | ErrCanonInt | ErrCanonSize | ErrElemTooLarge
  | ErrValueTooLarge | ErrMoreThanOneValue | ErrNotInList | ErrNotAtEOL | ErrUintOverflow
  | IoEOF | IoUnexpectedEOF | DecodeError string | NegativeBigInt | NotSerializable | OutOfFuel

datatype rlp_value =
    VRaw "byte list"
  | VUint u64
  | VBool bool
  | VBigInt "int option"
  | VBytes "byte list"
  | VNilInterface
  | VList "rlp_value list"
  | VUnsupported

record listhead =
  offset :: nat
  lsize :: nat

record encbuf =
  enc_str :: "byte list"
  lheads :: "listhead list"
  lhsize :: nat

definition empty_encbuf :: encbuf where
  "empty_encbuf = \<lparr>enc_str = [], lheads = [], lhsize = 0\<rparr>"

definition append_str :: "encbuf \<Rightarrow> byte list \<Rightarrow> encbuf" where
  "append_str w b = w\<lparr>enc_str := enc_str w @ b\<rparr>"

definition listhead_encode :: "listhead \<Rightarrow> byte list" where
  "listhead_encode head = puthead 0xC0 0xF7 (of_nat (lsize head))"

definition encodeStringHeader :: "encbuf \<Rightarrow> nat \<Rightarrow> encbuf" where
  "encodeStringHeader w sz =
     (if sz < 56 then append_str w [0x80 + of_nat sz]
      else append_str w ((0xB7 + of_nat (length (putint (of_nat sz)))) # putint (of_nat sz)))"

definition encodeString :: "encbuf \<Rightarrow> byte list \<Rightarrow> encbuf" where
  "encodeString w b =
     (if length b = 1 \<and> hd b \<le> 0x7F then append_str w [hd b]
      else append_str (encodeStringHeader w (length b)) b)"

definition encbuf_size :: "encbuf \<Rightarrow> nat" where
  "encbuf_size w = length (enc_str w) + lhsize w"

text \<open>\<open>list\<close> appends a header and returns its index; \<open>listEnd\<close> fills in the size through it.\<close>

definition encbuf_list :: "encbuf \<Rightarrow> nat \<times> encbuf" where
  "encbuf_list w =
     (length (lheads w),
      w\<lparr>lheads := lheads w @ [\<lparr>offset = length (enc_str w), lsize = lhsize w\<rparr>]\<rparr>)"

definition listEnd :: "encbuf \<Rightarrow> nat \<Rightarrow> encbuf" where
  "listEnd w lh =
     (let h = lheads w ! lh; sz = encbuf_size w - offset h - lsize h in
      w\<lparr>lheads := (lheads w)[lh := h\<lparr>lsize := sz\<rparr>],
        lhsize := (if sz < 56 then lhsize w + 1 else lhsize w + (1 + intsize (of_nat sz)))\<rparr>)"

fun toBytes_loop :: "byte list \<Rightarrow> nat \<Rightarrow> listhead list \<Rightarrow> byte list" where
  "toBytes_loop str strpos [] = drop strpos str"
| "toBytes_loop str strpos (head # heads) =
     take (offset head - strpos) (drop strpos str) @ listhead_encode head
       @ toBytes_loop str (offset head) heads"

text \<open>The output buffer has the size that the writers have counted. Data beyond its end is cut off and bytes that
  are not written stay zero; the theorem on \<open>EncodeToBytes\<close> shows that the size is exact.\<close>

definition toBytes :: "encbuf \<Rightarrow> byte list" where
  "toBytes w =
     take (encbuf_size w) (toBytes_loop (enc_str w) 0 (lheads w) @ replicate (encbuf_size w) 0)"

subsection \<open>The writers\<close>

definition writeUint :: "u64 \<Rightarrow> encbuf \<Rightarrow> encbuf" where
  "writeUint i w =
     (if i = 0 then append_str w [0x80]
      else if i < 128 then append_str w [ucast i]
      else append_str w ((0x80 + of_nat (length (putint i))) # putint i))"

definition writeBool :: "bool \<Rightarrow> encbuf \<Rightarrow> encbuf" where
  "writeBool b w = append_str w [if b then 0x01 else 0x80]"

text \<open>\<open>big.Int.Bytes\<close>: the absolute value, big-endian, without leading zeros.\<close>

function nat_bytes :: "nat \<Rightarrow> byte list" where
  "nat_bytes n = (if n = 0 then [] else nat_bytes (n div 256) @ [of_nat (n mod 256)])"
  by pat_completeness auto
termination by (relation "measure id") auto

declare nat_bytes.simps [simp del]

definition writeBigInt :: "int \<Rightarrow> encbuf \<Rightarrow> rlp_error + encbuf" where
  "writeBigInt i w =
     (if i < 0 then Inl NegativeBigInt
      else if i = 0 then Inr (append_str w [0x80])
      else Inr (encodeString w (nat_bytes (nat \<bar>i\<bar>))))"

definition writeBigIntPtr :: "int option \<Rightarrow> encbuf \<Rightarrow> rlp_error + encbuf" where
  "writeBigIntPtr ptr w =
     (case ptr of None \<Rightarrow> Inr (append_str w [0x80]) | Some i \<Rightarrow> writeBigInt i w)"

definition writeRawValue :: "byte list \<Rightarrow> encbuf \<Rightarrow> encbuf" where
  "writeRawValue b w = append_str w b"

definition writeBytes :: "byte list \<Rightarrow> encbuf \<Rightarrow> encbuf" where
  "writeBytes b w = encodeString w b"

fun write_value :: "rlp_value \<Rightarrow> encbuf \<Rightarrow> rlp_error + encbuf"
and write_elems :: "rlp_value list \<Rightarrow> encbuf \<Rightarrow> rlp_error + encbuf" where
  "write_value (VRaw b) w = Inr (writeRawValue b w)"
| "write_value (VUint i) w = Inr (writeUint i w)"
| "write_value (VBool b) w = Inr (writeBool b w)"
| "write_value (VBigInt p) w = writeBigIntPtr p w"
| "write_value (VBytes b) w = Inr (writeBytes b w)"
| "write_value VNilInterface w = Inr (append_str w [0xC0])"
| "write_value (VList vs) w =
     (case encbuf_list w of (lh, w1) \<Rightarrow>
      (case write_elems vs w1 of Inl e \<Rightarrow> Inl e | Inr w2 \<Rightarrow> Inr (listEnd w2 lh)))"
| "write_value VUnsupported w = Inl NotSerializable"
| "write_elems [] w = Inr w"
| "write_elems (v # vs) w =
     (case write_value v w of Inl e \<Rightarrow> Inl e | Inr w1 \<Rightarrow> write_elems vs w1)"

definition EncodeToBytes :: "rlp_value \<Rightarrow> rlp_error + byte list" where
  "EncodeToBytes v =
     (case write_value v empty_encbuf of Inl e \<Rightarrow> Inl e | Inr w \<Rightarrow> Inr (toBytes w))"

subsection \<open>The encoding of the specification\<close>

definition spec_head :: "byte \<Rightarrow> byte \<Rightarrow> nat \<Rightarrow> byte list" where
  "spec_head short long n =
     (if n < 56 then [short + of_nat n]
      else (long + of_nat (length (nat_bytes n))) # nat_bytes n)"

definition spec_string :: "byte list \<Rightarrow> byte list" where
  "spec_string b =
     (if length b = 1 \<and> unat (hd b) < 128 then b else spec_head 0x80 0xB7 (length b) @ b)"

definition spec_list :: "byte list \<Rightarrow> byte list" where
  "spec_list content = spec_head 0xC0 0xF7 (length content) @ content"

fun rlp_spec :: "rlp_value \<Rightarrow> (rlp_error, byte list) sum"
and rlp_specs :: "rlp_value list \<Rightarrow> (rlp_error, byte list) sum" where
  "rlp_spec (VRaw b) = Inr b"
| "rlp_spec (VUint i) = Inr (spec_string (nat_bytes (unat i)))"
| "rlp_spec (VBool b) = Inr (spec_string (if b then [1] else []))"
| "rlp_spec (VBigInt None) = Inr (spec_string [])"
| "rlp_spec (VBigInt (Some i)) =
     (if i < 0 then Inl NegativeBigInt else Inr (spec_string (nat_bytes (nat i))))"
| "rlp_spec (VBytes b) = Inr (spec_string b)"
| "rlp_spec VNilInterface = Inr (spec_list [])"
| "rlp_spec (VList vs) =
     (case rlp_specs vs of Inl e \<Rightarrow> Inl e | Inr content \<Rightarrow> Inr (spec_list content))"
| "rlp_spec VUnsupported = Inl NotSerializable"
| "rlp_specs [] = Inr []"
| "rlp_specs (v # vs) =
     (case rlp_spec v of Inl e \<Rightarrow> Inl e
      | Inr b \<Rightarrow> (case rlp_specs vs of Inl e \<Rightarrow> Inl e | Inr bs \<Rightarrow> Inr (b @ bs)))"

subsection \<open>Integers in bytes\<close>

lemma of_nat_byte_mod: "(of_nat (n mod 256) :: byte) = of_nat n"
  by (simp add: word_unat_eq_iff unat_of_nat)

lemma ucast_drop: "(ucast (drop_bit k i) :: byte) = of_nat (unat (i :: u64) div 2 ^ k)"
  unfolding unat_drop_bit [symmetric] by (simp add: unsigned_of_nat)

lemma be_bytes_div: "be_bytes (Suc k) n = be_bytes k (n div 256) @ [of_nat n]"
  by (simp add: of_nat_byte_mod)

lemma of_nat_unat_byte: "(ucast (i :: u64) :: byte) = of_nat (unat i)"
  by (simp add: unsigned_of_nat)

lemma word_less_nat: "i < of_nat m \<longleftrightarrow> unat (i :: u64) < m" if "m < 2 ^ 64"
  using that by (simp add: word_less_nat_alt unat_of_nat)

lemma be_bytes_0 [simp]: "n < 1 \<Longrightarrow> be_bytes k n = replicate k 0"
  by (induction k arbitrary: n) (auto simp: replicate_append_same)

lemma nat_bytes_be_bytes:
  "256 ^ k \<le> n \<Longrightarrow> n < 256 ^ Suc k \<Longrightarrow> nat_bytes n = be_bytes (Suc k) n"
proof (induction k arbitrary: n)
  case 0
  then show ?case by (simp add: nat_bytes.simps [of n] nat_bytes.simps [of 0])
next
  case (Suc k)
  have "256 ^ k \<le> n div 256" "n div 256 < 256 ^ Suc k" "n \<noteq> 0"
    using Suc.prems by (auto simp: less_eq_div_iff_mult_less_eq less_mult_imp_div_less algebra_simps)
  then show ?case
    using Suc.IH [of "n div 256"] by (simp only: nat_bytes.simps [of n] be_bytes.simps(2) [of "Suc k"] if_False)
qed

lemma nat_bytes_0 [simp]: "nat_bytes 0 = []"
  by (simp add: nat_bytes.simps)

lemma be_value_nat_bytes [simp]: "be_value (nat_bytes n) = n"
proof (induction n rule: nat_bytes.induct)
  case (1 n)
  then show ?case
    by (cases "n = 0") (simp_all add: nat_bytes.simps [of n] be_value_append unat_byte_mod)
qed

lemma nat_bytes_eq_Nil [simp]: "nat_bytes n = [] \<longleftrightarrow> n = 0"
  by (simp add: nat_bytes.simps [of n])

lemma hd_nat_bytes: "n \<noteq> 0 \<Longrightarrow> hd (nat_bytes n) \<noteq> 0"
proof (induction n rule: nat_bytes.induct)
  case (1 n)
  show ?case
  proof (cases "n div 256 = 0")
    case True
    with "1.prems" have "n mod 256 = n" "n < 256" by (auto simp: div_eq_0_iff)
    then have "(of_nat n :: byte) \<noteq> 0" using "1.prems" by (simp add: word_unat_eq_iff unat_of_nat)
    with True "1.prems" \<open>n mod 256 = n\<close> show ?thesis by (simp add: nat_bytes.simps [of n] nat_bytes.simps [of 0])
  next
    case False
    with 1 show ?thesis by (simp add: nat_bytes.simps [of n])
  qed
qed

lemma be_bytes_be_value: "be_bytes (length bs) (be_value bs) = bs"
proof (induction bs rule: rev_induct)
  case (snoc b bs)
  have "unat b < 256" using unsigned_less [of b] by simp
  then show ?case
    by (simp add: be_value_append snoc.IH of_nat_byte_mod)
qed simp

lemma nat_bytes_be_value: "bs = [] \<or> hd bs \<noteq> 0 \<Longrightarrow> nat_bytes (be_value bs) = bs"
proof (cases bs)
  case (Cons b cs)
  assume "bs = [] \<or> hd bs \<noteq> 0"
  then have "1 \<le> unat b" using Cons by (simp add: Suc_le_eq unat_gt_0)
  then have "1 * 256 ^ length cs \<le> unat b * 256 ^ length cs" by (rule mult_le_mono1)
  then have "256 ^ length cs \<le> be_value bs" unfolding Cons be_value.simps by linarith
  moreover have "be_value bs < 256 ^ Suc (length cs)" using be_value_less [of bs] Cons by simp
  ultimately have "nat_bytes (be_value bs) = be_bytes (Suc (length cs)) (be_value bs)"
    by (rule nat_bytes_be_bytes)
  with be_bytes_be_value [of bs] Cons show ?thesis by simp
qed (simp add: nat_bytes.simps)

lemma length_nat_bytes: "n < 256 ^ k \<Longrightarrow> length (nat_bytes n) \<le> k"
proof (induction k arbitrary: n)
  case 0
  then show ?case by (simp add: nat_bytes.simps)
next
  case (Suc k)
  from Suc.prems have "n div 256 < 256 ^ k" by (simp add: less_mult_imp_div_less algebra_simps)
  from Suc.IH [OF this] show ?case by (cases "n = 0") (simp_all add: nat_bytes.simps [of n])
qed

text \<open>The unrolled \<open>putint\<close> and the loop of \<open>intsize\<close> agree with the minimal big-endian
  representation.\<close>

lemma be_bytes_Cons: "be_bytes (Suc k) n = of_nat (n div 256 ^ k) # be_bytes k n"
proof (induction k arbitrary: n)
  case (Suc k)
  have "be_bytes (Suc (Suc k)) n = be_bytes (Suc k) (n div 256) @ [of_nat n]"
    by (simp only: be_bytes_div)
  also have "\<dots> = of_nat (n div 256 ^ Suc k) # be_bytes (Suc k) n"
    by (simp only: Suc.IH [of "n div 256"] be_bytes_div [of k n] append_Cons div_mult2_eq [symmetric]
        power_Suc)
  finally show ?case .
qed (simp add: of_nat_byte_mod)

lemma be_bytes_numeral:
  "be_bytes (numeral k) n = of_nat (n div 256 ^ pred_numeral k) # be_bytes (pred_numeral k) n"
  by (simp only: numeral_eq_Suc be_bytes_Cons)

lemma if_eqI: "(c \<Longrightarrow> a = x) \<Longrightarrow> (\<not> c \<Longrightarrow> b = x) \<Longrightarrow> (if c then a else b) = x"
  by simp

lemma putint_nat_bytes:
  assumes "i \<noteq> 0"
  shows "putint i = nat_bytes (unat i)"
proof -
  define n where "n = unat i"
  have lt: "i < 2 ^ k \<longleftrightarrow> n < 2 ^ k" if "k < 64" for k
    using word_less_nat [of "2 ^ k" i] power_strict_increasing [OF that, of "2 :: nat"]
    by (simp add: n_def)
  have lts: "i < 2 ^ 8 \<longleftrightarrow> n < 2 ^ 8" "i < 2 ^ 16 \<longleftrightarrow> n < 2 ^ 16" "i < 2 ^ 24 \<longleftrightarrow> n < 2 ^ 24"
    "i < 2 ^ 32 \<longleftrightarrow> n < 2 ^ 32" "i < 2 ^ 40 \<longleftrightarrow> n < 2 ^ 40" "i < 2 ^ 48 \<longleftrightarrow> n < 2 ^ 48"
    "i < 2 ^ 56 \<longleftrightarrow> n < 2 ^ 56"
    by (rule lt, simp)+
  have n: "0 < n" "n < 2 ^ 64" using assms unsigned_less [of i] by (simp_all add: n_def unat_gt_0)
  have b: "be_bytes (Suc k) n = nat_bytes n" if "256 ^ k \<le> n" "n < 256 ^ Suc k" for k
    using that by (rule nat_bytes_be_bytes [symmetric])
  show ?thesis
    unfolding putint_def lts ucast_drop
    unfolding of_nat_unat_byte n_def [symmetric]
    using n b [of 0] b [of 1] b [of 2] b [of 3] b [of 4] b [of 5] b [of 6] b [of 7]
    by (intro if_eqI) (simp_all add: be_bytes_numeral of_nat_byte_mod)
qed

lemma putint_0: "putint 0 = [0]"
  by (simp add: putint_def)

lemma intsize_loop_nat_bytes:
  "i \<noteq> 0 \<Longrightarrow> intsize_loop i k + 1 = k + length (nat_bytes (unat i))"
proof (induction i k rule: intsize_loop.induct)
  case (1 i k)
  have d: "unat (drop_bit 8 i) = unat i div 256" by (simp add: unat_drop_bit)
  show ?case
  proof (cases "drop_bit 8 i = 0")
    case True
    then have "unat i div 256 = 0" using d by simp
    moreover have "0 < unat i" using "1.prems" by (simp add: unat_gt_0)
    ultimately show ?thesis
      using True by (simp add: intsize_loop.simps [of i k] nat_bytes.simps [of "unat i"])
  next
    case False
    moreover have "0 < unat i" using "1.prems" by (simp add: unat_gt_0)
    ultimately show ?thesis
      using 1 by (simp add: intsize_loop.simps [of i k] nat_bytes.simps [of "unat i"] d)
  qed
qed

lemma intsize_nat_bytes: "i \<noteq> 0 \<Longrightarrow> intsize i = length (nat_bytes (unat i))"
  using intsize_loop_nat_bytes [of i 1] by (simp add: intsize_def)

lemma length_putint: "length (putint i) = intsize i"
proof (cases "i = 0")
  case True
  then show ?thesis by (simp add: putint_0 intsize_def intsize_loop.simps)
qed (simp add: putint_nat_bytes intsize_nat_bytes)

lemma intsize_le: "intsize i \<le> 8"
proof (cases "i = 0")
  case True
  then show ?thesis by (simp add: intsize_def intsize_loop.simps)
next
  case False
  have "unat i < 256 ^ 8" using unsigned_less [of i] by simp
  with False show ?thesis by (simp add: intsize_nat_bytes length_nat_bytes)
qed

text \<open>The reserved header size is the size of the header that is written.\<close>

lemma length_puthead: "length (puthead a b n) = headsize n"
  by (simp add: puthead_def headsize_def length_putint)

subsection \<open>The buffered encoder writes the specified encoding\<close>

text \<open>\<open>written w w' out\<close>: between the buffers \<open>w\<close> and \<open>w'\<close> the encoder wrote something that is
  merged to \<open>out\<close>, whatever follows.\<close>

definition written :: "encbuf \<Rightarrow> encbuf \<Rightarrow> byte list \<Rightarrow> bool" where
  "written w w' out \<longleftrightarrow> (\<exists>s hs.
     enc_str w' = enc_str w @ s \<and> lheads w' = lheads w @ hs
     \<and> length s + lhsize w' = lhsize w + length out
     \<and> (\<forall>h\<in>set hs. length (enc_str w) \<le> offset h)
     \<and> (\<forall>rest hs'. (\<forall>h\<in>set hs'. length (enc_str w @ s) \<le> offset h) \<longrightarrow>
          toBytes_loop (enc_str w @ s @ rest) (length (enc_str w)) (hs @ hs')
          = out @ toBytes_loop (enc_str w @ s @ rest) (length (enc_str w @ s)) hs'))"

lemma writtenI:
  assumes "enc_str w' = enc_str w @ s" "lheads w' = lheads w @ hs"
    and "length s + lhsize w' = lhsize w + length out"
    and "\<And>h. h \<in> set hs \<Longrightarrow> length (enc_str w) \<le> offset h"
    and "\<And>rest hs'. (\<And>h. h \<in> set hs' \<Longrightarrow> length (enc_str w @ s) \<le> offset h) \<Longrightarrow>
      toBytes_loop (enc_str w @ s @ rest) (length (enc_str w)) (hs @ hs')
      = out @ toBytes_loop (enc_str w @ s @ rest) (length (enc_str w @ s)) hs'"
  shows "written w w' out"
  unfolding written_def using assms by blast

lemma writtenE:
  assumes "written w w' out"
  obtains s hs where "enc_str w' = enc_str w @ s" "lheads w' = lheads w @ hs"
    and "length s + lhsize w' = lhsize w + length out"
    and "\<And>h. h \<in> set hs \<Longrightarrow> length (enc_str w) \<le> offset h"
    and "\<And>rest hs'. (\<And>h. h \<in> set hs' \<Longrightarrow> length (enc_str w @ s) \<le> offset h) \<Longrightarrow>
      toBytes_loop (enc_str w @ s @ rest) (length (enc_str w)) (hs @ hs')
      = out @ toBytes_loop (enc_str w @ s @ rest) (length (enc_str w @ s)) hs'"
  using assms unfolding written_def by blast

lemma toBytes_loop_skip:
  assumes "\<And>h. h \<in> set hs \<Longrightarrow> length (a @ s) \<le> offset h"
  shows "toBytes_loop (a @ s @ rest) (length a) hs
    = s @ toBytes_loop (a @ s @ rest) (length (a @ s)) hs"
proof (cases hs)
  case (Cons h hs')
  with assms [of h] have "length a + length s \<le> offset h" by simp
  then show ?thesis by (simp add: Cons)
qed simp

lemma written_append_str: "written w (append_str w b) b"
  by (rule writtenI [of _ _ b "[]"]) (simp_all add: append_str_def toBytes_loop_skip)

lemma written_refl: "written w w []"
  by (rule writtenI [of _ _ "[]" "[]"]) simp_all

lemma written_trans:
  assumes "written w w1 a" "written w1 w2 b"
  shows "written w w2 (a @ b)"
proof -
  from assms(1) obtain s hs where 1: "enc_str w1 = enc_str w @ s" "lheads w1 = lheads w @ hs"
      "length s + lhsize w1 = lhsize w + length a"
    and o1: "\<And>h. h \<in> set hs \<Longrightarrow> length (enc_str w) \<le> offset h"
    and f1: "\<And>rest hs'. (\<And>h. h \<in> set hs' \<Longrightarrow> length (enc_str w @ s) \<le> offset h) \<Longrightarrow>
      toBytes_loop (enc_str w @ s @ rest) (length (enc_str w)) (hs @ hs')
      = a @ toBytes_loop (enc_str w @ s @ rest) (length (enc_str w @ s)) hs'"
    by (rule writtenE) blast
  from assms(2) obtain t gs where 2: "enc_str w2 = enc_str w1 @ t" "lheads w2 = lheads w1 @ gs"
      "length t + lhsize w2 = lhsize w1 + length b"
    and o2: "\<And>h. h \<in> set gs \<Longrightarrow> length (enc_str w1) \<le> offset h"
    and f2: "\<And>rest hs'. (\<And>h. h \<in> set hs' \<Longrightarrow> length (enc_str w1 @ t) \<le> offset h) \<Longrightarrow>
      toBytes_loop (enc_str w1 @ t @ rest) (length (enc_str w1)) (gs @ hs')
      = b @ toBytes_loop (enc_str w1 @ t @ rest) (length (enc_str w1 @ t)) hs'"
    by (rule writtenE) blast
  show ?thesis
  proof (rule writtenI [of _ _ "s @ t" "hs @ gs"])
    fix rest :: "byte list" and hs' :: "listhead list"
    assume hs': "\<And>h. h \<in> set hs' \<Longrightarrow> length (enc_str w @ s @ t) \<le> offset h"
    have "toBytes_loop (enc_str w @ s @ t @ rest) (length (enc_str w)) (hs @ gs @ hs')
      = a @ toBytes_loop (enc_str w @ s @ t @ rest) (length (enc_str w @ s)) (gs @ hs')"
      by (rule f1) (use o2 hs' 1(1) in fastforce)
    also have "toBytes_loop (enc_str w @ s @ t @ rest) (length (enc_str w @ s)) (gs @ hs')
      = b @ toBytes_loop (enc_str w @ s @ t @ rest) (length (enc_str w @ s @ t)) hs'"
      using f2 [of hs' rest] hs' by (simp only: 1(1) append_assoc)
    finally show "toBytes_loop (enc_str w @ (s @ t) @ rest) (length (enc_str w)) ((hs @ gs) @ hs')
      = (a @ b) @ toBytes_loop (enc_str w @ (s @ t) @ rest) (length (enc_str w @ s @ t)) hs'"
      by (simp only: append_assoc)
  next
    show "h \<in> set (hs @ gs) \<Longrightarrow> length (enc_str w) \<le> offset h" for h
      using o1 [of h] o2 [of h] 1(1) by auto
  next
    show "enc_str w2 = enc_str w @ s @ t" using 1(1) 2(1) by simp
    show "lheads w2 = lheads w @ hs @ gs" using 1(2) 2(2) by simp
    show "length (s @ t) + lhsize w2 = lhsize w + length (a @ b)"
      using 1(3) 2(3) unfolding length_append by linarith
  qed
qed

lemma unat_u64: "n < 2 ^ 64 \<Longrightarrow> unat (of_nat n :: u64) = n"
  by (simp add: unat_of_nat)

lemma u64_neq_0: "n < 2 ^ 64 \<Longrightarrow> n \<noteq> 0 \<Longrightarrow> (of_nat n :: u64) \<noteq> 0"
  using unat_u64 [of n] by (metis unat_0)

lemma u64_less_56: "n < 2 ^ 64 \<Longrightarrow> (of_nat n :: u64) < 56 \<longleftrightarrow> n < 56"
  using word_less_nat [of 56 "of_nat n"] unat_u64 [of n] by simp

lemma intsize_u64: "n < 2 ^ 64 \<Longrightarrow> n \<noteq> 0 \<Longrightarrow> intsize (of_nat n) = length (nat_bytes n)"
  using intsize_nat_bytes [OF u64_neq_0, of n] by (simp add: unat_u64)

lemma putint_u64: "n < 2 ^ 64 \<Longrightarrow> n \<noteq> 0 \<Longrightarrow> putint (of_nat n) = nat_bytes n"
  using putint_nat_bytes [OF u64_neq_0, of n] by (simp add: unat_u64)

lemma puthead_spec:
  assumes "n < 2 ^ 64"
  shows "puthead a b (of_nat n) = spec_head a b n"
proof (cases "n < 56")
  case True
  have "(ucast (of_nat n :: u64) :: byte) = of_nat n"
    by (simp only: of_nat_unat_byte unat_u64 [OF assms])
  with True show ?thesis
    by (simp only: puthead_def spec_head_def u64_less_56 [OF assms] if_True)
next
  case False
  then show ?thesis
    by (simp add: puthead_def spec_head_def u64_less_56 [OF assms] putint_u64 [OF assms])
qed

lemma written_list:
  assumes "write_elems vs (snd (encbuf_list w)) = Inr w2"
    and "written (snd (encbuf_list w)) w2 out" "length out < 2 ^ 64"
  shows "written w (listEnd w2 (fst (encbuf_list w))) (spec_list out)"
proof -
  let ?w1 = "snd (encbuf_list w)" and ?lh = "length (lheads w)"
  let ?h = "\<lparr>offset = length (enc_str w), lsize = length out\<rparr>"
  from assms(2) obtain s hs where 1: "enc_str w2 = enc_str ?w1 @ s" "lheads w2 = lheads ?w1 @ hs"
      "length s + lhsize w2 = lhsize ?w1 + length out"
    and o: "\<And>h. h \<in> set hs \<Longrightarrow> length (enc_str ?w1) \<le> offset h"
    and f: "\<And>rest hs'. (\<And>h. h \<in> set hs' \<Longrightarrow> length (enc_str ?w1 @ s) \<le> offset h) \<Longrightarrow>
      toBytes_loop (enc_str ?w1 @ s @ rest) (length (enc_str ?w1)) (hs @ hs')
      = out @ toBytes_loop (enc_str ?w1 @ s @ rest) (length (enc_str ?w1 @ s)) hs'"
    by (rule writtenE) blast
  have w1: "enc_str ?w1 = enc_str w" "lhsize ?w1 = lhsize w"
    "lheads ?w1 = lheads w @ [\<lparr>offset = length (enc_str w), lsize = lhsize w\<rparr>]"
    by (simp_all add: encbuf_list_def)
  have sz: "encbuf_size w2 = length (enc_str w) + lhsize w + length out"
    using 1 w1 by (simp add: encbuf_size_def)
  have i: "\<not> length out < 56 \<Longrightarrow> intsize (of_nat (length out)) = length (nat_bytes (length out))"
    by (rule intsize_u64 [OF assms(3)]) linarith
  have e: "listEnd w2 ?lh = w2\<lparr>lheads := lheads w @ ?h # hs,
      lhsize := lhsize w2 + length (spec_head 0xC0 0xF7 (length out))\<rparr>"
    using 1(2) w1(3)
    by (cases "length out < 56") (auto simp: listEnd_def sz Let_def spec_head_def i)
  have fst_list: "fst (encbuf_list w) = ?lh" by (simp add: encbuf_list_def)
  have h: "listhead_encode ?h = spec_head 0xC0 0xF7 (length out)"
    using assms(3) by (simp add: listhead_encode_def puthead_spec)
  show ?thesis
  proof (rule writtenI [of _ _ s "?h # hs"])
    fix rest :: "byte list" and hs' :: "listhead list"
    assume "\<And>h. h \<in> set hs' \<Longrightarrow> length (enc_str w @ s) \<le> offset h"
    with f [of hs' rest]
    show "toBytes_loop (enc_str w @ s @ rest) (length (enc_str w)) ((?h # hs) @ hs')
      = spec_list out @ toBytes_loop (enc_str w @ s @ rest) (length (enc_str w @ s)) hs'"
      by (simp add: w1 h spec_list_def)
  next
    show "h \<in> set (?h # hs) \<Longrightarrow> length (enc_str w) \<le> offset h" for h
      using o [of h] w1 by auto
  next
    show "enc_str (listEnd w2 (fst (encbuf_list w))) = enc_str w @ s"
      "lheads (listEnd w2 (fst (encbuf_list w))) = lheads w @ ?h # hs"
      using 1(1) w1(1) by (simp_all add: fst_list e)
    show "length s + lhsize (listEnd w2 (fst (encbuf_list w))) = lhsize w + length (spec_list out)"
      using 1(3) w1(2) by (simp add: fst_list e spec_list_def)
  qed
qed

lemma written_encodeString:
  assumes "length b < 2 ^ 64"
  shows "written w (encodeString w b) (spec_string b)"
proof (cases "length b = 1 \<and> hd b \<le> 0x7F")
  case True
  then have "b = [hd b]" by (cases b) auto
  with True written_append_str [of w b] show ?thesis
    by (simp add: encodeString_def spec_string_def word_le_nat_alt)
next
  case False
  then have "\<not> (length b = 1 \<and> unat (hd b) < 128)" by (auto simp: word_le_nat_alt)
  moreover have "encodeStringHeader w (length b) = append_str w (spec_head 0x80 0xB7 (length b))"
    using putint_u64 [OF assms]
    by (cases "length b < 56") (simp_all add: encodeStringHeader_def spec_head_def del: length_0_conv)
  ultimately show ?thesis
    using False written_trans [OF written_append_str written_append_str]
    unfolding encodeString_def spec_string_def by auto
qed

lemma spec_head_neq_Nil [simp]: "spec_head a b n \<noteq> []" "[] \<noteq> spec_head a b n"
  by (simp_all add: spec_head_def)

lemma length_spec_head: "0 < length (spec_head a b n)"
  by simp

lemma length_spec_string: "length b \<le> length (spec_string b)"
  by (simp add: spec_string_def)

lemma length_spec_list: "length b < length (spec_list b)"
  using length_spec_head by (simp add: spec_list_def)

lemma written_writeUint: "written w (writeUint i w) (spec_string (nat_bytes (unat i)))"
proof -
  let ?n = "unat i"
  have n: "?n < 256 ^ 8" using unsigned_less [of i] by simp
  have lt: "i < 128 \<longleftrightarrow> ?n < 128" using word_less_nat [of 128 i] by simp
  consider "i = 0" | "i \<noteq> 0" "?n < 128" | "128 \<le> ?n" by linarith
  then show ?thesis
  proof cases
    case 1
    with written_append_str [of w "[0x80]"] show ?thesis
      by (simp add: writeUint_def spec_string_def spec_head_def)
  next
    case 2
    then have "0 < ?n" by (simp add: unat_gt_0)
    with 2 have b: "nat_bytes ?n = [ucast i]" and "unat (ucast i :: byte) = ?n"
      unfolding of_nat_unat_byte by (simp add: nat_bytes.simps [of ?n], simp only: unat_of_nat, simp)
    with 2 lt written_append_str [of w "[ucast i]"] show ?thesis
      by (simp add: writeUint_def spec_string_def)
  next
    case 3
    have l: "length (nat_bytes ?n) \<le> 8" by (rule length_nat_bytes [OF n])
    have "\<not> (length (nat_bytes ?n) = 1 \<and> unat (hd (nat_bytes ?n)) < 128)"
    proof
      assume a: "length (nat_bytes ?n) = 1 \<and> unat (hd (nat_bytes ?n)) < 128"
      then have "be_value (nat_bytes ?n) < 128" by (cases "nat_bytes ?n") auto
      with 3 show False by simp
    qed
    moreover have "i \<noteq> 0" using 3 by auto
    moreover note written_append_str [of w "(0x80 + of_nat (length (nat_bytes ?n))) # nat_bytes ?n"]
    ultimately show ?thesis
      using 3 lt l by (auto simp: writeUint_def spec_string_def spec_head_def putint_nat_bytes)
  qed
qed

lemma written_writeBigInt:
  assumes "0 \<le> i" "length (spec_string (nat_bytes (nat i))) < 2 ^ 64"
  shows "\<exists>w'. writeBigInt i w = Inr w' \<and> written w w' (spec_string (nat_bytes (nat i)))"
proof (cases "i = 0")
  case True
  with written_append_str [of w "[0x80]"] show ?thesis
    by (simp add: writeBigInt_def spec_string_def spec_head_def)
next
  case False
  have "length (nat_bytes (nat i)) < 2 ^ 64"
    using length_spec_string assms(2) by (rule le_less_trans)
  with False assms(1) written_encodeString show ?thesis by (simp add: writeBigInt_def)
qed

lemma write_value_spec:
  "(\<And>out. rlp_spec v = Inr out \<Longrightarrow> length out < 2 ^ 64 \<Longrightarrow>
      \<exists>w'. write_value v w = Inr w' \<and> written w w' out)"
  "(\<And>out. rlp_specs vs = Inr out \<Longrightarrow> length out < 2 ^ 64 \<Longrightarrow>
      \<exists>w'. write_elems vs w = Inr w' \<and> written w w' out)"
proof (induction v and vs arbitrary: w and w rule: rlp_spec_rlp_specs.induct)
  case (8 vs)
  from "8.prems"(1) obtain content where c: "rlp_specs vs = Inr content" "out = spec_list content"
    by (auto split: sum.splits)
  then have "length content < 2 ^ 64" using length_spec_list [of content] "8.prems"(2) by simp
  from "8.IH" [OF c(1) this, of "snd (encbuf_list w)"] obtain w2 where
    w2: "write_elems vs (snd (encbuf_list w)) = Inr w2" "written (snd (encbuf_list w)) w2 content"
    by blast
  from written_list [OF w2 \<open>length content < 2 ^ 64\<close>] w2(1) show ?case
    by (simp add: c(2) split_def)
next
  case (11 v vs)
  from "11.prems"(1) obtain b bs where c: "rlp_spec v = Inr b" "rlp_specs vs = Inr bs" "out = b @ bs"
    by (auto split: sum.splits)
  with "11.prems"(2) have l: "length b < 2 ^ 64" "length bs < 2 ^ 64" by simp_all
  from "11.IH"(1) [OF c(1) l(1)] obtain w1 where w1: "write_value v w = Inr w1" "written w w1 b"
    by blast
  from "11.IH"(2) [OF c(1) c(2) l(2)] obtain w2 where w2: "write_elems vs w1 = Inr w2" "written w1 w2 bs"
    by blast
  from written_trans [OF w1(2) w2(2)] w1(1) w2(1) show ?case by (simp add: c(3))
next
  case (6 b)
  then have "length b < 2 ^ 64" using length_spec_string [of b] by simp
  with 6 written_encodeString show ?case by (auto simp: writeBytes_def)
next
  case (5 i)
  then show ?case using written_writeBigInt [of i w] by (auto simp: writeBigIntPtr_def split: if_splits)
next
  case (2 i)
  then show ?case using written_writeUint by auto
next
  case 10
  then show ?case by (auto intro: written_refl)
qed (auto simp: writeRawValue_def writeBool_def writeBigIntPtr_def spec_string_def spec_list_def
    spec_head_def intro: written_append_str)

lemma write_value_error:
  "(case rlp_spec v of Inl e \<Rightarrow> write_value v w = Inl e | Inr out \<Rightarrow> \<exists>w'. write_value v w = Inr w')"
  "(case rlp_specs vs of Inl e \<Rightarrow> write_elems vs w = Inl e
    | Inr out \<Rightarrow> \<exists>w'. write_elems vs w = Inr w')"
proof (induction v and vs arbitrary: w and w rule: rlp_spec_rlp_specs.induct)
  case (8 vs)
  from "8.IH" [of "snd (encbuf_list w)"] show ?case by (auto simp: split_def split: sum.splits)
next
  case (11 v vs)
  show ?case
  proof (cases "rlp_spec v")
    case (Inl e)
    with "11.IH"(1) [of w] show ?thesis by simp
  next
    case (Inr b)
    with "11.IH"(1) [of w] obtain w1 where "write_value v w = Inr w1" by auto
    with "11.IH"(2) [OF Inr, of w1] Inr show ?thesis by (simp split: sum.splits)
  qed
qed (auto simp: writeBigIntPtr_def writeBigInt_def)

lemma EncodeToBytes_Inr:
  assumes "rlp_spec v = Inr out" "length out < 2 ^ 64"
  shows "EncodeToBytes v = Inr out"
proof -
  from write_value_spec(1) [OF assms, of empty_encbuf] obtain w' where
    w': "write_value v empty_encbuf = Inr w'" "written empty_encbuf w' out" by blast
  from w'(2) obtain s hs where "enc_str w' = s" "lheads w' = hs" "toBytes_loop s 0 hs = out"
    "encbuf_size w' = length out"
    unfolding written_def empty_encbuf_def encbuf_size_def by (fastforce dest: spec [of _ "[]"])
  with w'(1) show ?thesis by (simp add: EncodeToBytes_def toBytes_def)
qed

text \<open>C2: The buffered encoder, which keeps list headers apart from the string data and merges the two
  at the end, writes exactly the encoding of the RLP specification for every value whose encoding
  fits in 64 bits, and reports an error exactly for the values that have none. Booleans are among the
  values it encodes, as the integers 1 and 0, although the comment at \<open>Encode\<close> says they are not supported.\<close>

theorem EncodeToBytes_spec:
  assumes "\<And>out. rlp_spec v = Inr out \<Longrightarrow> length out < 2 ^ 64"
  shows "EncodeToBytes v = rlp_spec v"
proof (cases "rlp_spec v")
  case (Inl e)
  with write_value_error(1) [of v empty_encbuf] show ?thesis by (simp add: EncodeToBytes_def)
next
  case (Inr out)
  with EncodeToBytes_Inr [OF Inr assms] show ?thesis by simp
qed

theorem EncodeToBytes_spec_witness:
  "EncodeToBytes (VList [VUint 1024, VBytes [65, 66], VList []])
    = rlp_spec (VList [VUint 1024, VBytes [65, 66], VList []])"
  by (rule EncodeToBytes_spec)
    (simp add: spec_string_def spec_list_def spec_head_def nat_bytes.simps [of 1024] nat_bytes.simps [of 4])

end
