(* ===== verification/Candidate_Selection.thy ===== *)
theory Candidate_Selection
  imports Chain_Params Rlp
begin

text \<open>
  Drawing the ranks of the block creators, \<open>berith/selection\<close>: the candidates and the drawing used
  from fork BIP3 on (\<open>candidates.go\<close>).

  The pseudo-random generator of \<open>math/rand\<close> is the parameter \<open>int63n\<close>: the state and the bound
  give the number and the next state. \<open>rand_ok\<close> is what the package documents of \<open>Int63n\<close>. The hash
  of the seed is the parameter \<open>sha256\<close>. A search that loops forever is \<open>None\<close>, a panic \<open>Some (Inl _)\<close>.
\<close>

record Candidate =
  caddress :: address
  cpoint :: u64
  cval :: u64

record Candidates =
  selections :: "Candidate list"
  ctotal :: u64
  ts :: u64

record VoteResult =
  Score :: int
  Rank :: int

type_synonym VoteResults = "address \<rightharpoonup> VoteResult"

definition MaxMiner :: int where "MaxMiner = 10000"
definition maxElectScore :: int where "maxElectScore = 5000000"
definition minElectScore :: int where "minElectScore = 10000"

definition NewCandidates :: Candidates where
  "NewCandidates = \<lparr>selections = [], ctotal = 0, ts = 0\<rparr>"

definition Candidates_Add :: "Candidates \<Rightarrow> Candidate \<Rightarrow> Candidates" where
  "Candidates_Add cs c =
     (let t = ctotal cs + cpoint c in
      cs\<lparr>ctotal := t, selections := selections cs @ [c\<lparr>cval := t\<rparr>]\<rparr>)"

text \<open>The seed: up to fork BIP2 only the low byte of the block number is hashed.\<close>

definition GetSeed :: "(byte list \<Rightarrow> byte list) \<Rightarrow> ChainConfig \<Rightarrow> u64 \<Rightarrow> int" where
  "GetSeed sha256 config number =
     (let bt = (if IsBIP2 config (Some (uint number)) then nat_bytes (unat number) else [ucast number])
      in big_Int64 (int (be_value (sha256 bt))))"

type_synonym 'g generator = "'g \<Rightarrow> int \<Rightarrow> int \<times> 'g"

definition rand_ok :: "'g generator \<Rightarrow> bool" where
  "rand_ok int63n \<longleftrightarrow> (\<forall>g n. 0 < n \<longrightarrow> 0 \<le> fst (int63n g n) \<and> fst (int63n g n) < n)"

definition rand_Int63n :: "'g generator \<Rightarrow> 'g \<Rightarrow> int \<Rightarrow> (int \<times> 'g) run" where
  "rand_Int63n int63n g n =
     (if n \<le> 0 then Inl (Panicked ''invalid argument to Int63n'') else Inr (int63n g n))"

subsection \<open>The drawing from BIP3 on\<close>

text \<open>Go's integer division truncates towards zero.\<close>

definition go_div2 :: "int \<Rightarrow> int" where
  "go_div2 x = (if x < 0 then - ((- x) div 2) else x div 2)"

partial_function (option) bip3_search ::
  "Candidate list \<Rightarrow> u64 \<Rightarrow> int \<Rightarrow> int \<Rightarrow> nat run option" where
  "bip3_search sel electedNumber start end =
     (let mid = go_div2 (start + end) in
      if mid < 0 \<or> int (length sel) \<le> mid then Some (Inl IndexOutOfRange)
      else
        (let startElectRange = (if 0 < mid then cval (sel ! nat (mid - 1)) else 0);
             endElectRange = cval (sel ! nat mid) in
         if startElectRange \<le> electedNumber \<and> electedNumber \<le> endElectRange
         then Some (Inr (nat mid))
         else bip3_search sel electedNumber
                (if endElectRange < electedNumber then mid + 1 else start)
                (if electedNumber < startElectRange then mid - 1 else end)))"

declare bip3_search.simps [code]

function shift_loop :: "u64 \<Rightarrow> nat \<Rightarrow> Candidate list \<Rightarrow> Candidate list" where
  "shift_loop out_point i sel =
     (if i + 1 < length sel then
        (let newCddt = sel ! (i + 1) in
         shift_loop out_point (i + 1) (sel[i := newCddt\<lparr>cval := cval newCddt - out_point\<rparr>]))
      else sel)"
  by pat_completeness auto
termination by (relation "measure (\<lambda>(p, i, sel). length sel - i)") auto

declare shift_loop.simps [simp del]

lemma length_shift_loop [simp]: "length (shift_loop p i sel) = length sel"
proof (induction p i sel rule: shift_loop.induct)
  case (1 p i sel)
  then show ?case by (subst shift_loop.simps) (simp add: Let_def)
qed

function bip3_loop ::
  "'g generator \<Rightarrow> 'g \<Rightarrow> Candidate list \<Rightarrow> u64 \<Rightarrow> int \<Rightarrow> int \<Rightarrow> int \<Rightarrow> VoteResults
    \<Rightarrow> VoteResults run option" where
  "bip3_loop int63n g sel tot score gap rank result =
     (if sel = [] then Some (Inr result)
      else
        (case rand_Int63n int63n g (sint tot) of
           Inl p \<Rightarrow> Some (Inl p)
         | Inr (r, g') \<Rightarrow>
             (case bip3_search sel (word_of_int r) 0 (int (length sel) - 1) of
                None \<Rightarrow> None
              | Some (Inl p) \<Rightarrow> Some (Inl p)
              | Some (Inr chosen) \<Rightarrow>
                  (let out = sel ! chosen in
                   bip3_loop int63n g' (butlast (shift_loop (cpoint out) chosen sel))
                     (tot - cpoint out) (score - gap) gap (rank + 1)
                     (result(caddress out \<mapsto> \<lparr>Score = score, Rank = rank\<rparr>))))))"
  by pat_completeness auto
termination
  by (relation "measure (\<lambda>(_, _, sel, _). length sel)") auto

declare bip3_loop.simps [simp del]

definition selectBIP3BlockCreator ::
  "'g generator \<Rightarrow> (int \<Rightarrow> 'g) \<Rightarrow> (byte list \<Rightarrow> byte list) \<Rightarrow> Candidates \<Rightarrow> ChainConfig \<Rightarrow> u64
    \<Rightarrow> VoteResults run option" where
  "selectBIP3BlockCreator int63n seed sha256 cs config number =
     (if selections cs = [] then Some (Inl DivideByZero)
      else
        bip3_loop int63n (seed (GetSeed sha256 config number)) (selections cs) (ctotal cs)
          maxElectScore ((maxElectScore - minElectScore) div int (length (selections cs))) 1 Map.empty)"

subsection \<open>Prefix sums of the points\<close>

text \<open>\<open>points_below sel i\<close> is the sum of the points of the first \<open>i\<close> candidates. In the lists the
  code builds, \<open>val\<close> is the sum up to and including the candidate.\<close>

definition points_below :: "Candidate list \<Rightarrow> nat \<Rightarrow> nat" where
  "points_below sel i = sum_list (map (\<lambda>c. unat (cpoint c)) (take i sel))"

definition prefix_sums :: "Candidate list \<Rightarrow> u64 \<Rightarrow> bool" where
  "prefix_sums sel tot \<longleftrightarrow>
     (\<forall>i<length sel. unat (cval (sel ! i)) = points_below sel (Suc i))
     \<and> unat tot = points_below sel (length sel) \<and> unat tot < 2 ^ 63"

lemma points_below_0 [simp]: "points_below sel 0 = 0"
  by (simp add: points_below_def)

lemma points_below_Suc:
  "i < length sel \<Longrightarrow> points_below sel (Suc i) = points_below sel i + unat (cpoint (sel ! i))"
  by (simp add: points_below_def take_Suc_conv_app_nth)

lemma points_below_mono: "i \<le> j \<Longrightarrow> points_below sel i \<le> points_below sel j"
proof (induction j)
  case (Suc j)
  then show ?case
    by (cases "i = Suc j"; cases "j < length sel") (auto simp: points_below_Suc, simp add: points_below_def)
qed simp

lemma points_below_append: "points_below (xs @ ys) (length xs + i) = points_below xs (length xs) + points_below ys i"
  by (simp add: points_below_def)

lemma unat_word_of_int_u64: "0 \<le> r \<Longrightarrow> r < 2 ^ 64 \<Longrightarrow> unat (word_of_int r :: u64) = nat r"
  by (simp add: unat_eq_nat_uint uint_word_of_int)

lemma int_unat_u64: "int (unat (w :: u64)) = uint w"
  by simp

lemma sint_u64:
  assumes "unat (w :: u64) < 2 ^ 63"
  shows "sint w = int (unat w)"
proof -
  from assms have "int (unat w) < int (2 ^ 63)" by (simp only: of_nat_less_iff)
  then have "uint w < 2 ^ 63" unfolding int_unat_u64 by simp
  moreover have "- (2 ^ 63) \<le> uint w" by (rule order_trans [OF _ uint_ge_0]) simp
  ultimately show ?thesis
    unfolding int_unat_u64 by (subst sint_uint, intro signed_take_bit_int_eq_self) simp_all
qed

subsection \<open>The search finds a candidate\<close>

lemma go_div2_nat: "0 \<le> x \<Longrightarrow> go_div2 x = x div 2"
  by (simp add: go_div2_def)

lemma bip3_search_finds:
  assumes "prefix_sums sel tot"
    and "s \<le> e" "e < length sel" "points_below sel s \<le> unat en" "unat en \<le> points_below sel (Suc e)"
  shows "\<exists>k<length sel. bip3_search sel en (int s) (int e) = Some (Inr k)"
  using assms(2-)
proof (induction "e - s" arbitrary: s e rule: less_induct)
  case less
  define mid where "mid = (s + e) div 2"
  have mid: "s \<le> mid" "mid \<le> e" "mid < length sel" using less.prems by (auto simp: mid_def)
  have g: "go_div2 (int s + int e) = int mid" by (simp add: go_div2_nat mid_def)
  define lower where "lower = (if 0 < int mid then cval (sel ! nat (int mid - 1)) else 0)"
  have lo: "lower \<le> en \<longleftrightarrow> points_below sel mid \<le> unat en"
  proof (cases mid)
    case (Suc m)
    have "unat (cval (sel ! m)) = points_below sel (Suc m)"
      using assms(1) mid(3) Suc by (simp add: prefix_sums_def)
    moreover have "nat (int mid - 1) = m" using Suc by simp
    ultimately show ?thesis using Suc by (simp add: lower_def word_le_nat_alt)
  qed (simp add: lower_def)
  have hi: "en \<le> cval (sel ! mid) \<longleftrightarrow> unat en \<le> points_below sel (Suc mid)"
    using assms(1) mid(3) by (simp add: prefix_sums_def word_le_nat_alt)
  have mono: "points_below sel mid \<le> points_below sel (Suc mid)" by (rule points_below_mono) simp
  have range: "(int mid < 0 \<or> int (length sel) \<le> int mid) = False" using mid(3) by simp
  have "bip3_search sel en (int s) (int e) =
      (if lower \<le> en \<and> en \<le> cval (sel ! mid) then Some (Inr mid)
       else bip3_search sel en (if cval (sel ! mid) < en then int mid + 1 else int s)
              (if en < lower then int mid - 1 else int e))"
    by (subst bip3_search.simps) (simp only: g Let_def range if_False nat_int lower_def)
  note step = this [folded not_le, unfolded lo hi]
  consider "points_below sel mid \<le> unat en" "unat en \<le> points_below sel (Suc mid)"
    | "\<not> points_below sel mid \<le> unat en" "unat en \<le> points_below sel (Suc mid)"
    | "points_below sel mid \<le> unat en" "\<not> unat en \<le> points_below sel (Suc mid)" using mono by linarith
  then show ?case
  proof cases
    case 1
    then show ?thesis using mid(3) unfolding step by auto
  next
    case 2
    have "s \<noteq> mid" using 2 less.prems(3) by auto
    then obtain m where m: "mid = Suc m" "s \<le> m" using mid(1) by (cases mid) auto
    have "\<exists>k<length sel. bip3_search sel en (int s) (int m) = Some (Inr k)"
      using less.prems(3) mid 2 m by (intro less.hyps) auto
    then show ?thesis unfolding step using 2 m by simp
  next
    case 3
    have "mid \<noteq> e" using 3 less.prems(4) by auto
    then have "Suc mid \<le> e" using mid(2) by simp
    then have "\<exists>k<length sel. bip3_search sel en (int (Suc mid)) (int e) = Some (Inr k)"
      using less.prems(2,4) mid 3 by (intro less.hyps) auto
    then show ?thesis unfolding step using 3 by (simp add: add.commute)
  qed
qed

subsection \<open>Taking the drawn candidate out\<close>

definition lower_val :: "u64 \<Rightarrow> Candidate \<Rightarrow> Candidate" where
  "lower_val p c = c\<lparr>cval := cval c - p\<rparr>"

definition take_out :: "nat \<Rightarrow> Candidate list \<Rightarrow> Candidate list" where
  "take_out k sel = take k sel @ map (lower_val (cpoint (sel ! k))) (drop (Suc k) sel)"

lemma butlast_shift_loop:
  "i < length sel \<Longrightarrow> butlast (shift_loop p i sel) = take i sel @ map (lower_val p) (drop (Suc i) sel)"
proof (induction p i sel rule: shift_loop.induct)
  case (1 p i sel)
  show ?case
  proof (cases "i + 1 < length sel")
    case True
    let ?sel = "sel[i := lower_val p (sel ! (i + 1))]"
    have "butlast (shift_loop p i sel) = butlast (shift_loop p (i + 1) ?sel)"
      using True by (subst shift_loop.simps) (simp add: lower_val_def Let_def)
    also have "\<dots> = take (i + 1) ?sel @ map (lower_val p) (drop (Suc (i + 1)) ?sel)"
      using "1.IH" [OF True refl] True by (simp add: lower_val_def)
    also have "take (i + 1) ?sel = take i sel @ [lower_val p (sel ! (i + 1))]"
      using True by (simp add: take_Suc_conv_app_nth)
    also have "drop (Suc (i + 1)) ?sel = drop (Suc (i + 1)) sel" by simp
    finally show ?thesis
      using True by (simp add: Cons_nth_drop_Suc [symmetric])
  next
    case False
    with "1.prems" show ?thesis
      by (subst shift_loop.simps) (auto simp: butlast_conv_take intro: arg_cong [of _ _ "\<lambda>n. take n sel"])
  qed
qed

lemma take_out_simps:
  assumes "k < length sel"
  shows "length (take_out k sel) = length sel - 1"
    and "map caddress sel = take k (map caddress sel) @ caddress (sel ! k) # drop (Suc k) (map caddress sel)"
    and "map caddress (take_out k sel) = take k (map caddress sel) @ drop (Suc k) (map caddress sel)"
    and "map cpoint (take_out k sel) = take k (map cpoint sel) @ drop (Suc k) (map cpoint sel)"
proof -
  show "length (take_out k sel) = length sel - 1" using assms by (simp add: take_out_def)
  show "map caddress sel = take k (map caddress sel) @ caddress (sel ! k) # drop (Suc k) (map caddress sel)"
    using assms id_take_nth_drop [of k "map caddress sel"] by simp
  show "map caddress (take_out k sel) = take k (map caddress sel) @ drop (Suc k) (map caddress sel)"
    "map cpoint (take_out k sel) = take k (map cpoint sel) @ drop (Suc k) (map cpoint sel)"
    by (simp_all add: take_out_def lower_val_def take_map drop_map comp_def)
qed

lemma points_below_take_out:
  assumes "k < length sel"
  shows "i \<le> k \<Longrightarrow> points_below (take_out k sel) i = points_below sel i"
    and "k \<le> i \<Longrightarrow> points_below (take_out k sel) i + unat (cpoint (sel ! k)) = points_below sel (Suc i)"
proof -
  have pb: "points_below xs i = sum_list (map unat (take i (map cpoint xs)))" for xs i
    by (simp add: points_below_def take_map comp_def)
  let ?ps = "map cpoint sel"
  have split: "?ps = take k ?ps @ cpoint (sel ! k) # drop (Suc k) ?ps"
    using assms id_take_nth_drop [of k ?ps] by simp
  show "i \<le> k \<Longrightarrow> points_below (take_out k sel) i = points_below sel i"
    using assms by (simp add: pb take_out_simps(4))
  assume "k \<le> i"
  then obtain j where i: "i = k + j" by (auto simp: le_iff_add)
  have "take (Suc i) ?ps = take k ?ps @ cpoint (sel ! k) # take j (drop (Suc k) ?ps)"
    using assms by (subst split) (simp add: i)
  moreover have "take i (map cpoint (take_out k sel)) = take k ?ps @ take j (drop (Suc k) ?ps)"
    using assms by (simp add: take_out_simps(4) i)
  ultimately show "points_below (take_out k sel) i + unat (cpoint (sel ! k)) = points_below sel (Suc i)"
    by (simp add: pb)
qed

lemma unat_minus_u64: "unat (b :: u64) \<le> unat a \<Longrightarrow> unat (a - b) = unat a - unat b"
  by (simp add: unat_sub word_le_nat_alt)

lemma prefix_sums_take_out:
  assumes "prefix_sums sel tot" "k < length sel"
  shows "prefix_sums (take_out k sel) (tot - cpoint (sel ! k))"
proof -
  let ?p = "cpoint (sel ! k)"
  have tot: "unat tot = points_below sel (length sel)" "unat tot < 2 ^ 63"
    and val: "\<And>i. i < length sel \<Longrightarrow> unat (cval (sel ! i)) = points_below sel (Suc i)"
    using assms(1) by (auto simp: prefix_sums_def)
  have pk: "unat ?p \<le> points_below sel (Suc i)" if "k \<le> i" for i
    using points_below_take_out(2) [OF assms(2) that] by linarith
  have "unat (cval (take_out k sel ! i)) = points_below (take_out k sel) (Suc i)"
    if i: "i < length (take_out k sel)" for i
  proof (cases "i < k")
    case True
    with assms(2) have "take_out k sel ! i = sel ! i" by (simp add: take_out_def nth_append)
    with True assms(2) val points_below_take_out(1) show ?thesis by simp
  next
    case False
    with i assms(2) have "take_out k sel ! i = lower_val ?p (sel ! Suc i)"
      by (simp add: take_out_def nth_append)
    moreover have "Suc i < length sel" using i assms(2) take_out_simps(1) by simp
    ultimately have "unat (cval (take_out k sel ! i)) = points_below sel (Suc (Suc i)) - unat ?p"
      using val pk [of "Suc i"] False by (simp add: lower_val_def unat_minus_u64)
    then show ?thesis using points_below_take_out(2) [OF assms(2), of "Suc i"] False by simp
  qed
  moreover obtain m where m: "length sel = Suc m" "k \<le> m" using assms(2) by (cases "length sel") auto
  then have "unat (tot - ?p) = points_below (take_out k sel) (length (take_out k sel))"
    using tot(1) pk [OF m(2)] points_below_take_out(2) [OF assms(2) m(2)] take_out_simps(1) [OF assms(2)]
    by (simp add: unat_minus_u64)
  moreover have "unat (tot - ?p) < 2 ^ 63"
    using tot m pk [OF m(2)] by (simp add: unat_minus_u64)
  ultimately show ?thesis unfolding prefix_sums_def by blast
qed

subsection \<open>Every candidate is ranked\<close>

text \<open>\<open>ranking ord score gap rank result\<close>: the map gives the addresses of \<open>ord\<close> consecutive ranks and
  falling scores, in that order.\<close>

definition ranking :: "address list \<Rightarrow> int \<Rightarrow> int \<Rightarrow> int \<Rightarrow> VoteResults \<Rightarrow> bool" where
  "ranking ord score gap rank result \<longleftrightarrow> distinct ord \<and>
     (\<forall>k<length ord. result (ord ! k) = Some \<lparr>Score = score - int k * gap, Rank = rank + int k\<rparr>)"

lemma ranking_dom: "ranking ord score gap rank result \<Longrightarrow> set ord \<subseteq> dom result"
  by (auto simp: ranking_def in_set_conv_nth)

lemma rankingI_Cons:
  assumes "ranking ord (score - gap) gap (rank + 1) result" "a \<notin> set ord"
    and "result a = Some \<lparr>Score = score, Rank = rank\<rparr>"
  shows "ranking (a # ord) score gap rank result"
  unfolding ranking_def
proof (intro conjI allI impI)
  show "distinct (a # ord)" using assms by (simp add: ranking_def)
  fix k assume "k < length (a # ord)"
  with assms show "result ((a # ord) ! k) = Some \<lparr>Score = score - int k * gap, Rank = rank + int k\<rparr>"
    by (cases k) (auto simp: ranking_def algebra_simps)
qed

lemma bip3_loop_ranks:
  assumes "rand_ok int63n" "prefix_sums sel tot" "\<forall>c\<in>set sel. cpoint c \<noteq> 0" "distinct (map caddress sel)"
  shows "\<exists>result' ord. bip3_loop int63n g sel tot score gap rank result = Some (Inr result')
    \<and> set ord = caddress ` set sel \<and> ranking ord score gap rank result'
    \<and> (\<forall>a. a \<notin> caddress ` set sel \<longrightarrow> result' a = result a)"
  using assms(2-)
proof (induction "length sel" arbitrary: sel tot g score rank result)
  case 0
  then show ?case by (subst bip3_loop.simps) (auto simp: ranking_def intro: exI [of _ "[]"])
next
  case (Suc n)
  then have ne: "sel \<noteq> []" and n: "length sel = Suc n" by auto
  have "0 < unat (cpoint (sel ! 0))" using Suc.prems(2) ne by (simp add: unat_gt_0)
  then have "0 < points_below sel (Suc 0)" using ne by (simp add: points_below_Suc)
  then have pos: "0 < points_below sel (length sel)"
    using points_below_mono [of "Suc 0" "length sel" sel] n by simp
  have tot: "unat tot = points_below sel (length sel)" "unat tot < 2 ^ 63"
    using Suc.prems(1) by (auto simp: prefix_sums_def)
  have st: "sint tot = int (unat tot)" by (rule sint_u64 [OF tot(2)])
  obtain r g' where rg: "int63n g (sint tot) = (r, g')" by force
  then have r: "0 \<le> r" "r < int (unat tot)"
    using assms(1) pos tot(1) st unfolding rand_ok_def by (metis fst_conv of_nat_0_less_iff)+
  have "int (unat tot) < int (2 ^ 63)" using tot(2) by (simp only: of_nat_less_iff)
  then have "r < 2 ^ 64" using r(2) by simp
  with r(1) have "unat (word_of_int r :: u64) = nat r" by (rule unat_word_of_int_u64)
  then have "unat (word_of_int r :: u64) \<le> points_below sel (length sel)"
    using r unfolding tot(1) [symmetric] by linarith
  then have "\<exists>k<length sel. bip3_search sel (word_of_int r) 0 (int n) = Some (Inr k)"
    using bip3_search_finds [OF Suc.prems(1) le0, where e = n and en = "word_of_int r"] n
    by (simp only: n of_nat_0 points_below_0) simp
  moreover have "int (length sel) - 1 = int n" using n by simp
  ultimately obtain k where k: "k < length sel"
    "bip3_search sel (word_of_int r) 0 (int (length sel) - 1) = Some (Inr k)"
    by metis
  let ?a = "caddress (sel ! k)" and ?p = "cpoint (sel ! k)"
  let ?v = "\<lparr>Score = score, Rank = rank\<rparr>"
  obtain xs ys where xs: "map caddress sel = xs @ ?a # ys" "map caddress (take_out k sel) = xs @ ys"
    using take_out_simps(2,3) [OF k(1)] by blast
  have mem: "caddress ` set sel = insert ?a (caddress ` set (take_out k sel))"
    using xs by (metis list.set(2) list.set_map set_append Un_insert_right)
  have dist: "distinct (map caddress (take_out k sel))" "?a \<notin> caddress ` set (take_out k sel)"
    using Suc.prems(3) xs by (simp_all flip: set_map)
  have "\<forall>c\<in>set (take_out k sel). cpoint c \<noteq> 0"
    using Suc.prems(2) by (auto simp: take_out_def lower_val_def dest: in_set_takeD in_set_dropD)
  from Suc.hyps(1) [OF _ prefix_sums_take_out [OF Suc.prems(1) k(1)] this dist(1), of g' "score - gap" "rank + 1"
      "result(?a \<mapsto> ?v)"] obtain result' ord where
    IH: "bip3_loop int63n g' (take_out k sel) (tot - ?p) (score - gap) gap (rank + 1) (result(?a \<mapsto> ?v))
        = Some (Inr result')"
      "set ord = caddress ` set (take_out k sel)" "ranking ord (score - gap) gap (rank + 1) result'"
      "\<And>a. a \<notin> caddress ` set (take_out k sel) \<Longrightarrow> result' a = (result(?a \<mapsto> ?v)) a"
    using take_out_simps(1) [OF k(1)] n by auto
  have "bip3_loop int63n g sel tot score gap rank result = Some (Inr result')"
    using ne pos st tot(1) rg k IH(1)
    by (subst bip3_loop.simps)
      (simp add: rand_Int63n_def butlast_shift_loop take_out_def Let_def)
  moreover have "ranking (?a # ord) score gap rank result'"
    using IH dist(2) by (intro rankingI_Cons) auto
  moreover have "set (?a # ord) = caddress ` set sel" using IH(2) mem by simp
  moreover have "\<forall>a. a \<notin> caddress ` set sel \<longrightarrow> result' a = result a" using IH(4) mem by auto
  ultimately show ?case by blast
qed

text \<open>Registering candidates keeps the prefix sums, as long as the points do not overflow.\<close>

definition register :: "Candidate list \<Rightarrow> Candidates" where
  "register cands = foldl Candidates_Add NewCandidates cands"

lemma prefix_sums_Add:
  assumes "prefix_sums (selections cs) (ctotal cs)" "unat (ctotal cs) + unat (cpoint c) < 2 ^ 63"
  shows "prefix_sums (selections (Candidates_Add cs c)) (ctotal (Candidates_Add cs c))"
proof -
  let ?n = "length (selections cs)" and ?t = "ctotal cs + cpoint c"
  have t: "unat ?t = unat (ctotal cs) + unat (cpoint c)"
    using assms(2) by (simp add: unat_word_ariths)
  have n: "points_below (selections cs @ [x]) i = points_below (selections cs) i" if "i \<le> ?n" for i x
    using that by (simp add: points_below_def)
  have "points_below (selections cs @ [c\<lparr>cval := ?t\<rparr>]) (Suc ?n) = unat ?t"
    using assms(1) t n [of ?n] by (simp add: points_below_Suc prefix_sums_def)
  with assms t n show ?thesis
    by (auto simp: prefix_sums_def Candidates_Add_def Let_def nth_append less_Suc_eq)
qed

lemma register_simps:
  "map caddress (selections (register cands)) = map caddress cands \<and>
   map cpoint (selections (register cands)) = map cpoint cands"
proof (induction cands rule: rev_induct)
  case Nil
  then show ?case by (simp add: register_def NewCandidates_def)
next
  case (snoc c cands)
  then show ?case by (simp add: register_def Candidates_Add_def Let_def)
qed

lemma prefix_sums_register:
  "sum_list (map (\<lambda>c. unat (cpoint c)) cands) < 2 ^ 63 \<Longrightarrow>
    prefix_sums (selections (register cands)) (ctotal (register cands))
    \<and> unat (ctotal (register cands)) = sum_list (map (\<lambda>c. unat (cpoint c)) cands)"
proof (induction cands rule: rev_induct)
  case Nil
  then show ?case by (simp add: register_def NewCandidates_def prefix_sums_def)
next
  case (snoc c cands)
  then have "prefix_sums (selections (register cands)) (ctotal (register cands))"
    "unat (ctotal (register cands)) + unat (cpoint c) < 2 ^ 63"
    by auto
  moreover have "register (cands @ [c]) = Candidates_Add (register cands) c" by (simp add: register_def)
  ultimately show ?case
    using snoc prefix_sums_Add [of "register cands" c]
    by (auto simp: Candidates_Add_def Let_def unat_word_ariths)
qed

lemma selectBIP3BlockCreator_register:
  assumes "rand_ok int63n" "cands \<noteq> []" "distinct (map caddress cands)" "\<forall>c\<in>set cands. cpoint c \<noteq> 0"
    and "sum_list (map (\<lambda>c. unat (cpoint c)) cands) < 2 ^ 63"
  shows "\<exists>result ord.
    selectBIP3BlockCreator int63n seed sha256 (register cands) config number
      = Some (Inr result)
    \<and> set ord = caddress ` set cands \<and> dom result = set ord
    \<and> ranking ord maxElectScore ((maxElectScore - minElectScore) div int (length cands)) 1 result"
proof -
  let ?cs = "register cands" and ?gap = "(maxElectScore - minElectScore) div int (length cands)"
  have sel: "map caddress (selections ?cs) = map caddress cands" "map cpoint (selections ?cs) = map cpoint cands"
    using register_simps [of cands] by simp_all
  have len: "length (selections ?cs) = length cands" using arg_cong [OF sel(1), of length] by simp
  have adr: "caddress ` set (selections ?cs) = caddress ` set cands"
    using arg_cong [OF sel(1), of set] by simp
  have pts: "\<forall>c\<in>set (selections ?cs). cpoint c \<noteq> 0"
    using arg_cong [OF sel(2), of set] assms(4) by (metis (no_types, lifting) image_iff set_map)
  have pre: "prefix_sums (selections ?cs) (ctotal ?cs)" using prefix_sums_register [OF assms(5)] by simp
  obtain result ord where r: "bip3_loop int63n (seed (GetSeed sha256 config number)) (selections ?cs)
      (ctotal ?cs) maxElectScore ?gap 1 Map.empty = Some (Inr result)"
    and o: "set ord = caddress ` set cands" "ranking ord maxElectScore ?gap 1 result"
    and d: "\<forall>a. a \<notin> caddress ` set cands \<longrightarrow> result a = None"
    using bip3_loop_ranks [OF assms(1) pre pts, of "seed (GetSeed sha256 config number)" maxElectScore ?gap 1
        Map.empty] assms(3) sel(1) unfolding adr by auto
  have "dom result = set ord"
    using ranking_dom [OF o(2)] o(1) d by auto
  moreover have "selections ?cs \<noteq> []" using len assms(2) by auto
  ultimately show ?thesis
    using r o len by (intro exI [of _ result] exI [of _ ord]) (simp add: selectBIP3BlockCreator_def)
qed



end
