(* ===== verification/Legacy_Selection.thy ===== *)
theory Legacy_Selection
  imports Candidate_Selection "HOL-Library.Multiset"
begin

text \<open>
  Drawing the ranks of the block creators before fork BIP3, \<open>berith/selection\<close>: the circular queue
  (\<open>queue.go\<close>), the search in a range (\<open>range.go\<close>) and \<open>selectBlockCreator\<close> of \<open>candidates.go\<close>.

  The Go \<open>int\<close> fields of the queue and of a range are never negative and are natural numbers here.
  The error of \<open>enqueue\<close> and \<open>dequeue\<close> is a string. \<open>binarySearch\<close> may loop forever (\<open>None\<close>) and panic
  (\<open>Some (Inl _)\<close>).
\<close>

record Range =
  rmin :: u64
  rmax :: u64
  rstart :: nat
  rend :: nat

record Queue =
  storage :: "Range list"
  qsize :: nat
  front :: nat
  rear :: nat

definition setQueueAsCandidates :: "nat \<Rightarrow> Queue" where
  "setQueueAsCandidates candidateCount =
     \<lparr>storage = replicate (candidateCount + 1) \<lparr>rmin = 0, rmax = 0, rstart = 0, rend = 0\<rparr>,
      qsize = candidateCount + 1, front = 0, rear = 0\<rparr>"

definition enqueue :: "Queue \<Rightarrow> Range \<Rightarrow> string + Queue" where
  "enqueue q r =
     (if (rear q + 1) mod qsize q = front q then Inl ''Queue is full''
      else Inr (q\<lparr>storage := (storage q)[rear q := r], rear := (rear q + 1) mod qsize q\<rparr>))"

definition dequeue :: "Queue \<Rightarrow> string + (Range \<times> Queue)" where
  "dequeue q =
     (if front q = rear q then Inl ''Queue is empty''
      else Inr (storage q ! front q, q\<lparr>front := (front q + 1) mod qsize q\<rparr>))"

text \<open>A call of \<open>enqueue\<close> whose error is dropped, as in \<open>binarySearch\<close>.\<close>

definition enqueue_drop :: "Queue \<Rightarrow> Range \<Rightarrow> Queue" where
  "enqueue_drop q r = (case enqueue q r of Inl _ \<Rightarrow> q | Inr q' \<Rightarrow> q')"

definition split_range :: "Queue \<Rightarrow> Range \<Rightarrow> nat \<Rightarrow> u64 \<Rightarrow> u64 \<Rightarrow> Queue" where
  "split_range q r target a b =
     (let q1 = (if rstart r \<noteq> target
                then enqueue_drop q \<lparr>rmin = rmin r, rmax = a - 1, rstart = rstart r, rend = target\<rparr>
                else q)
      in if target + 1 \<noteq> rend r
         then enqueue_drop q1 \<lparr>rmin = b + 1, rmax = rmax r, rstart = target + 1, rend = rend r\<rparr>
         else q1)"

partial_function (option) range_search ::
  "Range \<Rightarrow> Candidate list \<Rightarrow> u64 \<Rightarrow> nat \<Rightarrow> nat \<Rightarrow> (nat \<times> u64 \<times> u64) run option" where
  "range_search r sel random start end =
     (let target = (start + end) div 2 in
      if length sel \<le> target then Some (Inl IndexOutOfRange)
      else
        (let a = (if 0 < target then cval (sel ! (target - 1)) else rmin r);
             b = cval (sel ! target) in
         if a \<le> random \<and> random \<le> b then Some (Inr (target, a, b))
         else if random < a then range_search r sel random start target
         else range_search r sel random (target + 1) end))"

declare range_search.simps [code]

definition binarySearch ::
  "'g generator \<Rightarrow> 'g \<Rightarrow> Range \<Rightarrow> Queue \<Rightarrow> Candidate list \<Rightarrow> (address \<times> Queue \<times> 'g) run option" where
  "binarySearch int63n g r q sel =
     (if rend r \<le> rstart r + 1 then
        (if rstart r < length sel then Some (Inr (caddress (sel ! rstart r), q, g))
         else Some (Inl IndexOutOfRange))
      else
        (case rand_Int63n int63n g (sint (rmax r - rmin r)) of
           Inl p \<Rightarrow> Some (Inl p)
         | Inr (x, g') \<Rightarrow>
             (case range_search r sel (word_of_int x + rmin r) (rstart r) (rend r) of
                None \<Rightarrow> None
              | Some (Inl p) \<Rightarrow> Some (Inl p)
              | Some (Inr (target, a, b)) \<Rightarrow>
                  Some (Inr (caddress (sel ! target), split_range q r target a b, g')))))"

function draw_loop ::
  "'g generator \<Rightarrow> 'g \<Rightarrow> Queue \<Rightarrow> Candidates \<Rightarrow> int \<Rightarrow> int \<Rightarrow> int \<Rightarrow> VoteResults
    \<Rightarrow> VoteResults run option" where
  "draw_loop int63n g q cs cnt score gap result =
     (if cnt \<le> MaxMiner \<and> front q \<noteq> rear q then
        (case dequeue q of
           Inl _ \<Rightarrow> Some (Inr result)
         | Inr (r, q1) \<Rightarrow>
             (case binarySearch int63n g r q1 (selections cs) of
                None \<Rightarrow> None
              | Some (Inl p) \<Rightarrow> Some (Inl p)
              | Some (Inr (account, q2, g')) \<Rightarrow>
                  draw_loop int63n g' q2 cs (cnt + 1) (score - gap) gap
                    (result(account \<mapsto> \<lparr>Score = int64 (score + sint (ts cs)), Rank = cnt\<rparr>))))
      else Some (Inr result))"
  by pat_completeness auto
termination
  by (relation "measure (\<lambda>(_, _, _, _, cnt, _). nat (MaxMiner + 1 - cnt))") auto

declare draw_loop.simps [simp del]

definition selectBlockCreator ::
  "'g generator \<Rightarrow> (int \<Rightarrow> 'g) \<Rightarrow> (byte list \<Rightarrow> byte list) \<Rightarrow> Candidates \<Rightarrow> ChainConfig \<Rightarrow> u64
    \<Rightarrow> VoteResults run option" where
  "selectBlockCreator int63n seed sha256 cs config number =
     (let candidateCount = length (selections cs);
          queue = setQueueAsCandidates candidateCount in
      if candidateCount = 0 then Some (Inl DivideByZero)
      else
        (case enqueue queue \<lparr>rmin = 0, rmax = ctotal cs, rstart = 0, rend = candidateCount\<rparr> of
           Inl _ \<Rightarrow> Some (Inr Map.empty)
         | Inr q \<Rightarrow>
             draw_loop int63n (seed (GetSeed sha256 config number)) q cs 1 maxElectScore
               ((maxElectScore - minElectScore) div int candidateCount) Map.empty))"

subsection \<open>The contract of a bounded queue\<close>

locale bounded_fifo =
  fixes ok :: "'q \<Rightarrow> bool" and items :: "'q \<Rightarrow> 'a list" and capacity :: "'q \<Rightarrow> nat"
    and enq :: "'q \<Rightarrow> 'a \<Rightarrow> string + 'q" and deq :: "'q \<Rightarrow> string + ('a \<times> 'q)"
  assumes enq_room: "ok q \<Longrightarrow> length (items q) < capacity q \<Longrightarrow>
      \<exists>q'. enq q x = Inr q' \<and> ok q' \<and> capacity q' = capacity q \<and> items q' = items q @ [x]"
    and enq_full: "ok q \<Longrightarrow> length (items q) = capacity q \<Longrightarrow> \<exists>e. enq q x = Inl e"
    and deq_empty: "ok q \<Longrightarrow> items q = [] \<Longrightarrow> \<exists>e. deq q = Inl e"
    and deq_some: "ok q \<Longrightarrow> items q = x # xs \<Longrightarrow>
      \<exists>q'. deq q = Inr (x, q') \<and> ok q' \<and> capacity q' = capacity q \<and> items q' = xs"
begin

fun enq_all :: "'q \<Rightarrow> 'a list \<Rightarrow> string + 'q" where
  "enq_all q [] = Inr q"
| "enq_all q (x # xs) = (case enq q x of Inl e \<Rightarrow> Inl e | Inr q' \<Rightarrow> enq_all q' xs)"

fun deq_all :: "nat \<Rightarrow> 'q \<Rightarrow> string + ('a list \<times> 'q)" where
  "deq_all 0 q = Inr ([], q)"
| "deq_all (Suc n) q =
     (case deq q of Inl e \<Rightarrow> Inl e
      | Inr (x, q1) \<Rightarrow> (case deq_all n q1 of Inl e \<Rightarrow> Inl e | Inr (xs, q2) \<Rightarrow> Inr (x # xs, q2)))"

lemma enq_all_items:
  "ok q \<Longrightarrow> length (items q) + length xs \<le> capacity q \<Longrightarrow>
    \<exists>q'. enq_all q xs = Inr q' \<and> ok q' \<and> capacity q' = capacity q \<and> items q' = items q @ xs"
proof (induction xs arbitrary: q)
  case (Cons x xs)
  then obtain q' where q': "enq q x = Inr q'" "ok q'" "capacity q' = capacity q" "items q' = items q @ [x]"
    using enq_room [of q x] by auto
  then show ?case using Cons.IH [of q'] Cons.prems by auto
qed auto

lemma deq_all_items:
  "ok q \<Longrightarrow> items q = xs @ ys \<Longrightarrow> \<exists>q'. deq_all (length xs) q = Inr (xs, q') \<and> ok q' \<and> items q' = ys"
proof (induction xs arbitrary: q)
  case (Cons x xs)
  then obtain q' where q': "deq q = Inr (x, q')" "ok q'" "items q' = xs @ ys"
    using deq_some [of q x "xs @ ys"] by auto
  with Cons.IH [of q'] show ?case by auto
qed auto

lemma fifo_order:
  assumes "ok q" "items q = []" "length xs \<le> capacity q"
  shows "\<exists>q1 q2. enq_all q xs = Inr q1 \<and> deq_all (length xs) q1 = Inr (xs, q2) \<and> items q2 = []"
proof -
  obtain q1 where q1: "enq_all q xs = Inr q1" "ok q1" "items q1 = xs @ []"
    using enq_all_items [of q xs] assms by auto
  with deq_all_items [OF q1(2,3)] show ?thesis by auto
qed

end

text \<open>The circular queue implements it: the items are the slots from \<open>front\<close> up to before \<open>rear\<close>.\<close>

definition queue_ok :: "Queue \<Rightarrow> bool" where
  "queue_ok q \<longleftrightarrow> length (storage q) = qsize q \<and> front q < qsize q \<and> rear q < qsize q"

definition queue_len :: "Queue \<Rightarrow> nat" where
  "queue_len q = (if front q \<le> rear q then rear q - front q else rear q + qsize q - front q)"

definition queue_items :: "Queue \<Rightarrow> Range list" where
  "queue_items q = map (\<lambda>i. storage q ! ((front q + i) mod qsize q)) [0..<queue_len q]"

definition queue_capacity :: "Queue \<Rightarrow> nat" where
  "queue_capacity q = qsize q - 1"

lemma queue_len_less: "queue_ok q \<Longrightarrow> queue_len q < qsize q"
  by (auto simp: queue_ok_def queue_len_def)

lemma queue_len_0: "queue_ok q \<Longrightarrow> queue_len q = 0 \<longleftrightarrow> front q = rear q"
  by (auto simp: queue_ok_def queue_len_def)

lemma queue_slot:
  "queue_ok q \<Longrightarrow> (front q + queue_len q) mod qsize q = rear q"
  by (auto simp: queue_ok_def queue_len_def)

lemma mod_slot_inj:
  fixes n :: nat
  assumes "(a + i) mod n = (a + j) mod n" "i < n" "j < n"
  shows "i = j"
  using assms
proof (induction i j rule: linorder_wlog)
  case (le i j)
  then have "n dvd (a + j) - (a + i)" using mod_eq_dvd_iff_nat [of "a + i" "a + j" n] by auto
  with le show ?case by (auto dest: dvd_imp_le)
qed auto

lemma queue_full: "queue_ok q \<Longrightarrow> (rear q + 1) mod qsize q = front q \<longleftrightarrow> queue_len q = qsize q - 1"
  by (cases "rear q + 1 = qsize q") (auto simp: queue_ok_def queue_len_def)

lemma queue_len_enqueue:
  assumes "queue_ok q" "enqueue q r = Inr q'"
  shows "queue_len q' = queue_len q + 1"
  using assms
  by (cases "rear q + 1 = qsize q")
    (auto simp: enqueue_def queue_ok_def queue_len_def split: if_splits)

interpretation rq: bounded_fifo queue_ok queue_items queue_capacity enqueue dequeue
proof unfold_locales
  fix q :: Queue and x
  assume q: "queue_ok q"
  then have pos: "0 < qsize q" by (auto simp: queue_ok_def)
  show "length (queue_items q) = queue_capacity q \<Longrightarrow> \<exists>e. enqueue q x = Inl e"
    using queue_full [OF q] by (auto simp: enqueue_def queue_items_def queue_capacity_def)
  show "queue_items q = [] \<Longrightarrow> \<exists>e. dequeue q = Inl e"
    using queue_len_0 [OF q] by (auto simp: dequeue_def queue_items_def)
  show "\<exists>q'. enqueue q x = Inr q' \<and> queue_ok q' \<and> queue_capacity q' = queue_capacity q
      \<and> queue_items q' = queue_items q @ [x]" if room: "length (queue_items q) < queue_capacity q"
  proof -
    have nf: "(rear q + 1) mod qsize q \<noteq> front q"
      using room queue_full [OF q] by (simp add: queue_items_def queue_capacity_def)
    define q' where "q' = q\<lparr>storage := (storage q)[rear q := x], rear := (rear q + 1) mod qsize q\<rparr>"
    have e: "enqueue q x = Inr q'" using nf by (simp add: enqueue_def q'_def)
    have f: "front q' = front q" "qsize q' = qsize q" "storage q' = (storage q)[rear q := x]"
      by (simp_all add: q'_def)
    have len: "queue_len q' = Suc (queue_len q)" using queue_len_enqueue [OF q e] by simp
    have "(storage q)[rear q := x] ! ((front q + i) mod qsize q) =
        (if i = queue_len q then x else storage q ! ((front q + i) mod qsize q))" if "i \<le> queue_len q" for i
    proof (cases "i = queue_len q")
      case True
      then show ?thesis using queue_slot [OF q] q by (simp add: queue_ok_def)
    next
      case False
      then have "(front q + i) mod qsize q \<noteq> rear q"
        using mod_slot_inj [of "front q" i "qsize q" "queue_len q"] queue_slot [OF q] queue_len_less [OF q] that
        by auto
      then show ?thesis using False by simp
    qed
    then have "queue_items q' = queue_items q @ [x]"
      unfolding queue_items_def len f using q by (auto simp: queue_slot [OF q] queue_ok_def)
    moreover have "queue_ok q'" using q pos by (simp add: queue_ok_def q'_def)
    ultimately show ?thesis using e f by (auto simp: queue_capacity_def)
  qed
  show "\<exists>q'. dequeue q = Inr (x, q') \<and> queue_ok q' \<and> queue_capacity q' = queue_capacity q
      \<and> queue_items q' = xs" if it: "queue_items q = x # xs" for xs
  proof -
    have ne: "queue_len q = Suc (length xs)"
      using arg_cong [OF it, of length] by (simp add: queue_items_def)
    define q' where "q' = q\<lparr>front := (front q + 1) mod qsize q\<rparr>"
    have len: "queue_len q' = length xs"
      using ne q by (cases "front q + 1 = qsize q") (auto simp: queue_ok_def queue_len_def q'_def split: if_splits)
    have "x = storage q ! front q" "xs = map (\<lambda>i. storage q ! ((front q + Suc i) mod qsize q)) [0..<length xs]"
      using it q unfolding queue_items_def ne upt_conv_Cons [OF zero_less_Suc]
      by (auto simp: queue_ok_def map_Suc_upt [symmetric] comp_def simp del: upt_Suc)
    moreover have "queue_items q' = map (\<lambda>i. storage q ! ((front q + Suc i) mod qsize q)) [0..<length xs]"
      unfolding queue_items_def len by (simp add: q'_def mod_simps)
    moreover have "front q \<noteq> rear q" using queue_len_0 [OF q] ne by auto
    moreover have "queue_ok q'" using q pos by (simp add: queue_ok_def q'_def)
    ultimately show ?thesis by (auto simp: dequeue_def q'_def queue_capacity_def)
  qed
qed

lemma enqueue_drop_items:
  assumes "queue_ok q" "length (queue_items q) < queue_capacity q"
  shows "queue_ok (enqueue_drop q r)" "queue_capacity (enqueue_drop q r) = queue_capacity q"
    "queue_items (enqueue_drop q r) = queue_items q @ [r]"
  using rq.enq_room [OF assms, of r] by (auto simp: enqueue_drop_def)

subsection \<open>The ranges\<close>

text \<open>A range in the queue is not empty and its bounds are those of its candidates: the lower bound is
  one above the points before \<open>start\<close>, the upper bound the points before \<open>end\<close>, or one below if a
  candidate at \<open>end\<close> has been drawn.\<close>

definition range_ok :: "Candidate list \<Rightarrow> Range \<Rightarrow> bool" where
  "range_ok sel r \<longleftrightarrow> rstart r < rend r \<and> rend r \<le> length sel
     \<and> unat (rmin r) = (if rstart r = 0 then 0 else points_below sel (rstart r) + 1)
     \<and> (unat (rmax r) = points_below sel (rend r) \<or> unat (rmax r) + 1 = points_below sel (rend r))"

definition pending :: "Range list \<Rightarrow> nat multiset" where
  "pending rs = sum_list (map (\<lambda>r. mset [rstart r..<rend r]) rs)"

lemma pending_simps [simp]:
  "pending [] = {#}" "pending (r # rs) = mset [rstart r..<rend r] + pending rs"
  "pending (rs @ rs') = pending rs + pending rs'"
  by (simp_all add: pending_def)

lemma length_pending:
  "\<forall>r\<in>set rs. range_ok sel r \<Longrightarrow> length rs \<le> size (pending rs)"
  by (induction rs) (auto simp: range_ok_def)

lemma points_below_ge2:
  assumes "\<forall>c\<in>set sel. 2 \<le> unat (cpoint c)" "i \<le> j" "j \<le> length sel"
  shows "points_below sel i + 2 * (j - i) \<le> points_below sel j"
  using assms(2,3)
proof (induction j rule: dec_induct)
  case (step j)
  then have "2 \<le> unat (cpoint (sel ! j))" using assms(1) by simp
  then show ?case using step by (simp add: points_below_Suc Suc_diff_le)
qed simp

lemma range_search_finds:
  assumes "prefix_sums sel tot"
    and "s < e" "e \<le> length sel" "points_below sel s \<le> unat x" "unat x \<le> points_below sel e"
    and "s = 0 \<Longrightarrow> rmin r = 0"
  shows "\<exists>t a b. range_search r sel x s e = Some (Inr (t, a, b)) \<and> s \<le> t \<and> t < e
    \<and> unat b = points_below sel (Suc t) \<and> (0 < t \<longrightarrow> unat a = points_below sel t)"
  using assms(2-)
proof (induction "e - s" arbitrary: s e rule: less_induct)
  case less
  define t where "t = (s + e) div 2"
  have t: "s \<le> t" "t < e" "t < length sel" using less.prems by (auto simp: t_def)
  define a where "a = (if 0 < t then cval (sel ! (t - 1)) else rmin r)"
  define b where "b = cval (sel ! t)"
  have b: "unat b = points_below sel (Suc t)" using assms(1) t(3) by (simp add: b_def prefix_sums_def)
  have a: "unat a = points_below sel t"
    using assms(1) t(1,3) less.prems(5) by (cases t) (auto simp: a_def prefix_sums_def)
  have range: "(length sel \<le> t) = False" using t(3) by simp
  have "range_search r sel x s e =
      (if a \<le> x \<and> x \<le> b then Some (Inr (t, a, b))
       else if x < a then range_search r sel x s t else range_search r sel x (t + 1) e)"
    by (subst range_search.simps) (simp only: Let_def t_def [symmetric] range if_False a_def [symmetric] b_def [symmetric])
  note step = this [unfolded word_le_nat_alt word_less_nat_alt a b]
  have mono: "points_below sel t \<le> points_below sel (Suc t)" by (rule points_below_mono) simp
  consider "points_below sel t \<le> unat x" "unat x \<le> points_below sel (Suc t)"
    | "unat x < points_below sel t" | "points_below sel (Suc t) < unat x" by linarith
  then show ?case
  proof cases
    case 1
    then show ?thesis unfolding step using t a b by auto
  next
    case 2
    have "s \<noteq> t" using 2 less.prems(3) by auto
    then have "s < t" using t(1) by simp
    with less.hyps [of t s] less.prems 2 t have "\<exists>t' a b. range_search r sel x s t = Some (Inr (t', a, b))
      \<and> s \<le> t' \<and> t' < t \<and> unat b = points_below sel (Suc t') \<and> (0 < t' \<longrightarrow> unat a = points_below sel t')"
      by auto
    then show ?thesis unfolding step using 2 t(2) by (auto dest: less_trans)
  next
    case 3
    have "t + 1 \<noteq> e" using 3 less.prems(4) by auto
    then have "Suc t < e" using t(2) by simp
    with less.hyps [of e "Suc t"] less.prems 3 t have "\<exists>t' a b. range_search r sel x (Suc t) e = Some (Inr (t', a, b))
      \<and> Suc t \<le> t' \<and> t' < e \<and> unat b = points_below sel (Suc t') \<and> (0 < t' \<longrightarrow> unat a = points_below sel t')"
      by auto
    then show ?thesis unfolding step using 3 t(1) mono by auto
  qed
qed

text \<open>Splitting a range at the drawn candidate: the new ranges hold its other candidates.\<close>

definition split_parts :: "Range \<Rightarrow> nat \<Rightarrow> u64 \<Rightarrow> u64 \<Rightarrow> Range list" where
  "split_parts r t a b =
     (if rstart r \<noteq> t then [\<lparr>rmin = rmin r, rmax = a - 1, rstart = rstart r, rend = t\<rparr>] else [])
     @ (if t + 1 \<noteq> rend r then [\<lparr>rmin = b + 1, rmax = rmax r, rstart = t + 1, rend = rend r\<rparr>] else [])"

lemma split_range_items:
  assumes "queue_ok q" "length (queue_items q) + (rend r - rstart r - 1) \<le> queue_capacity q"
    and "rstart r \<le> t" "t < rend r"
  shows "queue_ok (split_range q r t a b)" "queue_capacity (split_range q r t a b) = queue_capacity q"
    "queue_items (split_range q r t a b) = queue_items q @ split_parts r t a b"
  using assms by (auto simp: split_range_def split_parts_def Let_def enqueue_drop_items)

lemma pending_split_parts:
  assumes "rstart r \<le> t" "t < rend r"
  shows "mset [rstart r..<rend r] = add_mset t (pending (split_parts r t a b))"
proof -
  have "[rstart r..<rend r] = [rstart r..<t] @ t # [Suc t..<rend r]"
    using upt_add_eq_append [of "rstart r" t "rend r - t"] upt_conv_Cons [of t "rend r"] assms by simp
  then show ?thesis using assms by (auto simp: split_parts_def)
qed

lemma range_ok_split_parts:
  assumes "prefix_sums sel tot" "\<forall>c\<in>set sel. 2 \<le> unat (cpoint c)" "range_ok sel r"
    and t: "rstart r \<le> t" "t < rend r" and b: "unat b = points_below sel (Suc t)"
    and a: "0 < t \<longrightarrow> unat a = points_below sel t" and p: "p \<in> set (split_parts r t a b)"
  shows "range_ok sel p"
proof -
  have "points_below sel (Suc t) \<le> unat tot"
    using points_below_mono [of "Suc t" "length sel" sel] assms(1,3) t by (simp add: prefix_sums_def range_ok_def)
  then have b1: "unat (b + 1) = points_below sel (Suc t) + 1"
    using b assms(1) by (simp add: prefix_sums_def unat_word_ariths)
  have a1: "unat (a - 1) + 1 = points_below sel t" if "rstart r \<noteq> t"
  proof -
    have "0 < t" using that t by simp
    moreover have "2 \<le> points_below sel t"
      using points_below_ge2 [OF assms(2), of 0 t] \<open>0 < t\<close> assms(3) t by (auto simp: range_ok_def)
    ultimately show ?thesis using a by (simp add: unat_minus_u64)
  qed
  show ?thesis
    using p assms(3) t b1 a1 by (auto simp: split_parts_def range_ok_def split: if_splits)
qed

lemma binarySearch_draws:
  assumes "rand_ok int63n" "prefix_sums sel tot" "\<forall>c\<in>set sel. 2 \<le> unat (cpoint c)" "range_ok sel r"
    and q: "queue_ok q" "length (queue_items q) + (rend r - rstart r - 1) \<le> queue_capacity q"
  shows "\<exists>t q' g' new. binarySearch int63n g r q sel = Some (Inr (caddress (sel ! t), q', g'))
    \<and> queue_ok q' \<and> queue_capacity q' = queue_capacity q \<and> queue_items q' = queue_items q @ new
    \<and> (\<forall>p\<in>set new. range_ok sel p) \<and> mset [rstart r..<rend r] = add_mset t (pending new)"
proof (cases "rend r \<le> rstart r + 1")
  case True
  then have "rend r = Suc (rstart r)" "rstart r < length sel" using assms(4) by (auto simp: range_ok_def)
  then show ?thesis
    using True q by (intro exI [of _ "rstart r"] exI [of _ q] exI [of _ g] exI [of _ "[]"])
      (simp add: binarySearch_def)
next
  case False
  have r: "rstart r < rend r" "rend r \<le> length sel" using assms(4) by (auto simp: range_ok_def)
  have top: "points_below sel (rend r) \<le> unat tot" "unat tot < 2 ^ 63"
    using points_below_mono [OF r(2), of sel] assms(2) by (auto simp: prefix_sums_def)
  have "points_below sel (rstart r) + 4 \<le> points_below sel (rend r)"
    using points_below_ge2 [OF assms(3), of "rstart r" "rend r"] r False by simp
  then have lt: "unat (rmin r) + 2 \<le> unat (rmax r)" and mx: "unat (rmax r) \<le> points_below sel (rend r)"
    using assms(4) by (auto simp: range_ok_def split: if_splits)
  define d where "d = rmax r - rmin r"
  have d: "unat d = unat (rmax r) - unat (rmin r)" using lt by (simp add: d_def unat_minus_u64)
  have "unat d < 2 ^ 63" using d mx top by linarith
  then have sd: "sint d = int (unat d)" by (rule sint_u64)
  obtain x g' where xg: "int63n g (sint d) = (x, g')" by force
  have dp: "0 < sint d" using d lt sd by linarith
  then have x: "0 \<le> x" "x < int (unat d)" using assms(1) xg sd unfolding rand_ok_def by (metis fst_conv)+
  have "int (unat d) < int (2 ^ 63)" using \<open>unat d < 2 ^ 63\<close> by (simp only: of_nat_less_iff)
  then have "x < 2 ^ 64" using x(2) by simp
  with x(1) have ux: "unat (word_of_int x :: u64) = nat x" by (rule unat_word_of_int_u64)
  have nx: "nat x < unat d" using x by linarith
  have "nat x + unat (rmin r) < 2 ^ 64" using nx d mx top by simp
  then have v: "unat (word_of_int x + rmin r) = nat x + unat (rmin r)" using ux by (simp add: unat_word_ariths)
  define y where "y = word_of_int x + rmin r"
  have y: "points_below sel (rstart r) \<le> unat y" "unat y \<le> points_below sel (rend r)"
    using v nx d mx assms(4) by (auto simp: y_def range_ok_def split: if_splits)
  have "rstart r = 0 \<Longrightarrow> rmin r = 0" using assms(4) by (auto simp: range_ok_def unat_eq_0)
  with range_search_finds [OF assms(2) r y, of r] obtain t a b where
    s: "range_search r sel y (rstart r) (rend r) = Some (Inr (t, a, b))"
    and t: "rstart r \<le> t" "t < rend r" "unat b = points_below sel (Suc t)" "0 < t \<longrightarrow> unat a = points_below sel t"
    by blast
  have "binarySearch int63n g r q sel = Some (Inr (caddress (sel ! t), split_range q r t a b, g'))"
    using False dp xg s by (simp add: binarySearch_def rand_Int63n_def d_def y_def)
  then show ?thesis
    using split_range_items [OF q t(1,2)] pending_split_parts [OF t(1,2)] range_ok_split_parts [OF assms(2-4) t]
    by blast
qed

lemma distinct_sub_mset:
  assumes "mset xs \<subseteq># mset ys" "distinct ys"
  shows "distinct xs" "set xs \<subseteq> set ys"
proof -
  obtain zs where zs: "mset ys = mset (xs @ zs)"
    using assms(1) ex_mset by (metis mset_append subset_mset.le_iff_add)
  then show "distinct xs" using assms(2) mset_eq_imp_distinct_iff [OF zs] by simp
  show "set xs \<subseteq> set ys" using mset_eq_setD [OF zs] by auto
qed

lemma drawn_address_new:
  assumes "add_mset t (mset ord) \<subseteq># mset [0..<length sel]" "distinct (map caddress sel)"
  shows "caddress (sel ! t) \<notin> (\<lambda>i. caddress (sel ! i)) ` set ord"
proof
  assume "caddress (sel ! t) \<in> (\<lambda>i. caddress (sel ! i)) ` set ord"
  then obtain i where i: "i \<in> set ord" "caddress (sel ! t) = caddress (sel ! i)" by auto
  have "mset (t # ord) \<subseteq># mset [0..<length sel]" using assms(1) by simp
  from distinct_sub_mset [OF this] i have "t \<noteq> i" "t < length sel" "i < length sel" by auto
  with i(2) assms(2) show False by (simp add: distinct_conv_nth)
qed

lemma register_ts: "ts (register cands) = 0"
  by (induction cands rule: rev_induct) (simp_all add: register_def NewCandidates_def Candidates_Add_def Let_def)

subsection \<open>The drawing ranks the candidates\<close>

lemma draw_loop_ranks:
  assumes "rand_ok int63n" "prefix_sums (selections cs) tot" "\<forall>c\<in>set (selections cs). 2 \<le> unat (cpoint c)"
    and "distinct (map caddress (selections cs))" "ts cs = 0" "0 \<le> gap"
    and "queue_ok q" "\<forall>r\<in>set (queue_items q). range_ok (selections cs) r"
    and "size (pending (queue_items q)) \<le> queue_capacity q"
    and "pending (queue_items q) \<subseteq># mset [0..<length (selections cs)]"
    and "gap * int (size (pending (queue_items q))) \<le> score" "score \<le> maxElectScore"
  shows "\<exists>result' ord. draw_loop int63n g q cs cnt score gap result = Some (Inr result')
    \<and> mset ord \<subseteq># pending (queue_items q)
    \<and> length ord = min (size (pending (queue_items q))) (nat (MaxMiner + 1 - cnt))
    \<and> ranking (map (\<lambda>i. caddress (selections cs ! i)) ord) score gap cnt result'
    \<and> (\<forall>a. a \<notin> (\<lambda>i. caddress (selections cs ! i)) ` set ord \<longrightarrow> result' a = result a)"
  using assms(7-)
proof (induction "nat (MaxMiner + 1 - cnt)" arbitrary: q g cnt score result)
  case 0
  then have "\<not> cnt \<le> MaxMiner" by simp
  then show ?case
    by (subst draw_loop.simps) (auto simp: ranking_def intro!: exI [of _ "[]"])
next
  case (Suc n)
  let ?sel = "selections cs" and ?P = "pending (queue_items q)"
  have cnt: "cnt \<le> MaxMiner" using Suc.hyps(2) by simp
  show ?case
  proof (cases "queue_items q")
    case Nil
    then have "front q = rear q" using queue_len_0 [OF Suc.prems(1)] by (simp add: queue_items_def)
    then show ?thesis
      using Nil by (subst draw_loop.simps) (auto simp: ranking_def intro!: exI [of _ "[]"])
  next
    case (Cons r rs)
    have fr: "front q \<noteq> rear q" using queue_len_0 [OF Suc.prems(1)] Cons by (auto simp: queue_items_def)
    obtain q1 where q1: "dequeue q = Inr (r, q1)" "queue_ok q1" "queue_capacity q1 = queue_capacity q"
      "queue_items q1 = rs"
      using rq.deq_some [OF Suc.prems(1) Cons] by blast
    have ok: "range_ok ?sel r" "\<forall>r\<in>set rs. range_ok ?sel r" using Suc.prems(2) Cons by auto
    have "length rs \<le> size (pending rs)" by (rule length_pending [OF ok(2)])
    then have "length (queue_items q1) + (rend r - rstart r - 1) \<le> queue_capacity q1"
      using Suc.prems(3) Cons q1(3,4) by simp
    from binarySearch_draws [OF assms(1-3) ok(1) q1(2) this, of g] obtain t q2 g' new where
      d: "binarySearch int63n g r q1 ?sel = Some (Inr (caddress (?sel ! t), q2, g'))"
      and q2: "queue_ok q2" "queue_capacity q2 = queue_capacity q1" "queue_items q2 = queue_items q1 @ new"
      and new: "\<forall>p\<in>set new. range_ok ?sel p" "mset [rstart r..<rend r] = add_mset t (pending new)"
      by blast
    let ?a = "caddress (?sel ! t)"
    let ?res = "result(?a \<mapsto> \<lparr>Score = int64 (score + sint (ts cs)), Rank = cnt\<rparr>)"
    have P: "?P = add_mset t (pending (queue_items q2))" using Cons q1(4) q2(3) new(2) by simp
    have pos: "0 \<le> gap * int (size ?P)" using assms(6) by simp
    have sc: "int64 (score + sint (ts cs)) = score"
      using assms(5) Suc.prems(5,6) pos by (simp add: maxElectScore_def int64_idn)
    have pre: "\<forall>p\<in>set (queue_items q2). range_ok ?sel p" using ok(2) new(1) q1(4) q2(3) by auto
    have cap: "size (pending (queue_items q2)) \<le> queue_capacity q2" using Suc.prems(3) P q1(3) q2(2) by simp
    have sub': "pending (queue_items q2) \<subseteq># mset [0..<length ?sel]"
      using Suc.prems(4) unfolding P by (metis mset_subset_eq_insertD subset_mset.less_imp_le)
    have low: "gap * int (size (pending (queue_items q2))) \<le> score - gap"
      using Suc.prems(5) unfolding P by (simp add: algebra_simps)
    have "n = nat (MaxMiner + 1 - (cnt + 1))" "score - gap \<le> maxElectScore"
      using Suc.hyps(2) Suc.prems(6) assms(6) by simp_all
    from Suc.hyps(1) [OF this(1) q2(1) pre cap sub' low this(2), of g' ?res] obtain result' ord where
      IH: "draw_loop int63n g' q2 cs (cnt + 1) (score - gap) gap ?res = Some (Inr result')"
        "mset ord \<subseteq># pending (queue_items q2)"
        "length ord = min (size (pending (queue_items q2))) (nat (MaxMiner + 1 - (cnt + 1)))"
        "ranking (map (\<lambda>i. caddress (?sel ! i)) ord) (score - gap) gap (cnt + 1) result'"
        "\<forall>a. a \<notin> (\<lambda>i. caddress (?sel ! i)) ` set ord \<longrightarrow> result' a = ?res a"
      by blast
    have sub: "add_mset t (mset ord) \<subseteq># mset [0..<length ?sel]"
      using IH(2) Suc.prems(4) P by (metis mset_subset_eq_add_mset_cancel subset_mset.order_trans)
    have na: "?a \<notin> (\<lambda>i. caddress (?sel ! i)) ` set ord" by (rule drawn_address_new [OF sub assms(4)])
    have "draw_loop int63n g q cs cnt score gap result = Some (Inr result')"
      using cnt fr q1(1) d IH(1) by (subst draw_loop.simps) simp
    moreover have "ranking (map (\<lambda>i. caddress (?sel ! i)) (t # ord)) score gap cnt result'"
      unfolding list.map using IH(4,5) na sc by (intro rankingI_Cons) auto
    moreover have "length (t # ord) = min (size ?P) (nat (MaxMiner + 1 - cnt))"
      using IH(3) P Suc.hyps(2) cnt by auto
    moreover have "mset (t # ord) \<subseteq># ?P" using IH(2) P by simp
    moreover have "\<forall>a. a \<notin> (\<lambda>i. caddress (?sel ! i)) ` set (t # ord) \<longrightarrow> result' a = result a"
      using IH(5) by auto
    ultimately show ?thesis by blast
  qed
qed

text \<open>C18: Before fork BIP3 the drawing always returns, and the circular queue never drops a range: if
  the candidates have different addresses, at least two points each and a sum of points below 2^63,
  then it ranks as many candidates as there are, at most 10000, each of them once, with the ranks
  1, 2, 3, ... and scores that fall from the maximum by the same gap.\<close>

theorem selectBlockCreator_ranks:
  assumes "rand_ok int63n" "cands \<noteq> []" "distinct (map caddress cands)" "\<forall>c\<in>set cands. 2 \<le> unat (cpoint c)"
    and "sum_list (map (\<lambda>c. unat (cpoint c)) cands) < 2 ^ 63"
  shows "\<exists>result ord.
    selectBlockCreator int63n seed sha256 (foldl Candidates_Add NewCandidates cands) config number
      = Some (Inr result)
    \<and> set ord \<subseteq> caddress ` set cands \<and> length ord = min (length cands) (nat MaxMiner) \<and> dom result = set ord
    \<and> ranking ord maxElectScore ((maxElectScore - minElectScore) div int (length cands)) 1 result"
proof -
  let ?cs = "register cands" and ?gap = "(maxElectScore - minElectScore) div int (length cands)"
  have sel: "map caddress (selections ?cs) = map caddress cands" "map cpoint (selections ?cs) = map cpoint cands"
    using register_simps [of cands] by simp_all
  have len: "length (selections ?cs) = length cands" using arg_cong [OF sel(1), of length] by simp
  have pts: "\<forall>c\<in>set (selections ?cs). 2 \<le> unat (cpoint c)"
    using arg_cong [OF sel(2), of set] assms(4) by (metis (no_types, lifting) image_iff set_map)
  have pre: "prefix_sums (selections ?cs) (ctotal ?cs)" using prefix_sums_register [OF assms(5)] by simp
  have n: "0 < length cands" using assms(2) by simp
  define r where "r = \<lparr>rmin = 0, rmax = ctotal ?cs, rstart = 0, rend = length cands\<rparr>"
  define q where "q = setQueueAsCandidates (length cands)"
  have q: "queue_ok q" "queue_items q = []" "queue_capacity q = length cands"
    by (simp_all add: q_def setQueueAsCandidates_def queue_ok_def queue_items_def queue_len_def queue_capacity_def)
  then obtain q' where q': "enqueue q r = Inr q'" "queue_ok q'" "queue_capacity q' = length cands" "queue_items q' = [r]"
    using rq.enq_room [OF q(1), of r] n by auto
  have r: "range_ok (selections ?cs) r"
    using n pre len by (simp add: range_ok_def r_def prefix_sums_def)
  have gap: "0 \<le> ?gap" "?gap * int (length cands) \<le> maxElectScore"
    using n div_mult_bounds [of "int (length cands)" "maxElectScore - minElectScore"]
    by (simp_all add: maxElectScore_def minElectScore_def pos_imp_zdiv_nonneg_iff)
  have pd: "pending (queue_items q') = mset [0..<length cands]" using q'(4) by (simp add: r_def)
  from draw_loop_ranks [OF assms(1) pre pts, of ?gap q' maxElectScore "seed (GetSeed sha256 config number)" 1 Map.empty]
  obtain result ord where
    d: "draw_loop int63n (seed (GetSeed sha256 config number)) q' ?cs 1 maxElectScore ?gap Map.empty = Some (Inr result)"
    and o: "mset ord \<subseteq># mset [0..<length cands]" "length ord = min (length cands) (nat MaxMiner)"
      "ranking (map (\<lambda>i. caddress (selections ?cs ! i)) ord) maxElectScore ?gap 1 result"
      "\<forall>a. a \<notin> (\<lambda>i. caddress (selections ?cs ! i)) ` set ord \<longrightarrow> result a = None"
    using q' r gap len sel(1) assms(3) register_ts [of cands] unfolding pd by auto
  have "dom result = set (map (\<lambda>i. caddress (selections ?cs ! i)) ord)"
    using ranking_dom [OF o(3)] o(4) by auto
  moreover have "caddress (selections ?cs ! i) \<in> caddress ` set cands" if "i \<in> set ord" for i
    using distinct_sub_mset(2) [OF o(1)] that arg_cong [OF sel(1), of "\<lambda>l. l ! i"] len by auto
  moreover have "selectBlockCreator int63n seed sha256 (register cands) config number = Some (Inr result)"
    using n d q'(1) len unfolding q_def r_def by (simp add: selectBlockCreator_def Let_def)
  ultimately show ?thesis
    using o unfolding register_def
    by (intro exI [of _ result] exI [of _ "map (\<lambda>i. caddress (selections ?cs ! i)) ord"])
      (auto simp: register_def)
qed

theorem selectBlockCreator_ranks_witness:
  "let cands = [\<lparr>caddress = 1, cpoint = 10, cval = 0\<rparr>, \<lparr>caddress = 2, cpoint = 90, cval = 0\<rparr>] in
   \<exists>result ord.
    selectBlockCreator (\<lambda>g n. (g mod n, g + 7)) (\<lambda>s. s) (\<lambda>b. b)
      (foldl Candidates_Add NewCandidates cands) MainnetChainConfig 5 = Some (Inr result)
    \<and> set ord \<subseteq> caddress ` set cands \<and> length ord = min (length cands) (nat MaxMiner) \<and> dom result = set ord
    \<and> ranking ord maxElectScore ((maxElectScore - minElectScore) div int (length cands)) 1 result"
  unfolding Let_def
  by (rule selectBlockCreator_ranks) (simp_all add: rand_ok_def)

text \<open>C19: Candidates with one point can make the drawing before fork BIP3 panic. With four candidates of 10, 1, 1 and 10
  points, if the generator draws the last one first and the first one second, the range that is left covers the
  two candidates of one point and has no width, and the third drawing calls \<open>Int63n\<close> with zero.\<close>

theorem selectBlockCreator_one_point_panics:
  assumes "int63n (seed (GetSeed sha256 config number)) 22 = (v, g)" "13 \<le> v" "v < 22"
    and "int63n g 11 = (w, g')" "0 \<le> w" "w < 10"
    and "cands = [\<lparr>caddress = a1, cpoint = 10, cval = 0\<rparr>, \<lparr>caddress = a2, cpoint = 1, cval = 0\<rparr>,
      \<lparr>caddress = a3, cpoint = 1, cval = 0\<rparr>, \<lparr>caddress = a4, cpoint = 10, cval = 0\<rparr>]"
  shows "selectBlockCreator int63n seed sha256 (foldl Candidates_Add NewCandidates cands) config number
    = Some (Inl (Panicked ''invalid argument to Int63n''))"
proof -
  let ?cs = "foldl Candidates_Add NewCandidates cands" and ?r = "\<lparr>rmin = 0, rmax = 22, rstart = 0, rend = 4\<rparr>"
  let ?r1 = "\<lparr>rmin = 0, rmax = 11, rstart = 0, rend = 3\<rparr>" and ?r2 = "\<lparr>rmin = 11, rmax = 11, rstart = Suc 0, rend = 3\<rparr>"
  let ?sel = "[\<lparr>caddress = a1, cpoint = 10, cval = 10\<rparr>, \<lparr>caddress = a2, cpoint = 1, cval = 11\<rparr>,
      \<lparr>caddress = a3, cpoint = 1, cval = 12\<rparr>, \<lparr>caddress = a4, cpoint = 10, cval = 22\<rparr>]"
  have sel: "selections ?cs = ?sel" "ctotal ?cs = 22"
    by (simp_all add: assms(7) Candidates_Add_def NewCandidates_def Let_def)
  have u: "uint (word_of_int v :: u64) = v" "uint (word_of_int w :: u64) = w"
    using assms by (simp_all add: uint_word_of_int)
  have "range_search ?r ?sel (word_of_int v) 0 4 = Some (Inr (3, 12, 22))"
    using assms(2,3) u(1) by (simp add: range_search.simps [of _ _ _ 0 4] range_search.simps [of _ _ _ 3 4] Let_def word_le_def word_less_def)
  then have b1: "binarySearch int63n (seed (GetSeed sha256 config number)) ?r q ?sel = Some (Inr (a4, enqueue_drop q ?r1, g))" for q
    using assms(1) by (simp add: binarySearch_def rand_Int63n_def split_range_def Let_def)
  have "range_search ?r1 ?sel (word_of_int w) 0 3 = Some (Inr (0, 0, 10))"
    using assms(5,6) u(2) by (simp add: range_search.simps [of _ _ _ 0 3] range_search.simps [of _ _ _ 0 "Suc 0"] Let_def word_le_def word_less_def)
  then have b2: "binarySearch int63n g ?r1 q ?sel = Some (Inr (a1, enqueue_drop q ?r2, g'))" for q
    using assms(4) by (simp add: binarySearch_def rand_Int63n_def split_range_def Let_def)
  have b3: "binarySearch int63n g' ?r2 q ?sel = Some (Inl (Panicked ''invalid argument to Int63n''))" for q
    by (simp add: binarySearch_def rand_Int63n_def)
  have r5: "replicate 5 x = [x, x, x, x, x]" for x :: Range by (simp add: numeral_eq_Suc)
  define z where "z = \<lparr>rmin = 0 :: u64, rmax = 0 :: u64, rstart = 0 :: nat, rend = 0 :: nat\<rparr>"
  have q0: "enqueue (setQueueAsCandidates 4) ?r = Inr \<lparr>storage = [?r, z, z, z, z], qsize = 5, front = 0, rear = Suc 0\<rparr>"
    by (simp add: setQueueAsCandidates_def enqueue_def z_def [symmetric] r5)
  have q1: "enqueue_drop \<lparr>storage = [?r, z, z, z, z], qsize = 5, front = Suc 0, rear = Suc 0\<rparr> ?r1
      = \<lparr>storage = [?r, ?r1, z, z, z], qsize = 5, front = Suc 0, rear = 2\<rparr>" by (simp add: enqueue_drop_def enqueue_def)
  have q2: "enqueue_drop \<lparr>storage = [?r, ?r1, z, z, z], qsize = 5, front = Suc (Suc 0), rear = 2\<rparr> ?r2
      = \<lparr>storage = [?r, ?r1, ?r2, z, z], qsize = 5, front = Suc (Suc 0), rear = 3\<rparr>" by (simp add: enqueue_drop_def enqueue_def)
  have d3: "draw_loop int63n g' \<lparr>storage = [?r, ?r1, ?r2, z, z], qsize = 5, front = Suc (Suc 0), rear = 3\<rparr> ?cs 3 s gap res
      = Some (Inl (Panicked ''invalid argument to Int63n''))" for s gap res
    by (subst draw_loop.simps) (simp add: sel b3 dequeue_def MaxMiner_def)
  have d2: "draw_loop int63n g \<lparr>storage = [?r, ?r1, z, z, z], qsize = 5, front = Suc 0, rear = 2\<rparr> ?cs 2 s gap res
      = Some (Inl (Panicked ''invalid argument to Int63n''))" for s gap res
    by (subst draw_loop.simps) (simp add: sel b2 q2 d3 dequeue_def MaxMiner_def)
  have d1: "draw_loop int63n (seed (GetSeed sha256 config number)) \<lparr>storage = [?r, z, z, z, z], qsize = 5, front = 0, rear = Suc 0\<rparr>
      ?cs 1 s gap res = Some (Inl (Panicked ''invalid argument to Int63n''))" for s gap res
    by (subst draw_loop.simps) (simp add: sel b1 q1 d2 dequeue_def MaxMiner_def)
  have "length (selections ?cs) = 4" by (simp add: sel)
  then show ?thesis by (simp add: selectBlockCreator_def Let_def sel(2) q0 d1)
qed

theorem selectBlockCreator_one_point_panics_witness:
  "let int63n = (\<lambda>g n. (if g = 0 then n - 1 else 0, g + 1)) :: int generator;
       cands = [\<lparr>caddress = 1, cpoint = 10, cval = 0\<rparr>, \<lparr>caddress = 2, cpoint = 1, cval = 0\<rparr>,
         \<lparr>caddress = 3, cpoint = 1, cval = 0\<rparr>, \<lparr>caddress = 4, cpoint = 10, cval = 0\<rparr>]
   in rand_ok int63n
     \<and> selectBlockCreator int63n (\<lambda>_. 0) (\<lambda>b. b) (foldl Candidates_Add NewCandidates cands) TestnetChainConfig 5
         = Some (Inl (Panicked ''invalid argument to Int63n''))"
  unfolding Let_def
  by (intro conjI selectBlockCreator_one_point_panics [where v = 21 and g = 1 and w = 0 and g' = 2, OF _ _ _ _ _ _ refl])
    (simp_all add: rand_ok_def)

end
