(* ===== verification/Rlp_Stream.thy ===== *)
theory Rlp_Stream
  imports Rlp
begin

text \<open>
  The RLP decoder: the streaming decoder of \<open>rlp/decode.go\<close> on an in-memory reader and the slice
  helpers of \<open>rlp/raw.go\<close>.

  A \<open>Stream\<close> keeps the unread input, the input limit, the cached kind of the value ahead (\<open>None\<close>
  is the code's \<open>-1\<close>) with its sticky error, and the stack of the lists being decoded, innermost
  first. Sizes are unsigned 64-bit numbers held as \<open>nat\<close>; \<open>u64_add\<close> and \<open>u64_sub\<close> wrap around.
  A decoder returns its result and the stream. \<open>decodeInterface\<close> recurses as deep as the input
  nests: the first argument bounds the depth and, in \<open>decodeSliceElems\<close>, the number of elements.
  The bounds that \<open>DecodeBytes\<close> passes are never reached (\<open>decodeInterface_fuel\<close>). The position
  contexts that the code adds to decode errors for display are left out.
\<close>

unbundle bit_operations_syntax

datatype Kind = KByte | KString | KList

record Stream =
  input :: "byte list"
  remaining :: nat
  limited :: bool
  skind :: "Kind option"
  ssize :: nat
  byteval :: byte
  kinderr :: "rlp_error option"
  stack :: "(nat \<times> nat) list"

type_synonym 'a decode = "(rlp_error + 'a) \<times> Stream"

definition u64_add :: "nat \<Rightarrow> nat \<Rightarrow> nat" where
  "u64_add a b = (a + b) mod 2 ^ 64"

definition u64_sub :: "nat \<Rightarrow> nat \<Rightarrow> nat" where
  "u64_sub a b = (a + 2 ^ 64 - b) mod 2 ^ 64"

subsection \<open>Reading from the stream\<close>

definition NewStream :: "byte list \<Rightarrow> Stream" where
  "NewStream b =
     \<lparr>input = b, remaining = length b, limited = True, skind = None, ssize = 0, byteval = 0,
      kinderr = None, stack = []\<rparr>"

definition willRead :: "nat \<Rightarrow> Stream \<Rightarrow> unit decode" where
  "willRead n s0 =
     (let s = s0\<lparr>skind := None\<rparr>;
          limit = (\<lambda>s. if limited s then
                         (if remaining s < n then (Inl ErrValueTooLarge, s)
                          else (Inr (), s\<lparr>remaining := u64_sub (remaining s) n\<rparr>))
                       else (Inr (), s)) in
      case stack s of
        [] \<Rightarrow> limit s
      | (pos, sz) # st \<Rightarrow>
          if u64_sub sz pos < n then (Inl ErrElemTooLarge, s)
          else limit (s\<lparr>stack := (u64_add pos n, sz) # st\<rparr>))"

definition readByte :: "Stream \<Rightarrow> byte decode" where
  "readByte s0 =
     (case willRead 1 s0 of
        (Inl e, s) \<Rightarrow> (Inl e, s)
      | (Inr _, s) \<Rightarrow> (case input s of
                        [] \<Rightarrow> (Inl IoUnexpectedEOF, s)
                      | b # rest \<Rightarrow> (Inr b, s\<lparr>input := rest\<rparr>)))"

definition readFull :: "nat \<Rightarrow> Stream \<Rightarrow> byte list decode" where
  "readFull n s0 =
     (case willRead n s0 of
        (Inl e, s) \<Rightarrow> (Inl e, s)
      | (Inr _, s) \<Rightarrow> if length (input s) < n then (Inl IoUnexpectedEOF, s\<lparr>input := []\<rparr>)
                     else (Inr (take n (input s)), s\<lparr>input := drop n (input s)\<rparr>))"

definition readUint :: "nat \<Rightarrow> Stream \<Rightarrow> nat decode" where
  "readUint sz s0 =
     (if sz = 0 then (Inr 0, s0\<lparr>skind := None\<rparr>)
      else if sz = 1 then
        (case readByte s0 of (Inl e, s) \<Rightarrow> (Inl e, s) | (Inr b, s) \<Rightarrow> (Inr (unat b), s))
      else
        (case readFull sz s0 of
           (Inl e, s) \<Rightarrow> (Inl e, s)
         | (Inr buf, s) \<Rightarrow> if hd buf = 0 then (Inl ErrCanonSize, s) else (Inr (be_value buf), s)))"

text \<open>\<open>readKind\<close> returns the kind, the size and an error, which may all be meaningful.\<close>

definition long_size :: "Kind \<Rightarrow> nat \<Rightarrow> Stream \<Rightarrow> (Kind \<times> nat \<times> rlp_error option) \<times> Stream" where
  "long_size k n s0 =
     (case readUint n s0 of
        (Inl e, s) \<Rightarrow> ((k, 0, Some e), s)
      | (Inr sz, s) \<Rightarrow> ((k, sz, if sz < 56 then Some ErrCanonSize else None), s))"

definition stream_readKind :: "Stream \<Rightarrow> (Kind \<times> nat \<times> rlp_error option) \<times> Stream" where
  "stream_readKind s0 =
     (case readByte s0 of
        (Inl e, s) \<Rightarrow>
          ((KByte, 0, Some (if stack s = [] \<and> (e = IoUnexpectedEOF \<or> e = ErrValueTooLarge)
                            then IoEOF else e)), s)
      | (Inr b, s1) \<Rightarrow>
          (let s = s1\<lparr>byteval := 0\<rparr> in
           if b < 0x80 then ((KByte, 0, None), s\<lparr>byteval := b\<rparr>)
           else if b < 0xB8 then ((KString, unat (b - 0x80), None), s)
           else if b < 0xC0 then long_size KString (unat (b - 0xB7)) s
           else if b < 0xF8 then ((KList, unat (b - 0xC0), None), s)
           else long_size KList (unat (b - 0xF7)) s))"

text \<open>\<open>Kind\<close> checks the size of the value ahead against the enclosing list or the input and keeps
  the error for the following calls.\<close>

definition kind_check :: "nat \<Rightarrow> Stream \<Rightarrow> rlp_error option" where
  "kind_check sz s =
     (case stack s of
        [] \<Rightarrow> if limited s \<and> remaining s < sz then Some ErrValueTooLarge else None
      | (pos, lsz) # st \<Rightarrow> if u64_sub lsz pos < sz then Some ErrElemTooLarge else None)"

definition kind_result :: "Stream \<Rightarrow> (Kind \<times> nat) decode" where
  "kind_result s =
     (case kinderr s of Some e \<Rightarrow> (Inl e, s) | None \<Rightarrow> (Inr (the (skind s), ssize s), s))"

definition stream_Kind :: "Stream \<Rightarrow> (Kind \<times> nat) decode" where
  "stream_Kind s0 =
     (if skind s0 \<noteq> None then kind_result s0
      else
        (let s = s0\<lparr>kinderr := None\<rparr> in
         if (case stack s of [] \<Rightarrow> False | (pos, sz) # st \<Rightarrow> pos = sz) then (Inl EOL, s)
         else
           (case stream_readKind s of ((k, sz, err), s1) \<Rightarrow>
              kind_result (s1\<lparr>skind := Some k, ssize := sz,
                kinderr := (case err of Some e \<Rightarrow> Some e | None \<Rightarrow> kind_check sz s1)\<rparr>))))"

subsection \<open>Values\<close>

definition stream_Bytes :: "Stream \<Rightarrow> byte list decode" where
  "stream_Bytes s0 =
     (case stream_Kind s0 of
        (Inl e, s) \<Rightarrow> (Inl e, s)
      | (Inr (KByte, sz), s) \<Rightarrow> (Inr [byteval s], s\<lparr>skind := None\<rparr>)
      | (Inr (KString, sz), s) \<Rightarrow>
          (case readFull sz s of
             (Inl e, s1) \<Rightarrow> (Inl e, s1)
           | (Inr b, s1) \<Rightarrow> if sz = 1 \<and> hd b < 128 then (Inl ErrCanonSize, s1) else (Inr b, s1))
      | (Inr (KList, sz), s) \<Rightarrow> (Inl ErrExpectedString, s))"

definition stream_Raw :: "Stream \<Rightarrow> byte list decode" where
  "stream_Raw s0 =
     (case stream_Kind s0 of
        (Inl e, s) \<Rightarrow> (Inl e, s)
      | (Inr (k, sz), s) \<Rightarrow>
          if k = KByte then (Inr [byteval s], s\<lparr>skind := None\<rparr>)
          else (case readFull sz s of
                  (Inl e, s1) \<Rightarrow> (Inl e, s1)
                | (Inr content, s1) \<Rightarrow>
                    (Inr ((if k = KString then puthead 0x80 0xB7 (of_nat sz)
                           else puthead 0xC0 0xF7 (of_nat sz)) @ content), s1)))"

definition stream_uint :: "nat \<Rightarrow> Stream \<Rightarrow> nat decode" where
  "stream_uint maxbits s0 =
     (case stream_Kind s0 of
        (Inl e, s) \<Rightarrow> (Inl e, s)
      | (Inr (KByte, sz), s) \<Rightarrow>
          if byteval s = 0 then (Inl ErrCanonInt, s)
          else (Inr (unat (byteval s)), s\<lparr>skind := None\<rparr>)
      | (Inr (KString, sz), s) \<Rightarrow>
          if maxbits div 8 < sz then (Inl ErrUintOverflow, s)
          else (case readUint sz s of
                  (Inl e, s1) \<Rightarrow> (Inl (if e = ErrCanonSize then ErrCanonInt else e), s1)
                | (Inr v, s1) \<Rightarrow> if 0 < sz \<and> v < 128 then (Inl ErrCanonSize, s1) else (Inr v, s1))
      | (Inr (KList, sz), s) \<Rightarrow> (Inl ErrExpectedString, s))"

definition stream_List :: "Stream \<Rightarrow> nat decode" where
  "stream_List s0 =
     (case stream_Kind s0 of
        (Inl e, s) \<Rightarrow> (Inl e, s)
      | (Inr (k, sz), s) \<Rightarrow>
          if k \<noteq> KList then (Inl ErrExpectedList, s)
          else (Inr sz, s\<lparr>stack := (0, sz) # stack s, skind := None, ssize := 0\<rparr>))"

definition stream_ListEnd :: "Stream \<Rightarrow> unit decode" where
  "stream_ListEnd s =
     (case stack s of
        [] \<Rightarrow> (Inl ErrNotInList, s)
      | (pos, sz) # st \<Rightarrow>
          if pos \<noteq> sz then (Inl ErrNotAtEOL, s)
          else (Inr (), s\<lparr>stack := (case st of [] \<Rightarrow> [] | (p, z) # st' \<Rightarrow> (u64_add p sz, z) # st'),
                          skind := None, ssize := 0\<rparr>))"

subsection \<open>Decoding into Go values\<close>

fun wrapStreamError :: "rlp_error \<Rightarrow> rlp_error" where
  "wrapStreamError ErrCanonInt = DecodeError ''non-canonical integer (leading zero bytes)''"
| "wrapStreamError ErrCanonSize = DecodeError ''non-canonical size information''"
| "wrapStreamError ErrExpectedList = DecodeError ''expected input list''"
| "wrapStreamError ErrExpectedString = DecodeError ''expected input string or byte''"
| "wrapStreamError ErrUintOverflow = DecodeError ''input string too long''"
| "wrapStreamError ErrNotAtEOL = DecodeError ''input list has too many elements''"
| "wrapStreamError e = e"

definition decodeByteArray :: "nat \<Rightarrow> Stream \<Rightarrow> byte list decode" where
  "decodeByteArray vlen s0 =
     (case stream_Kind s0 of
        (Inl e, s) \<Rightarrow> (Inl e, s)
      | (Inr (KByte, sz), s) \<Rightarrow>
          if vlen = 0 then (Inl (DecodeError ''input string too long''), s)
          else if 1 < vlen then (Inl (DecodeError ''input string too short''), s)
          else (case stream_uint 64 s of (Inl e, s1) \<Rightarrow> (Inr [0], s1) | (Inr v, s1) \<Rightarrow> (Inr [of_nat v], s1))
      | (Inr (KString, sz), s) \<Rightarrow>
          if vlen < sz then (Inl (DecodeError ''input string too long''), s)
          else if sz < vlen then (Inl (DecodeError ''input string too short''), s)
          else (case readFull vlen s of
                  (Inl e, s1) \<Rightarrow> (Inl e, s1)
                | (Inr b, s1) \<Rightarrow> if sz = 1 \<and> hd b < 128 then (Inl (wrapStreamError ErrCanonSize), s1)
                                else (Inr b, s1))
      | (Inr (KList, sz), s) \<Rightarrow> (Inl (wrapStreamError ErrExpectedString), s))"

fun decodeSliceElems :: "nat \<Rightarrow> (Stream \<Rightarrow> 'a decode) \<Rightarrow> Stream \<Rightarrow> 'a list decode" where
  "decodeSliceElems 0 elemdec s = (Inl OutOfFuel, s)"
| "decodeSliceElems (Suc n) elemdec s =
     (case elemdec s of
        (Inl e, s1) \<Rightarrow> if e = EOL then (Inr [], s1) else (Inl e, s1)
      | (Inr x, s1) \<Rightarrow> (case decodeSliceElems n elemdec s1 of
                         (Inl e, s2) \<Rightarrow> (Inl e, s2)
                       | (Inr xs, s2) \<Rightarrow> (Inr (x # xs), s2)))"

definition decodeListSlice :: "(Stream \<Rightarrow> 'a decode) \<Rightarrow> Stream \<Rightarrow> 'a list decode" where
  "decodeListSlice elemdec s0 =
     (case stream_List s0 of
        (Inl e, s) \<Rightarrow> (Inl (wrapStreamError e), s)
      | (Inr sz, s) \<Rightarrow>
          (case (if sz = 0 then (Inr [], s)
                 else decodeSliceElems (Suc (length (input s))) elemdec s) of
             (Inl e, s1) \<Rightarrow> (Inl e, s1)
           | (Inr xs, s1) \<Rightarrow> (case stream_ListEnd s1 of
                               (Inl e, s2) \<Rightarrow> (Inl e, s2)
                             | (Inr _, s2) \<Rightarrow> (Inr xs, s2))))"

fun decodeInterface :: "nat \<Rightarrow> Stream \<Rightarrow> rlp_value decode" where
  "decodeInterface 0 s0 =
     (case stream_Kind s0 of (Inl e, s) \<Rightarrow> (Inl e, s) | (Inr _, s) \<Rightarrow> (Inl OutOfFuel, s))"
| "decodeInterface (Suc n) s0 =
     (case stream_Kind s0 of
        (Inl e, s) \<Rightarrow> (Inl e, s)
      | (Inr (k, sz), s) \<Rightarrow>
          if k = KList then
            (case decodeListSlice (decodeInterface n) s of
               (Inl e, s1) \<Rightarrow> (Inl e, s1)
             | (Inr vs, s1) \<Rightarrow> (Inr (VList vs), s1))
          else
            (case stream_Bytes s of (Inl e, s1) \<Rightarrow> (Inl e, s1) | (Inr b, s1) \<Rightarrow> (Inr (VBytes b), s1)))"

definition DecodeBytes :: "(Stream \<Rightarrow> 'a decode) \<Rightarrow> byte list \<Rightarrow> rlp_error + 'a" where
  "DecodeBytes dec b =
     (case dec (NewStream b) of
        (Inl e, s) \<Rightarrow> Inl e
      | (Inr v, s) \<Rightarrow> if input s \<noteq> [] then Inl ErrMoreThanOneValue else Inr v)"

subsection \<open>Well-formed streams\<close>

text \<open>In a well-formed stream no unsigned arithmetic wraps: every position is within its list, a
  list being decoded fits in the list around it, and the limit is what is left of the input.
  \<open>avail\<close> is how much may still be read, \<open>advance n\<close> the stream after reading \<open>n\<close> bytes.\<close>

fun stack_ok :: "(nat \<times> nat) list \<Rightarrow> bool" where
  "stack_ok [] = True"
| "stack_ok ((p, z) # st) =
     (p \<le> z \<and> z < 2 ^ 64 \<and> (case st of [] \<Rightarrow> True | (p', z') # _ \<Rightarrow> p' + z \<le> z') \<and> stack_ok st)"

definition good :: "Stream \<Rightarrow> bool" where
  "good s \<longleftrightarrow> limited s \<and> remaining s = length (input s) \<and> length (input s) < 2 ^ 64
     \<and> stack_ok (stack s)"

fun bump :: "nat \<Rightarrow> (nat \<times> nat) list \<Rightarrow> (nat \<times> nat) list" where
  "bump n [] = []"
| "bump n ((p, z) # st) = (p + n, z) # st"

definition avail :: "Stream \<Rightarrow> nat" where
  "avail s = (case stack s of [] \<Rightarrow> length (input s) | (p, z) # _ \<Rightarrow> min (z - p) (length (input s)))"

definition advance :: "nat \<Rightarrow> Stream \<Rightarrow> Stream" where
  "advance n s = s\<lparr>input := drop n (input s), remaining := remaining s - n, skind := None,
     stack := bump n (stack s)\<rparr>"

lemma u64_sub_ok: "b \<le> a \<Longrightarrow> a < 2 ^ 64 \<Longrightarrow> u64_sub a b = a - b"
  by (simp add: u64_sub_def mod_if)

lemma u64_add_ok: "a + b < 2 ^ 64 \<Longrightarrow> u64_add a b = a + b"
  by (simp add: u64_add_def)

lemma bump_bump [simp]: "bump m (bump n st) = bump (n + m) st"
  by (cases st) auto

lemma bump_0 [simp]: "bump 0 st = st"
  by (cases st) auto

lemma bump_eq_Nil [simp]: "bump n st = [] \<longleftrightarrow> st = []"
  by (cases st) auto

lemma advance_advance [simp]: "advance m (advance n s) = advance (n + m) s"
  by (simp add: advance_def add.commute)

lemma advance_simps [simp]:
  "input (advance n s) = drop n (input s)" "skind (advance n s) = None"
  "stack (advance n s) = bump n (stack s)" "remaining (advance n s) = remaining s - n"
  "limited (advance n s) = limited s"
  by (simp_all add: advance_def)

lemma good_advance: "good s \<Longrightarrow> n \<le> avail s \<Longrightarrow> good (advance n s)"
  by (cases "stack s") (auto simp: good_def advance_def avail_def)

lemma avail_advance: "avail (advance n s) = avail s - n"
  by (cases "stack s") (auto simp: advance_def avail_def)

lemma avail_le: "avail s \<le> length (input s)"
  by (cases "stack s") (auto simp: avail_def)

lemma good_field_updates [simp]:
  "good (s\<lparr>skind := k\<rparr>) = good s" "good (s\<lparr>ssize := n\<rparr>) = good s" "good (s\<lparr>byteval := b\<rparr>) = good s"
  "good (s\<lparr>kinderr := e\<rparr>) = good s" "avail (s\<lparr>skind := k\<rparr>) = avail s"
  "avail (s\<lparr>ssize := n\<rparr>) = avail s" "avail (s\<lparr>byteval := b\<rparr>) = avail s"
  "avail (s\<lparr>kinderr := e\<rparr>) = avail s" "advance n (s\<lparr>skind := k\<rparr>) = advance n s"
  "advance n (s\<lparr>ssize := m\<rparr>) = (advance n s)\<lparr>ssize := m\<rparr>"
  "advance n (s\<lparr>byteval := b\<rparr>) = (advance n s)\<lparr>byteval := b\<rparr>"
  "advance n (s\<lparr>kinderr := e\<rparr>) = (advance n s)\<lparr>kinderr := e\<rparr>"
  by (simp_all add: good_def avail_def advance_def split: list.split)

text \<open>Reading succeeds exactly when the bytes are available, and advances the stream.\<close>

lemma willRead_ok:
  assumes "good s" "n \<le> avail s"
  shows "willRead n s = (Inr (), (advance n s)\<lparr>input := input s\<rparr>)"
proof (cases "stack s")
  case Nil
  with assms show ?thesis
    by (simp add: willRead_def good_def avail_def advance_def Let_def u64_sub_ok)
next
  case (Cons a st)
  obtain p z where a: "a = (p, z)" by (cases a)
  with assms Cons have "p \<le> z" "z < 2 ^ 64" "n \<le> z - p" by (auto simp: good_def avail_def)
  then have "u64_sub z p = z - p" "u64_add p n = p + n" by (simp_all add: u64_sub_ok u64_add_ok)
  with assms Cons a show ?thesis
    by (simp add: willRead_def good_def avail_def advance_def Let_def u64_sub_ok)
qed

lemma willRead_fails:
  assumes "good s" "avail s < n"
  shows "\<exists>e s'. willRead n s = (Inl e, s') \<and> e \<in> {ErrElemTooLarge, ErrValueTooLarge}
    \<and> length (input s') \<le> length (input s)"
proof (cases "stack s")
  case Nil
  with assms show ?thesis by (simp add: willRead_def good_def avail_def Let_def)
next
  case (Cons a st)
  with assms show ?thesis
    by (cases a) (auto simp: willRead_def good_def avail_def Let_def u64_sub_ok)
qed

lemma readByte_ok:
  assumes "good s" "0 < avail s"
  shows "readByte s = (Inr (hd (input s)), advance 1 s)"
proof -
  have "input s \<noteq> []" using assms(2) avail_le [of s] by auto
  then show ?thesis
    using willRead_ok [OF assms(1), of 1] assms(2)
    by (cases "input s") (simp_all add: readByte_def advance_def)
qed

lemma readFull_ok:
  "good s \<Longrightarrow> n \<le> avail s \<Longrightarrow> readFull n s = (Inr (take n (input s)), advance n s)"
  using avail_le [of s] by (simp add: readFull_def willRead_ok advance_def)

lemma readByte_Inr: "good s \<Longrightarrow> readByte s = (Inr b, s') \<Longrightarrow> 0 < avail s"
  using willRead_fails [of s 1] by (fastforce simp: readByte_def split: prod.splits)

lemma readFull_Inr: "good s \<Longrightarrow> readFull n s = (Inr b, s') \<Longrightarrow> n \<le> avail s"
  using willRead_fails [of s n] by (fastforce simp: readFull_def split: prod.splits)

subsection \<open>Headers\<close>

text \<open>\<open>head_of k sz h\<close>: \<open>h\<close> is the canonical header of a value of kind \<open>k\<close> and size \<open>sz\<close>; a single
  byte is its own header.\<close>

fun head_of :: "Kind \<Rightarrow> nat \<Rightarrow> byte list \<Rightarrow> bool" where
  "head_of KByte sz h = (sz = 0 \<and> (\<exists>b. h = [b] \<and> b < 0x80))"
| "head_of KString sz h = (h = spec_head 0x80 0xB7 sz)"
| "head_of KList sz h = (h = spec_head 0xC0 0xF7 sz)"

lemma unat_byte_less: "unat (b :: byte) < 256"
  using unsigned_less [of b] by simp

lemma readUint_ok:
  assumes "good s" "56 \<le> n" "length (nat_bytes n) \<le> avail s"
    and "take (length (nat_bytes n)) (input s) = nat_bytes n"
  shows "readUint (length (nat_bytes n)) s = (Inr n, advance (length (nat_bytes n)) s)"
proof -
  have ne: "nat_bytes n \<noteq> []" using assms(2) by simp
  show ?thesis
  proof (cases "length (nat_bytes n) = 1")
    case True
    then obtain b where b: "nat_bytes n = [b]" by (cases "nat_bytes n") auto
    with assms(3,4) avail_le [of s] have "hd (input s) = b" by (cases "input s") auto
    moreover have "n = unat b" using be_value_nat_bytes [of n] b by simp
    ultimately show ?thesis
      using assms b by (simp add: readUint_def readByte_ok)
  next
    case False
    then have "readUint (length (nat_bytes n)) s
      = (if hd (nat_bytes n) = 0 then (Inl ErrCanonSize, advance (length (nat_bytes n)) s)
         else (Inr (be_value (nat_bytes n)), advance (length (nat_bytes n)) s))"
      using ne assms by (simp add: readUint_def readFull_ok)
    with hd_nat_bytes [of n] assms(2) show ?thesis by simp
  qed
qed

lemma readUint_Inr:
  assumes "good s" "readUint k s = (Inr n, s')" "0 < k" "56 \<le> n" "k \<le> 8"
  shows "k \<le> avail s \<and> take k (input s) = nat_bytes n \<and> length (nat_bytes n) = k
    \<and> s' = advance k s \<and> n < 2 ^ 64"
proof (cases "k = 1")
  case True
  with assms obtain b where r: "readByte s = (Inr b, s')" "n = unat b"
    by (auto simp: readUint_def split: prod.splits sum.splits)
  then have av: "0 < avail s" using readByte_Inr assms(1) by blast
  with r readByte_ok [OF assms(1)] have b: "b = hd (input s)" "s' = advance 1 s" by simp_all
  have "b \<noteq> 0" using r(2) assms(4) by auto
  then have "nat_bytes n = [b]" using nat_bytes_be_value [of "[b]"] r(2) by simp
  moreover have "take 1 (input s) = [b]" using av avail_le [of s] b by (cases "input s") auto
  moreover have "n < 2 ^ 64" using r(2) unat_byte_less [of b] by simp
  ultimately show ?thesis using True av b by simp
next
  case False
  with assms(2,3) obtain buf where r: "readFull k s = (Inr buf, s')" "hd buf \<noteq> 0" "n = be_value buf"
    by (auto simp: readUint_def split: prod.splits sum.splits if_splits)
  then have av: "k \<le> avail s" using readFull_Inr assms(1) by blast
  with r readFull_ok [OF assms(1)] have b: "buf = take k (input s)" "s' = advance k s" by simp_all
  have l: "length buf = k" using b av avail_le [of s] by simp
  have "n < 256 ^ k" using be_value_less [of buf] r(3) l by simp
  also have "(256 :: nat) ^ k \<le> 256 ^ 8" using assms(5) by (intro power_increasing) simp_all
  finally show ?thesis using nat_bytes_be_value [of buf] r b l av by simp
qed

lemma long_size_ok:
  assumes "good s" "56 \<le> n" "length (nat_bytes n) \<le> avail s"
    and "take (length (nat_bytes n)) (input s) = nat_bytes n"
  shows "long_size k (length (nat_bytes n)) s = ((k, n, None), advance (length (nat_bytes n)) s)"
  using assms by (simp add: long_size_def readUint_ok)

lemma long_size_None:
  assumes "good s" "long_size k n s = ((k', sz, None), s')" "0 < n" "n \<le> 8"
  shows "k' = k \<and> 56 \<le> sz \<and> n \<le> avail s \<and> take n (input s) = nat_bytes sz
    \<and> length (nat_bytes sz) = n \<and> s' = advance n s \<and> sz < 2 ^ 64"
proof -
  from assms(2) have "k' = k" "56 \<le> sz" "readUint n s = (Inr sz, s')"
    by (auto simp: long_size_def split: prod.splits sum.splits if_splits)
  with readUint_Inr [OF assms(1) _ assms(3) _ assms(4)] show ?thesis by blast
qed

lemma byte_tag: "unat (t :: byte) + n < 256 \<Longrightarrow> unat (t + of_nat n) = unat t + n"
  by (simp add: unat_word_ariths unat_of_nat)

lemma byte_diff: "t \<le> (b :: byte) \<Longrightarrow> unat (b - t) = unat b - unat t"
  by (simp add: unat_sub)

text \<open>A canonical header is read back, with the stream advanced past it.\<close>

lemma stream_readKind_ok:
  assumes "good s" "head_of k sz h" "length h \<le> avail s" "input s = h @ rest"
    and "sz < 2 ^ 64"
  shows "\<exists>bv. stream_readKind s = ((k, sz, None), (advance (length h) s)\<lparr>byteval := bv\<rparr>)
    \<and> (k = KByte \<longrightarrow> h = [bv])"
proof -
  have h: "h \<noteq> []" using assms(2) by (cases k) (auto simp: spec_head_def)
  then have av: "0 < avail s" using assms(3) by (cases h) auto
  have hd_h: "hd (input s) = hd h" using h assms(4) by simp
  note rb = readByte_ok [OF assms(1) av, unfolded hd_h]
  have long: "long_size k' (length (nat_bytes sz)) ((advance 1 s)\<lparr>byteval := 0\<rparr>)
      = ((k', sz, None), (advance (length h) s)\<lparr>byteval := 0\<rparr>)"
    if "h = t # nat_bytes sz" "\<not> sz < 56" for k' t
    using that assms(1,3,4) av long_size_ok [of "(advance 1 s)\<lparr>byteval := 0\<rparr>" sz k']
    by (simp add: good_advance avail_advance)
  have small: "unat (of_nat sz :: byte) = sz" if "sz < 56" using that by (simp add: unat_of_nat)
  have l8: "length (nat_bytes sz) \<le> 8" using length_nat_bytes [of sz 8] assms(5) by simp
  then have lb: "unat (of_nat (length (nat_bytes sz)) :: byte) = length (nat_bytes sz)"
    by (simp add: unat_of_nat)
  have l1: "0 < length (nat_bytes sz)" if "\<not> sz < 56" using that by simp
  show ?thesis
  proof (cases k)
    case KByte
    with assms(2) rb show ?thesis by (auto simp: stream_readKind_def)
  next
    case KString
    show ?thesis
    proof (cases "sz < 56")
      case True
      with KString assms(2) have "h = [0x80 + of_nat sz]" by (simp add: spec_head_def)
      with True rb KString show ?thesis
        using byte_tag [of "0x80" sz] small by (auto simp: stream_readKind_def word_less_nat_alt Let_def)
    next
      case False
      with KString assms(2) have e: "h = (0xB7 + of_nat (length (nat_bytes sz))) # nat_bytes sz"
        by (simp add: spec_head_def)
      with long [OF this False, of KString] rb KString show ?thesis
        using byte_tag [of "0xB7" "length (nat_bytes sz)"] l8 l1 [OF False] lb
        by (auto simp: stream_readKind_def word_less_nat_alt Let_def)
    qed
  next
    case KList
    show ?thesis
    proof (cases "sz < 56")
      case True
      with KList assms(2) have "h = [0xC0 + of_nat sz]" by (simp add: spec_head_def)
      with True rb KList show ?thesis
        using byte_tag [of "0xC0" sz] small by (auto simp: stream_readKind_def word_less_nat_alt Let_def)
    next
      case False
      with KList assms(2) have e: "h = (0xF7 + of_nat (length (nat_bytes sz))) # nat_bytes sz"
        by (simp add: spec_head_def)
      with long [OF this False, of KList] rb KList show ?thesis
        using byte_tag [of "0xF7" "length (nat_bytes sz)"] l8 l1 [OF False] lb
        by (auto simp: stream_readKind_def word_less_nat_alt Let_def)
    qed
  qed
qed

text \<open>Conversely, a header that is accepted is canonical.\<close>

lemma byte_minus_tag: "(t :: byte) \<le> b \<Longrightarrow> t + of_nat (unat (b - t)) = b"
  by simp

lemma stream_readKind_None:
  assumes "good s" "stream_readKind s = ((k, sz, None), s')"
  shows "\<exists>h bv. head_of k sz h \<and> length h \<le> avail s \<and> take (length h) (input s) = h
    \<and> s' = (advance (length h) s)\<lparr>byteval := bv\<rparr> \<and> (k = KByte \<longrightarrow> h = [bv]) \<and> sz < 2 ^ 64"
proof -
  from assms(2) obtain b s1 where rb: "readByte s = (Inr b, s1)"
    by (auto simp: stream_readKind_def split: prod.splits sum.splits)
  then have av: "0 < avail s" using readByte_Inr assms(1) by blast
  with rb readByte_ok [OF assms(1)] have b: "hd (input s) = b" "s1 = advance 1 s" by simp_all
  then obtain rest where inp: "input s = b # rest" using av avail_le [of s] by (cases "input s") auto
  let ?s1 = "(advance 1 s)\<lparr>byteval := 0\<rparr>"
  have long: "56 \<le> sz \<and> Suc n \<le> avail s \<and> take n rest = nat_bytes sz \<and> length (nat_bytes sz) = n
      \<and> s' = (advance (Suc n) s)\<lparr>byteval := 0\<rparr> \<and> sz < 2 ^ 64 \<and> k = k'"
    if "long_size k' n ?s1 = ((k, sz, None), s')" "0 < n" "n \<le> 8" for k' n
    using long_size_None [OF _ that] assms(1) av inp by (auto simp: good_advance avail_advance)
  have nb: "unat b < 256" by (rule unat_byte_less)
  note k = assms(2) [unfolded stream_readKind_def rb prod.case sum.case b(2) Let_def]
  consider "b < 0x80" | "0x80 \<le> b" "b < 0xB8" | "0xB8 \<le> b" "b < 0xC0" | "0xC0 \<le> b" "b < 0xF8"
    | "0xF8 \<le> b" using not_le by blast
  then show ?thesis
  proof cases
    case 1
    with k show ?thesis using av inp by (intro exI [of _ "[b]"] exI [of _ b]) auto
  next
    case 2
    then have "sz < 56" "0x80 + of_nat sz = b" "k = KString" "s' = ?s1"
      using k byte_minus_tag [of "0x80" b] byte_diff [of "0x80" b]
      by (auto simp: word_less_nat_alt word_le_nat_alt)
    then show ?thesis
      using av inp by (intro exI [of _ "[b]"] exI [of _ 0]) (auto simp: spec_head_def)
  next
    case 3
    then have u: "unat (b - 0xB7) = unat b - 0xB7"
      by (intro byte_diff [of "0xB7", simplified]) (simp add: word_le_nat_alt)
    with 3 have "0 < unat (b - 0xB7)" "unat (b - 0xB7) \<le> 8" by (auto simp: word_less_nat_alt word_le_nat_alt)
    moreover have "long_size KString (unat (b - 0xB7)) ?s1 = ((k, sz, None), s')"
      using k 3 by (auto simp: word_less_nat_alt word_le_nat_alt)
    ultimately show ?thesis
      using long [of KString "unat (b - 0xB7)"] inp byte_minus_tag [of "0xB7" b] 3
      by (intro exI [of _ "b # nat_bytes sz"] exI [of _ 0]) (auto simp: spec_head_def word_le_nat_alt)
  next
    case 4
    then have "sz < 56" "0xC0 + of_nat sz = b" "k = KList" "s' = ?s1"
      using k byte_minus_tag [of "0xC0" b] byte_diff [of "0xC0" b]
      by (auto simp: word_less_nat_alt word_le_nat_alt)
    then show ?thesis
      using av inp by (intro exI [of _ "[b]"] exI [of _ 0]) (auto simp: spec_head_def)
  next
    case 5
    then have u: "unat (b - 0xF7) = unat b - 0xF7"
      by (intro byte_diff [of "0xF7", simplified]) (simp add: word_le_nat_alt)
    with 5 nb have "0 < unat (b - 0xF7)" "unat (b - 0xF7) \<le> 8" by (auto simp: word_less_nat_alt word_le_nat_alt)
    moreover have "long_size KList (unat (b - 0xF7)) ?s1 = ((k, sz, None), s')"
      using k 5 by (auto simp: word_less_nat_alt word_le_nat_alt)
    ultimately show ?thesis
      using long [of KList "unat (b - 0xF7)"] inp byte_minus_tag [of "0xF7" b] 5
      by (intro exI [of _ "b # nat_bytes sz"] exI [of _ 0]) (auto simp: spec_head_def word_le_nat_alt)
  qed
qed

subsection \<open>The kind of the value ahead\<close>

text \<open>Two streams with the same \<open>core\<close> differ only in what \<open>Kind\<close> will overwrite.\<close>

definition core :: "Stream \<Rightarrow> Stream" where
  "core s = s\<lparr>ssize := 0, byteval := 0, kinderr := None\<rparr>"

definition at_end :: "Stream \<Rightarrow> bool" where
  "at_end s \<longleftrightarrow> (case stack s of [] \<Rightarrow> False | (pos, sz) # st \<Rightarrow> pos = sz)"

definition room :: "nat \<Rightarrow> Stream \<Rightarrow> bool" where
  "room n s \<longleftrightarrow> (case stack s of [] \<Rightarrow> n \<le> length (input s) | (p, z) # st \<Rightarrow> n \<le> z - p)"

lemma core_eqD:
  assumes "core s = core s'"
  shows "input s = input s'" "stack s = stack s'" "skind s = skind s'" "remaining s = remaining s'"
    "limited s = limited s'"
proof -
  have "f (core s) = f (core s')" for f :: "Stream \<Rightarrow> 'a" using assms by simp
  from this [of input] this [of stack] this [of skind] this [of remaining] this [of limited]
  show "input s = input s'" "stack s = stack s'" "skind s = skind s'" "remaining s = remaining s'"
    "limited s = limited s'" by (simp_all add: core_def)
qed

lemma core_simps [simp]:
  "core (s\<lparr>ssize := n\<rparr>) = core s" "core (s\<lparr>byteval := b\<rparr>) = core s" "core (s\<lparr>kinderr := e\<rparr>) = core s"
  by (simp_all add: core_def)

lemma core_eq_good: "core s = core s' \<Longrightarrow> good s = good s' \<and> avail s = avail s' \<and> at_end s = at_end s'"
  using core_eqD [of s s'] by (simp add: good_def avail_def at_end_def split: list.split)

lemma core_eq_advance: "core s = core s' \<Longrightarrow> core (advance n s) = core (advance n s')"
proof -
  assume "core s = core s'"
  moreover have "core (advance n t) = advance n (core t)" for t
    by (simp add: core_def advance_def)
  ultimately show ?thesis by simp
qed

lemma avail_0_at_end: "at_end s \<Longrightarrow> avail s = 0"
  by (auto simp: at_end_def avail_def split: list.splits)

definition pending :: "Kind \<Rightarrow> nat \<Rightarrow> byte \<Rightarrow> Stream \<Rightarrow> Stream" where
  "pending k sz bv s = s\<lparr>byteval := bv, skind := Some k, ssize := sz, kinderr := None\<rparr>"

lemma stream_Kind_ok:
  assumes "good s" "skind s = None" "head_of k sz h" "length h + sz \<le> avail s" "input s = h @ rest"
    and "sz < 2 ^ 64"
  shows "\<exists>bv. stream_Kind s = (Inr (k, sz), pending k sz bv (advance (length h) s))
    \<and> (k = KByte \<longrightarrow> h = [bv])"
proof -
  let ?s = "s\<lparr>kinderr := None\<rparr>"
  have "h \<noteq> []" using assms(3) by (cases k) (auto simp: spec_head_def)
  then have "\<not> at_end ?s" using avail_0_at_end [of ?s] assms(4) by auto
  moreover have "\<exists>bv. stream_readKind ?s = ((k, sz, None), (advance (length h) ?s)\<lparr>byteval := bv\<rparr>)
      \<and> (k = KByte \<longrightarrow> h = [bv])"
    using assms by (intro stream_readKind_ok [of _ _ _ _ rest]) auto
  then obtain bv where
    r: "stream_readKind ?s = ((k, sz, None), (advance (length h) ?s)\<lparr>byteval := bv\<rparr>)"
      "k = KByte \<longrightarrow> h = [bv]" by blast
  ultimately show ?thesis
    using assms(1,2,4)
    by (intro exI [of _ bv], cases "stack s")
      (auto simp: stream_Kind_def kind_result_def kind_check_def Let_def at_end_def good_def avail_def pending_def u64_sub_ok)
qed

lemma stream_Kind_Inr:
  assumes "good s" "skind s = None" "stream_Kind s = (Inr (k, sz), s')"
  shows "\<exists>h bv. head_of k sz h \<and> length h \<le> avail s \<and> take (length h) (input s) = h
    \<and> s' = pending k sz bv (advance (length h) s) \<and> (k = KByte \<longrightarrow> h = [bv]) \<and> sz < 2 ^ 64
    \<and> room sz (advance (length h) s)"
proof -
  let ?s = "s\<lparr>kinderr := None\<rparr>"
  obtain k' sz' err s1 where r: "stream_readKind ?s = ((k', sz', err), s1)"
    by (metis prod.exhaust)
  with assms(2,3) have e: "err = None" "k' = k" "sz' = sz" "s' = s1\<lparr>skind := Some k, ssize := sz, kinderr := None\<rparr>"
    and chk: "stack s1 = [] \<Longrightarrow> limited s1 \<Longrightarrow> sz \<le> remaining s1"
      "\<And>p z st. stack s1 = (p, z) # st \<Longrightarrow> sz \<le> u64_sub z p"
    by (auto simp: stream_Kind_def kind_result_def kind_check_def Let_def split: if_splits option.splits list.splits)
  from stream_readKind_None [of ?s k sz s1] assms(1) r e obtain h bv where
    h: "head_of k sz h" "length h \<le> avail s" "take (length h) (input s) = h"
      "s1 = (advance (length h) ?s)\<lparr>byteval := bv\<rparr>" "k = KByte \<longrightarrow> h = [bv]" "sz < 2 ^ 64"
    by auto
  have g: "good (advance (length h) s)" using assms(1) h(2) by (rule good_advance)
  then have "room sz (advance (length h) s)"
    using chk h(4) by (auto simp: room_def good_def u64_sub_ok split: list.splits)
  with h e show ?thesis by (intro exI [of _ h] exI [of _ bv]) (simp add: pending_def)
qed

lemma stream_Kind_pending [simp]: "stream_Kind (pending k sz bv s) = (Inr (k, sz), pending k sz bv s)"
  by (simp add: stream_Kind_def kind_result_def pending_def Let_def)

lemma stream_Kind_at_end:
  "at_end s \<Longrightarrow> skind s = None \<Longrightarrow> stream_Kind s = (Inl EOL, s\<lparr>kinderr := None\<rparr>)"
  by (simp add: stream_Kind_def kind_result_def at_end_def Let_def split: list.splits)

subsection \<open>Entering and leaving a list\<close>

definition push :: "nat \<Rightarrow> Stream \<Rightarrow> Stream" where
  "push sz s = s\<lparr>stack := (0, sz) # stack s\<rparr>"

lemma push_simps [simp]: "input (push sz s) = input s" "stack (push sz s) = (0, sz) # stack s"
  "skind (push sz s) = skind s"
  by (simp_all add: push_def)

lemma good_push: "good s \<Longrightarrow> room sz s \<Longrightarrow> sz < 2 ^ 64 \<Longrightarrow> good (push sz s)"
  by (cases "stack s") (auto simp: good_def push_def room_def)

lemma stream_List_Kind:
  assumes "stream_Kind s = (Inr (KList, sz), pending KList sz bv s1)" "skind s1 = None"
  shows "\<exists>s2. stream_List s = (Inr sz, s2) \<and> core s2 = core (push sz s1)"
  using assms by (simp add: stream_List_def pending_def push_def core_def)

lemma stream_ListEnd_ok:
  assumes "core t = core (advance sz (push sz s))" "good s" "room sz s" "sz < 2 ^ 64"
  shows "\<exists>t'. stream_ListEnd t = (Inr (), t') \<and> core t' = core (advance sz s)"
proof -
  have st: "stack t = (sz, sz) # stack s" using core_eqD(2) [OF assms(1)] by simp
  have c: "core (t\<lparr>stack := x, skind := None\<rparr>) = core ((advance sz s)\<lparr>stack := x\<rparr>)" for x
  proof -
    have "core (t\<lparr>stack := x, skind := None\<rparr>) = (core t)\<lparr>stack := x, skind := None\<rparr>"
      by (simp add: core_def)
    then show ?thesis unfolding assms(1) by (simp add: core_def advance_def push_def)
  qed
  have "(case stack s of [] \<Rightarrow> [] | (p, z) # st' \<Rightarrow> (u64_add p sz, z) # st') = bump sz (stack s)"
    using assms(2-4) by (cases "stack s") (auto simp: good_def room_def u64_add_ok)
  moreover have "core ((advance sz s)\<lparr>stack := bump sz (stack s)\<rparr>) = core (advance sz s)"
    by (simp add: advance_def)
  ultimately show ?thesis
    using c [of "bump sz (stack s)"] by (simp add: stream_ListEnd_def st)
qed

lemma stream_ListEnd_Inr: "stream_ListEnd t = (Inr u, t') \<Longrightarrow> stack t = (p, z) # st \<Longrightarrow> p = z"
  by (auto simp: stream_ListEnd_def split: if_splits)

lemma stream_ListEnd_err: "stream_ListEnd t = (Inl e, t') \<Longrightarrow> e \<noteq> EOL \<and> e \<noteq> OutOfFuel"
  by (auto simp: stream_ListEnd_def split: if_splits list.splits)

text \<open>Only \<open>Kind\<close> reports the end of a list, and it does so before reading.\<close>

lemma willRead_err: "willRead n s = (Inl e, s') \<Longrightarrow> e \<noteq> EOL \<and> e \<noteq> OutOfFuel"
  by (auto simp: willRead_def Let_def split: list.splits if_splits)

lemma readByte_err: "readByte s = (Inl e, s') \<Longrightarrow> e \<noteq> EOL \<and> e \<noteq> OutOfFuel"
  by (auto simp: readByte_def split: prod.splits sum.splits list.splits dest: willRead_err)

lemma readFull_err: "readFull n s = (Inl e, s') \<Longrightarrow> e \<noteq> EOL \<and> e \<noteq> OutOfFuel"
  by (auto simp: readFull_def split: prod.splits sum.splits if_splits dest: willRead_err)

lemma readUint_err: "readUint n s = (Inl e, s') \<Longrightarrow> e \<noteq> EOL \<and> e \<noteq> OutOfFuel"
  by (auto simp: readUint_def split: prod.splits sum.splits if_splits dest: readByte_err readFull_err)

lemma stream_readKind_err: "stream_readKind s = ((k, sz, Some e), s') \<Longrightarrow> e \<noteq> EOL \<and> e \<noteq> OutOfFuel"
  by (auto simp: stream_readKind_def long_size_def Let_def split: prod.splits sum.splits if_splits
      dest: readByte_err readUint_err)

lemma stream_Kind_err:
  assumes "skind s = None" "stream_Kind s = (Inl e, s')"
  shows "e \<noteq> OutOfFuel \<and> (e = EOL \<longrightarrow> core s' = core s)"
proof -
  obtain k sz err s1 where "stream_readKind (s\<lparr>kinderr := None\<rparr>) = ((k, sz, err), s1)"
    by (metis prod.exhaust)
  with assms stream_readKind_err [of "s\<lparr>kinderr := None\<rparr>"] show ?thesis
    by (auto simp: stream_Kind_def kind_result_def kind_check_def Let_def split: if_splits option.splits list.splits)
qed

subsection \<open>The contract of a decoder\<close>

text \<open>What the code relies on when it decodes a value inside a list: the decoder reads back every
  acceptable encoding, accepts nothing else, and reports the end of the list without reading.\<close>

locale element_decoder =
  fixes dec :: "Stream \<Rightarrow> 'a decode"
    and enc :: "'a \<Rightarrow> byte list"
    and ok :: "'a \<Rightarrow> bool"
  assumes dec_enc: "good s \<Longrightarrow> skind s = None \<Longrightarrow> ok x \<Longrightarrow> length (enc x) \<le> avail s \<Longrightarrow>
      input s = enc x @ rest \<Longrightarrow>
      \<exists>s'. dec s = (Inr x, s') \<and> core s' = core (advance (length (enc x)) s)"
    and dec_sound: "good s \<Longrightarrow> skind s = None \<Longrightarrow> dec s = (Inr x, s') \<Longrightarrow>
      ok x \<and> length (enc x) \<le> avail s \<and> take (length (enc x)) (input s) = enc x
      \<and> core s' = core (advance (length (enc x)) s)"
    and dec_at_end: "at_end s \<Longrightarrow> skind s = None \<Longrightarrow> \<exists>s'. dec s = (Inl EOL, s') \<and> core s' = core s"
    and dec_EOL: "good s \<Longrightarrow> skind s = None \<Longrightarrow> dec s = (Inl EOL, s') \<Longrightarrow> core s' = core s"
    and enc_nonempty: "ok x \<Longrightarrow> enc x \<noteq> []"
begin

lemma slice_dec_enc:
  assumes "good s" "skind s = None" "\<forall>x\<in>set xs. ok x" "length xs < fuel"
    and "stack s = (p, z) # st" "z = p + length (concat (map enc xs))"
    and "input s = concat (map enc xs) @ rest"
  shows "\<exists>s'. decodeSliceElems fuel dec s = (Inr xs, s')
    \<and> core s' = core (advance (length (concat (map enc xs))) s)"
  using assms
proof (induction xs arbitrary: s fuel p)
  case Nil
  then obtain n where n: "fuel = Suc n" by (cases fuel) auto
  from Nil have "at_end s" by (simp add: at_end_def)
  from dec_at_end [OF this Nil.prems(2)] obtain s' where s': "dec s = (Inl EOL, s')" "core s' = core s"
    by blast
  have "advance 0 s = s" using Nil.prems(1,2) by (simp add: advance_def)
  with s' n show ?case by simp
next
  case (Cons x xs)
  then obtain n where n: "fuel = Suc n" "length xs < n" by (cases fuel) auto
  let ?k = "length (enc x)"
  have "?k \<le> avail s" using Cons.prems by (simp add: avail_def)
  with Cons.prems obtain s1 where
    s1: "dec s = (Inr x, s1)" "core s1 = core (advance ?k s)"
    using dec_enc [of s x "concat (map enc xs) @ rest"] by auto
  note c = core_eqD [OF s1(2)] core_eq_good [OF s1(2)]
  have "good (advance ?k s)" using Cons.prems(1) \<open>?k \<le> avail s\<close> by (rule good_advance)
  with Cons.IH [of s1 n "p + ?k"] n(2) Cons.prems c obtain s' where
    s': "decodeSliceElems n dec s1 = (Inr xs, s')"
      "core s' = core (advance (length (concat (map enc xs))) s1)" by auto
  moreover have "core (advance (length (concat (map enc xs))) s1)
      = core (advance (length (concat (map enc (x # xs)))) s)"
    using core_eq_advance [OF s1(2), of "length (concat (map enc xs))"] by simp
  ultimately show ?case using s1(1) n(1) by simp
qed

lemma slice_sound:
  assumes "good s" "skind s = None" "decodeSliceElems fuel dec s = (Inr xs, s')"
  shows "(\<forall>x\<in>set xs. ok x) \<and> length (concat (map enc xs)) \<le> avail s
    \<and> take (length (concat (map enc xs))) (input s) = concat (map enc xs)
    \<and> core s' = core (advance (length (concat (map enc xs))) s)"
  using assms
proof (induction fuel arbitrary: s xs)
  case (Suc fuel)
  have adv0: "advance 0 s = s" using Suc.prems(1,2) by (simp add: advance_def)
  show ?case
  proof (cases "fst (dec s)")
    case (Inl e)
    with Suc.prems(3) have "dec s = (Inl EOL, s')" "xs = []"
      by (auto split: prod.splits if_splits)
    with dec_EOL [OF Suc.prems(1,2)] adv0 show ?thesis by simp
  next
    case (Inr x)
    then obtain s1 where s1: "dec s = (Inr x, s1)" by (cases "dec s") auto
    with Suc.prems(3) obtain ys where ys: "decodeSliceElems fuel dec s1 = (Inr ys, s')" "xs = x # ys"
      by (auto split: prod.splits sum.splits)
    let ?k = "length (enc x)" and ?l = "length (concat (map enc ys))"
    from dec_sound [OF Suc.prems(1,2) s1] have x: "ok x" "?k \<le> avail s"
      "take ?k (input s) = enc x" and c: "core s1 = core (advance ?k s)" by auto
    have "good (advance ?k s)" using Suc.prems(1) x(2) by (rule good_advance)
    with Suc.IH [OF _ _ ys(1)] core_eqD [OF c] core_eq_good [OF c] have
      IH: "\<forall>y\<in>set ys. ok y" "?l \<le> avail s - ?k"
        "take ?l (drop ?k (input s)) = concat (map enc ys)" "core s' = core (advance ?l s1)"
      by (auto simp: avail_advance)
    have "core s' = core (advance (?k + ?l) s)"
      using IH(4) core_eq_advance [OF c, of ?l] by simp
    with IH x ys(2) show ?thesis by (simp add: take_add)
  qed
qed simp

lemma slice_fuel:
  assumes "good s" "skind s = None" "length (input s) < fuel"
    and "\<And>s. good s \<Longrightarrow> skind s = None \<Longrightarrow> length (input s) \<le> m \<Longrightarrow> fst (dec s) \<noteq> Inl OutOfFuel"
    and "length (input s) \<le> m"
  shows "fst (decodeSliceElems fuel dec s) \<noteq> Inl OutOfFuel"
  using assms(1-3,5)
proof (induction fuel arbitrary: s)
  case (Suc fuel)
  show ?case
  proof (cases "fst (dec s)")
    case (Inl e)
    with assms(4) [OF Suc.prems(1,2,4)] show ?thesis by (auto split: prod.split if_splits)
  next
    case (Inr x)
    then obtain s1 where s1: "dec s = (Inr x, s1)" by (cases "dec s") auto
    from dec_sound [OF Suc.prems(1,2) s1] have k: "length (enc x) \<le> avail s" "enc x \<noteq> []"
      and c: "core s1 = core (advance (length (enc x)) s)" using enc_nonempty by auto
    have "length (input s1) < length (input s)"
      using core_eqD(1) [OF c] k avail_le [of s] by (cases "enc x") auto
    with Suc.IH [of s1] Suc.prems core_eqD(3) [OF c] core_eq_good [OF c]
      good_advance [OF Suc.prems(1) k(1)]
    have "fst (decodeSliceElems fuel dec s1) \<noteq> Inl OutOfFuel" by simp
    with s1 show ?thesis by (auto split: prod.split sum.split)
  qed
qed simp

end

context element_decoder
begin

definition enc_list :: "'a list \<Rightarrow> byte list" where
  "enc_list xs = spec_list (concat (map enc xs))"

definition ok_list :: "'a list \<Rightarrow> bool" where
  "ok_list xs \<longleftrightarrow> (\<forall>x\<in>set xs. ok x) \<and> length (concat (map enc xs)) < 2 ^ 64"

lemma length_concat_enc: "\<forall>x\<in>set xs. ok x \<Longrightarrow> length xs \<le> length (concat (map enc xs))"
proof (induction xs)
  case (Cons x xs)
  then show ?case using enc_nonempty [of x] by (cases "enc x") auto
qed simp

lemma list_dec_enc:
  assumes "good s" "skind s = None" "ok_list xs" "length (enc_list xs) \<le> avail s"
    and "input s = enc_list xs @ rest"
  shows "\<exists>s'. decodeListSlice dec s = (Inr xs, s') \<and> core s' = core (advance (length (enc_list xs)) s)"
proof -
  let ?c = "concat (map enc xs)"
  let ?h = "spec_head 0xC0 0xF7 (length ?c)"
  let ?s1 = "advance (length ?h) s"
  have e: "enc_list xs = ?h @ ?c" by (simp add: enc_list_def spec_list_def)
  have c64: "length ?c < 2 ^ 64" and ok: "\<forall>x\<in>set xs. ok x" using assms(3) by (simp_all add: ok_list_def)
  from stream_Kind_ok [OF assms(1,2), of KList "length ?c" ?h "?c @ rest"] assms(4,5) e c64
  obtain bv where "stream_Kind s = (Inr (KList, length ?c), pending KList (length ?c) bv ?s1)"
    by auto
  from stream_List_Kind [OF this] obtain s2 where
    s2: "stream_List s = (Inr (length ?c), s2)" "core s2 = core (push (length ?c) ?s1)" by auto
  have g1: "good ?s1" using assms(1,4) e by (intro good_advance) auto
  have "avail ?s1 \<ge> length ?c" using assms(4) e by (simp add: avail_advance)
  then have r: "room (length ?c) ?s1"
    by (auto simp: room_def avail_def split: list.splits)
  note gp = good_push [OF g1 r c64]
  note c2 = core_eqD [OF s2(2)] core_eq_good [OF s2(2)]
  have "\<exists>s3. (if length ?c = 0 then (Inr [], s2) else decodeSliceElems (Suc (length (input s2))) dec s2)
      = (Inr xs, s3) \<and> core s3 = core (advance (length ?c) s2)"
  proof (cases "length ?c = 0")
    case True
    then have "length xs = 0" using length_concat_enc [OF ok] by linarith
    then have "xs = []" by simp
    moreover have "advance 0 s2 = s2" using c2 gp by (simp add: advance_def)
    ultimately show ?thesis by simp
  next
    case False
    have "length xs \<le> length (input s2)"
      using length_concat_enc [OF ok] c2(1) assms(5) e by simp
    moreover have "good s2" "skind s2 = None" "\<forall>x\<in>set xs. ok x"
      "stack s2 = (0, length ?c) # stack ?s1" "input s2 = ?c @ rest"
      using c2 gp assms(3,5) e by (simp_all add: ok_list_def)
    ultimately have "\<exists>s3. decodeSliceElems (Suc (length (input s2))) dec s2 = (Inr xs, s3)
        \<and> core s3 = core (advance (length ?c) s2)"
      by (intro slice_dec_enc [of _ _ _ 0 _ "stack ?s1" rest]) simp_all
    with False show ?thesis by (simp only: if_False)
  qed
  then obtain s3 where s3: "(if length ?c = 0 then (Inr [], s2)
      else decodeSliceElems (Suc (length (input s2))) dec s2) = (Inr xs, s3)"
    and c3: "core s3 = core (advance (length ?c) (push (length ?c) ?s1))"
    using core_eq_advance [OF s2(2), of "length ?c"] by auto
  from stream_ListEnd_ok [OF c3 g1 r c64] obtain t where
    "stream_ListEnd s3 = (Inr (), t)" "core t = core (advance (length ?c) ?s1)" by blast
  with s2(1) s3 e show ?thesis by (simp add: decodeListSlice_def)
qed

lemma list_sound:
  assumes "good s" "skind s = None" "decodeListSlice dec s = (Inr xs, s')"
  shows "ok_list xs \<and> length (enc_list xs) \<le> avail s
    \<and> take (length (enc_list xs)) (input s) = enc_list xs
    \<and> core s' = core (advance (length (enc_list xs)) s)"
proof -
  let ?c = "concat (map enc xs)"
  from assms(3) obtain sz s2 s3 where s2: "stream_List s = (Inr sz, s2)"
    and s3: "(if sz = 0 then (Inr [], s2) else decodeSliceElems (Suc (length (input s2))) dec s2)
      = (Inr xs, s3)"
    and le: "stream_ListEnd s3 = (Inr (), s')"
    by (auto simp: decodeListSlice_def split: prod.splits sum.splits if_splits)
  from s2 obtain bv s1 where k: "stream_Kind s = (Inr (KList, sz), s1)"
    by (auto simp: stream_List_def split: prod.splits sum.splits if_splits)
  from stream_Kind_Inr [OF assms(1,2) k] obtain h bv where
    h: "h = spec_head 0xC0 0xF7 sz" "length h \<le> avail s" "take (length h) (input s) = h"
      "s1 = pending KList sz bv (advance (length h) s)" "sz < 2 ^ 64" "room sz (advance (length h) s)"
    by auto
  let ?s1 = "advance (length h) s"
  have g1: "good ?s1" using assms(1) h(2) by (rule good_advance)
  from stream_List_Kind [OF k [unfolded h(4)]] s2 have c: "core s2 = core (push sz ?s1)" by simp
  note c2 = core_eqD [OF c] core_eq_good [OF c] and gp = good_push [OF g1 h(6,5)]
  have adv0: "advance 0 s2 = s2" using c2(3) by (simp add: advance_def)
  have sl: "(\<forall>x\<in>set xs. ok x) \<and> length ?c \<le> avail s2 \<and> take (length ?c) (input s2) = ?c
      \<and> core s3 = core (advance (length ?c) s2)"
  proof (cases "sz = 0")
    case True
    with s3 adv0 show ?thesis by simp
  next
    case False
    then have "decodeSliceElems (Suc (length (input s2))) dec s2 = (Inr xs, s3)"
      using s3 by (simp only: if_False)
    moreover have "good s2" "skind s2 = None" using gp c2 by simp_all
    ultimately show ?thesis using slice_sound by blast
  qed
  then have c3: "core s3 = core (advance (length ?c) (push sz ?s1))"
    using core_eq_advance [OF c, of "length ?c"] by simp
  from stream_ListEnd_Inr [OF le] core_eqD(2) [OF c3] have sz: "sz = length ?c" by simp
  from stream_ListEnd_ok [OF c3 [folded sz] g1 h(6,5)] le have
    fin: "core s' = core (advance (length ?c) ?s1)" using sz by simp
  have e: "enc_list xs = h @ ?c" by (simp add: enc_list_def spec_list_def h(1) sz)
  have "length ?c \<le> avail ?s1"
    using sl c2 h(6) sz by (auto simp: room_def avail_def split: list.splits)
  with sl fin h(2,3,5) c2(1) sz show ?thesis
    by (simp add: e ok_list_def take_add avail_advance)
qed

lemma slice_not_EOL: "fst (decodeSliceElems fuel dec s) \<noteq> Inl EOL"
  by (induction fuel arbitrary: s) (auto split: prod.split sum.split if_splits, metis fst_conv)

lemma list_EOL:
  assumes "skind s = None" "decodeListSlice dec s = (Inl EOL, s')"
  shows "core s' = core s"
proof -
  have w: "wrapStreamError e = EOL \<longleftrightarrow> e = EOL" for e by (cases e) auto
  have n: "\<not> (sz = 0 \<and> False \<or> (if sz = 0 then (Inr [], t) else decodeSliceElems m dec t) = (Inl EOL, t'))"
    for sz t m t' using slice_not_EOL [of m t] by auto
  from assms(2) have "stream_List s = (Inl EOL, s')"
    by (auto simp: decodeListSlice_def w split: prod.splits sum.splits dest: stream_ListEnd_err)
      (use n in blast)+
  then have "stream_Kind s = (Inl EOL, s')"
    by (auto simp: stream_List_def split: prod.splits sum.splits if_splits)
  with stream_Kind_err [OF assms(1)] show ?thesis by blast
qed

lemma list_contract: "element_decoder (decodeListSlice dec) enc_list ok_list"
proof
  fix s assume "at_end s" "skind s = None"
  then have "stream_List s = (Inl EOL, s\<lparr>kinderr := None\<rparr>)"
    by (simp add: stream_List_def stream_Kind_at_end)
  then show "\<exists>s'. decodeListSlice dec s = (Inl EOL, s') \<and> core s' = core s"
    by (simp add: decodeListSlice_def)
next
  show "enc_list xs \<noteq> []" for xs by (simp add: enc_list_def spec_list_def spec_head_def)
qed (use list_dec_enc list_sound list_EOL in blast)+

end

subsection \<open>Strings\<close>

lemma spec_string_cases:
  obtains (single) b where "bs = [b]" "b < 0x80" "spec_string bs = [b]"
  | (long) "spec_string bs = spec_head 0x80 0xB7 (length bs) @ bs" "\<not> (length bs = 1 \<and> hd bs < 128)"
proof (cases "length bs = 1 \<and> unat (hd bs) < 128")
  case True
  then obtain b where "bs = [b]" by (cases bs) auto
  with True that(1) show ?thesis by (auto simp: spec_string_def word_less_nat_alt)
next
  case False
  with that(2) show ?thesis by (auto simp: spec_string_def word_less_nat_alt)
qed

lemma Bytes_dec_enc:
  assumes "good s" "skind s = None" "length b < 2 ^ 64" "length (spec_string b) \<le> avail s"
    and "input s = spec_string b @ rest"
  shows "\<exists>s'. stream_Bytes s = (Inr b, s') \<and> core s' = core (advance (length (spec_string b)) s)"
proof (cases b rule: spec_string_cases)
  case (single c)
  with stream_Kind_ok [OF assms(1,2), of KByte 0 "[c]" rest] assms(4,5) show ?thesis
    by (auto simp: stream_Bytes_def pending_def core_def advance_def)
next
  case long
  let ?h = "spec_head 0x80 0xB7 (length b)"
  from stream_Kind_ok [OF assms(1,2), of KString "length b" ?h "b @ rest"] assms(3,4,5) long obtain bv
    where k: "stream_Kind s = (Inr (KString, length b), pending KString (length b) bv (advance (length ?h) s))"
    by auto
  have g: "good (advance (length ?h) s)" "length b \<le> avail (advance (length ?h) s)"
    using assms(1,4) long by (auto intro!: good_advance simp: avail_advance)
  then have "readFull (length b) (pending KString (length b) bv (advance (length ?h) s))
      = (Inr b, advance (length b) (pending KString (length b) bv (advance (length ?h) s)))"
    using assms(5) long by (subst readFull_ok) (simp_all add: pending_def)
  then show ?thesis
    using k long by (auto simp: stream_Bytes_def pending_def)
qed

lemma Bytes_sound:
  assumes "good s" "skind s = None" "stream_Bytes s = (Inr b, s')"
  shows "length b < 2 ^ 64 \<and> length (spec_string b) \<le> avail s
    \<and> take (length (spec_string b)) (input s) = spec_string b
    \<and> core s' = core (advance (length (spec_string b)) s)"
proof -
  from assms(3) obtain k sz s1 where k: "stream_Kind s = (Inr (k, sz), s1)" and kl: "k \<noteq> KList"
    by (auto simp: stream_Bytes_def split: prod.splits sum.splits Kind.splits)
  from stream_Kind_Inr [OF assms(1,2) k] obtain h bv where
    h: "head_of k sz h" "length h \<le> avail s" "take (length h) (input s) = h"
      "s1 = pending k sz bv (advance (length h) s)" "k = KByte \<longrightarrow> h = [bv]" "sz < 2 ^ 64"
    by auto
  show ?thesis
  proof (cases k)
    case KByte
    with h have e: "h = [bv]" "bv < 0x80" by auto
    from KByte k h(4) assms(3) have b: "b = [bv]" "s' = s1\<lparr>skind := None\<rparr>"
      by (auto simp: stream_Bytes_def pending_def)
    have "spec_string b = [bv]" using e(2) b(1) by (simp add: spec_string_def word_less_nat_alt)
    moreover have "core s' = core (advance 1 s)"
      unfolding b(2) h(4) e(1) by (simp add: pending_def core_def advance_def)
    ultimately show ?thesis using h(2,3) e(1) b(1) by simp
  next
    case KString
    let ?s1 = "advance (length h) s"
    have g: "good s1" "avail s1 = avail s - length h" "input s1 = drop (length h) (input s)"
      using assms(1) h(2,4) good_advance by (auto simp: pending_def avail_advance)
    from KString k assms(3) have r: "readFull sz s1 = (Inr b, s')" "\<not> (sz = 1 \<and> hd b < 128)"
      by (auto simp: stream_Bytes_def split: prod.splits sum.splits if_splits)
    then have "sz \<le> avail s1" using readFull_Inr g(1) by blast
    with r readFull_ok [OF g(1)] have b: "b = take sz (input s1)" "s' = advance sz s1" by simp_all
    have l: "length b = sz" using b \<open>sz \<le> avail s1\<close> avail_le [of s1] by simp
    have e: "spec_string b = h @ b"
      using r(2) KString h(1) l by (cases b rule: spec_string_cases) auto
    have "core s' = core (advance (length (h @ b)) s)"
      unfolding b(2) h(4) using l by (simp add: pending_def)
    with b(1) l g e h(2,3,6) \<open>sz \<le> avail s1\<close> show ?thesis by (simp add: take_add)
  qed (use kl in simp)
qed

lemma Bytes_EOL:
  assumes "skind s = None" "stream_Bytes s = (Inl EOL, s')"
  shows "core s' = core s"
proof -
  from assms(2) have "stream_Kind s = (Inl EOL, s')"
    by (auto simp: stream_Bytes_def split: prod.splits sum.splits Kind.splits if_splits dest: readFull_err)
  with stream_Kind_err [OF assms(1)] show ?thesis by blast
qed

interpretation byte_slice: element_decoder stream_Bytes spec_string "\<lambda>b. length b < 2 ^ 64"
proof
  show "at_end s \<Longrightarrow> skind s = None \<Longrightarrow> \<exists>s'. stream_Bytes s = (Inl EOL, s') \<and> core s' = core s" for s
    by (simp add: stream_Bytes_def stream_Kind_at_end)
  show "spec_string b \<noteq> []" for b by (cases b rule: spec_string_cases) (auto simp: spec_head_def)
qed (use Bytes_dec_enc Bytes_sound Bytes_EOL in blast)+

text \<open>Byte arrays: strings of a fixed length.\<close>

lemma decodeByteArray_Bytes:
  assumes "1 < n"
  shows "decodeByteArray n s = (Inr b, s') \<longleftrightarrow> stream_Bytes s = (Inr b, s') \<and> length b = n"
proof (cases "stream_Kind s")
  case (Pair r s1)
  have len: "length b = m" if "readFull m s1 = (Inr b, s')" for m
    using that by (auto simp: readFull_def split: prod.splits sum.splits if_splits)
  show ?thesis
  proof (cases r)
    case (Inr ks)
    obtain k sz where ks: "ks = (k, sz)" by (cases ks)
    show ?thesis
    proof (cases k)
      case KString
      with Pair Inr ks assms len show ?thesis
        by (auto simp: decodeByteArray_def stream_Bytes_def split: prod.splits sum.splits if_splits)
    qed (use Pair Inr ks assms in \<open>auto simp: decodeByteArray_def stream_Bytes_def\<close>)
  qed (use Pair in \<open>simp add: decodeByteArray_def stream_Bytes_def\<close>)
qed

lemma decodeByteArray_EOL:
  assumes "1 < n" "skind s = None" "decodeByteArray n s = (Inl EOL, s')"
  shows "core s' = core s"
proof -
  from assms(1,3) have "stream_Kind s = (Inl EOL, s')"
    by (auto simp: decodeByteArray_def split: prod.splits sum.splits Kind.splits if_splits dest: readFull_err)
  with stream_Kind_err [OF assms(2)] show ?thesis by blast
qed

lemma byte_array_contract:
  assumes "1 < n" "n < 2 ^ 64"
  shows "element_decoder (decodeByteArray n) spec_string (\<lambda>b. length b = n)"
proof
  fix s b rest
  assume "good s" "skind s = None" "length b = n" "length (spec_string b) \<le> avail s"
    "input s = spec_string b @ rest"
  with byte_slice.dec_enc [of s b rest] assms(2) obtain s' where
    "stream_Bytes s = (Inr b, s')" "core s' = core (advance (length (spec_string b)) s)" by auto
  with decodeByteArray_Bytes [OF assms(1)] \<open>length b = n\<close>
  show "\<exists>s'. decodeByteArray n s = (Inr b, s') \<and> core s' = core (advance (length (spec_string b)) s)"
    by blast
next
  fix s b s'
  assume "good s" "skind s = None" "decodeByteArray n s = (Inr b, s')"
  with decodeByteArray_Bytes [OF assms(1)] byte_slice.dec_sound [of s b s']
  show "length b = n \<and> length (spec_string b) \<le> avail s
    \<and> take (length (spec_string b)) (input s) = spec_string b
    \<and> core s' = core (advance (length (spec_string b)) s)" by blast
next
  show "at_end s \<Longrightarrow> skind s = None \<Longrightarrow> \<exists>s'. decodeByteArray n s = (Inl EOL, s') \<and> core s' = core s" for s
    by (simp add: decodeByteArray_def stream_Kind_at_end)
next
  show "length b = n \<Longrightarrow> spec_string b \<noteq> []" for b
    using byte_slice.enc_nonempty [of b] assms(2) by simp
qed (rule decodeByteArray_EOL [OF assms(1)])

interpretation address_array: element_decoder "decodeByteArray 20" spec_string "\<lambda>b. length b = 20"
  by (rule byte_array_contract) simp_all

interpretation address_list: element_decoder "decodeListSlice (decodeByteArray 20)"
    address_array.enc_list address_array.ok_list
  by (rule address_array.list_contract)

subsection \<open>Interface values\<close>

text \<open>The values a decoder that is given no type can return, and their encoding.\<close>

fun plain :: "rlp_value \<Rightarrow> bool" where
  "plain (VBytes b) = True"
| "plain (VList vs) = list_all plain vs"
| "plain _ = False"

fun enc_val :: "rlp_value \<Rightarrow> byte list" where
  "enc_val (VBytes b) = spec_string b"
| "enc_val (VList vs) = spec_list (concat (map enc_val vs))"
| "enc_val _ = []"

fun iface_ok :: "nat \<Rightarrow> rlp_value \<Rightarrow> bool" where
  "iface_ok (Suc n) (VBytes b) = (length b < 2 ^ 64)"
| "iface_ok (Suc n) (VList vs) =
     ((\<forall>v\<in>set vs. iface_ok n v) \<and> length (concat (map enc_val vs)) < 2 ^ 64)"
| "iface_ok _ _ = False"

lemma kind_result_Inr:
  "kind_result s = (Inr r, s') \<longleftrightarrow> s' = s \<and> kinderr s = None \<and> r = (the (skind s), ssize s)"
  by (auto simp: kind_result_def split: option.splits)

lemma stream_Kind_again: "stream_Kind s = (Inr r, s1) \<Longrightarrow> stream_Kind s1 = (Inr r, s1)"
  by (auto simp: stream_Kind_def Let_def kind_result_Inr split: if_splits prod.splits)

lemma decodeInterface_Kind:
  "decodeInterface (Suc n) s =
     (case stream_Kind s of
        (Inl e, s1) \<Rightarrow> (Inl e, s1)
      | (Inr (k, sz), s1) \<Rightarrow>
          if k = KList then apfst (map_sum id VList) (decodeListSlice (decodeInterface n) s)
          else apfst (map_sum id VBytes) (stream_Bytes s))"
proof (cases "stream_Kind s")
  case (Pair r s1)
  show ?thesis
  proof (cases r)
    case (Inr x)
    from stream_Kind_again [of s x s1] Pair Inr have "stream_Kind s1 = (Inr x, s1)" by simp
    then have "stream_Bytes s1 = stream_Bytes s"
      "decodeListSlice (decodeInterface n) s1 = decodeListSlice (decodeInterface n) s"
      using Pair Inr by (simp_all add: stream_Bytes_def decodeListSlice_def stream_List_def)
    then show ?thesis
      using Pair Inr by (auto split: prod.splits sum.splits)
  qed (use Pair in simp)
qed

lemma decodeListSlice_Kind:
  "decodeListSlice d s = (Inr xs, s') \<Longrightarrow> \<exists>sz s1. stream_Kind s = (Inr (KList, sz), s1)"
  by (auto simp: decodeListSlice_def stream_List_def split: prod.splits sum.splits if_splits)

lemma stream_Bytes_Kind:
  "stream_Bytes s = (Inr b, s') \<Longrightarrow> \<exists>k sz s1. stream_Kind s = (Inr (k, sz), s1) \<and> k \<noteq> KList"
  by (auto simp: stream_Bytes_def split: prod.splits sum.splits Kind.splits)

lemma decodeInterface_cases:
  assumes "decodeInterface (Suc n) s = (r, s')"
  obtains (err) e where "stream_Kind s = (Inl e, s')" "r = Inl e"
  | (list) q where "decodeListSlice (decodeInterface n) s = (q, s')" "r = map_sum id VList q"
  | (bytes) q where "stream_Bytes s = (q, s')" "r = map_sum id VBytes q"
proof (cases "stream_Kind s")
  case (Pair x s1)
  show ?thesis
  proof (cases x)
    case (Inl e)
    with Pair assms err show ?thesis by simp
  next
    case (Inr ks)
    show ?thesis
    proof (cases "fst ks = KList")
      case True
      with assms Pair Inr list show ?thesis
        unfolding decodeInterface_Kind
        by (cases "decodeListSlice (decodeInterface n) s") (simp add: split_def)
    next
      case False
      with assms Pair Inr bytes show ?thesis
        unfolding decodeInterface_Kind by (cases "stream_Bytes s") (simp add: split_def)
    qed
  qed
qed

lemma map_sum_eq_iff:
  "Inr v = map_sum id f q \<longleftrightarrow> (\<exists>x. q = Inr x \<and> v = f x)" "Inl e = map_sum id f q \<longleftrightarrow> q = Inl e"
  by (cases q; auto)+

lemma iface_step:
  assumes "element_decoder (decodeInterface n) enc_val (iface_ok n)"
  shows "element_decoder (decodeInterface (Suc n)) enc_val (iface_ok (Suc n))"
proof -
  note lists = element_decoder.list_contract [OF assms]
  note enc_list = element_decoder.enc_list_def [OF assms]
  note ok_list = element_decoder.ok_list_def [OF assms]
  show ?thesis
  proof
    fix s v rest
    assume s: "good s" "skind s = None" and v: "iface_ok (Suc n) v" "length (enc_val v) \<le> avail s"
      "input s = enc_val v @ rest"
    from v(1) consider b where "v = VBytes b" "length b < 2 ^ 64"
      | vs where "v = VList vs" "\<forall>v\<in>set vs. iface_ok n v" "length (concat (map enc_val vs)) < 2 ^ 64"
      by (cases v) auto
    then show "\<exists>s'. decodeInterface (Suc n) s = (Inr v, s') \<and> core s' = core (advance (length (enc_val v)) s)"
    proof cases
      case 1
      with s v byte_slice.dec_enc [of s b rest] obtain s' where
        "stream_Bytes s = (Inr b, s')" "core s' = core (advance (length (enc_val v)) s)" by auto
      moreover from this(1) obtain k sz s1 where "stream_Kind s = (Inr (k, sz), s1)" "k \<noteq> KList"
        using stream_Bytes_Kind by blast
      ultimately show ?thesis
        unfolding decodeInterface_Kind using 1 by simp
    next
      case 2
      with s v element_decoder.dec_enc [OF lists, of s vs rest] obtain s' where
        "decodeListSlice (decodeInterface n) s = (Inr vs, s')"
        "core s' = core (advance (length (enc_val v)) s)" by (auto simp: enc_list ok_list)
      moreover from this(1) obtain sz s1 where "stream_Kind s = (Inr (KList, sz), s1)"
        using decodeListSlice_Kind by blast
      ultimately show ?thesis
        unfolding decodeInterface_Kind using 2 by simp
    qed
  next
    fix s v s'
    assume s: "good s" "skind s = None" and d: "decodeInterface (Suc n) s = (Inr v, s')"
    from d consider vs where "decodeListSlice (decodeInterface n) s = (Inr vs, s')" "v = VList vs"
      | b where "stream_Bytes s = (Inr b, s')" "v = VBytes b"
      by (rule decodeInterface_cases) (auto simp: map_sum_eq_iff)
    then show "iface_ok (Suc n) v \<and> length (enc_val v) \<le> avail s
      \<and> take (length (enc_val v)) (input s) = enc_val v \<and> core s' = core (advance (length (enc_val v)) s)"
    proof cases
      case 1
      with element_decoder.dec_sound [OF lists s] show ?thesis by (simp add: enc_list ok_list)
    next
      case 2
      with byte_slice.dec_sound [OF s] show ?thesis by simp
    qed
  next
    fix s assume "at_end s" "skind s = None"
    then show "\<exists>s'. decodeInterface (Suc n) s = (Inl EOL, s') \<and> core s' = core s"
      by (simp add: stream_Kind_at_end)
  next
    fix s s' assume s: "good s" "skind s = None" and d: "decodeInterface (Suc n) s = (Inl EOL, s')"
    from d consider "decodeListSlice (decodeInterface n) s = (Inl EOL, s')"
      | "stream_Bytes s = (Inl EOL, s')" | "stream_Kind s = (Inl EOL, s')"
      by (rule decodeInterface_cases) (auto simp: map_sum_eq_iff)
    then show "core s' = core s"
      using element_decoder.dec_EOL [OF lists s] byte_slice.dec_EOL [OF s] stream_Kind_err [OF s(2)]
      by cases auto
  next
    show "iface_ok (Suc n) v \<Longrightarrow> enc_val v \<noteq> []" for v
      using byte_slice.enc_nonempty by (cases v) (auto simp: spec_list_def spec_head_def)
  qed
qed

lemma iface_contract: "element_decoder (decodeInterface n) enc_val (iface_ok n)"
proof (induction n)
  case 0
  show ?case
    by unfold_locales
      (auto simp: stream_Kind_at_end split: prod.splits sum.splits dest: stream_Kind_err)
qed (rule iface_step)

interpretation iface: element_decoder "decodeInterface n" enc_val "iface_ok n" for n
  by (rule iface_contract)

fun height :: "rlp_value \<Rightarrow> nat" where
  "height (VList vs) = Suc (fold max (map height vs) 0)"
| "height _ = 1"

lemma rlp_spec_plain:
  "plain v \<Longrightarrow> rlp_spec v = Inr (enc_val v)"
  "list_all plain vs \<Longrightarrow> rlp_specs vs = Inr (concat (map enc_val vs))"
  by (induction v and vs rule: rlp_spec_rlp_specs.induct) auto

lemma iface_ok_plain: "iface_ok n v \<Longrightarrow> plain v"
proof (induction n v rule: iface_ok.induct)
  case (2 n vs)
  then show ?case by (auto simp: list_all_iff)
qed auto

lemma length_enc_val_elem: "v \<in> set vs \<Longrightarrow> length (enc_val v) < length (enc_val (VList vs))"
proof -
  assume "v \<in> set vs"
  then have "length (enc_val v) \<le> length (concat (map enc_val vs))"
    by (induction vs) auto
  then show ?thesis using length_spec_list [of "concat (map enc_val vs)"] by simp
qed

lemma plain_iface_ok:
  "plain v \<Longrightarrow> length (enc_val v) < 2 ^ 64 \<Longrightarrow> length (enc_val v) \<le> n \<Longrightarrow> iface_ok n v"
proof (induction n arbitrary: v)
  case 0
  have "spec_string b \<noteq> []" for b by (cases b rule: spec_string_cases) (auto simp: spec_head_def)
  with 0 show ?case by (cases v) (auto simp: spec_list_def)
next
  case (Suc n)
  show ?case
  proof (cases v)
    case (VBytes b)
    with Suc.prems(2) length_spec_string [of b] show ?thesis by simp
  next
    case (VList vs)
    have "iface_ok n w" if "w \<in> set vs" for w
      using Suc.IH [of w] Suc.prems length_enc_val_elem [OF that] that VList by (auto simp: list_all_iff)
    with VList Suc.prems(2) length_spec_list [of "concat (map enc_val vs)"] show ?thesis by simp
  qed (use Suc.prems in auto)
qed

lemma good_NewStream: "length b < 2 ^ 64 \<Longrightarrow> good (NewStream b)"
  by (simp add: good_def NewStream_def)

text \<open>Enough fuel: the recursion never exceeds the length of the input.\<close>

lemma decodeListSlice_fuel:
  assumes "element_decoder d enc ok" "good s" "skind s = None" "length (input s) \<le> Suc n"
    and "\<And>t. good t \<Longrightarrow> skind t = None \<Longrightarrow> length (input t) \<le> n \<Longrightarrow> fst (d t) \<noteq> Inl OutOfFuel"
  shows "fst (decodeListSlice d s) \<noteq> Inl OutOfFuel"
proof
  assume "fst (decodeListSlice d s) = Inl OutOfFuel"
  then consider e s1 where "stream_List s = (Inl e, s1)" "wrapStreamError e = OutOfFuel"
    | sz s2 where "stream_List s = (Inr sz, s2)"
        "fst (decodeSliceElems (Suc (length (input s2))) d s2) = Inl OutOfFuel"
    | t t' where "stream_ListEnd t = (Inl OutOfFuel, t')"
    unfolding decodeListSlice_def by (auto split: prod.splits sum.splits if_splits)
  then show False
  proof cases
    case 1
    then have "e = OutOfFuel" by (cases e) auto
    with 1 stream_Kind_err [OF assms(3)] show False
      by (auto simp: stream_List_def split: prod.splits sum.splits if_splits)
  next
    case 2
    then obtain s1 where k: "stream_Kind s = (Inr (KList, sz), s1)"
      by (auto simp: stream_List_def split: prod.splits sum.splits if_splits)
    from stream_Kind_Inr [OF assms(2,3) k] obtain h bv where
      h: "h = spec_head 0xC0 0xF7 sz" "length h \<le> avail s"
        "s1 = pending KList sz bv (advance (length h) s)" "sz < 2 ^ 64" "room sz (advance (length h) s)"
      by auto
    have g1: "good (advance (length h) s)" using assms(2) h(2) by (rule good_advance)
    from stream_List_Kind [OF k [unfolded h(3)]] 2(1) have
      c: "core s2 = core (push sz (advance (length h) s))" by simp
    have "0 < length h" using length_spec_head h(1) by simp
    then have "length (input s2) \<le> n"
      using core_eqD(1) [OF c] assms(4) h(2) avail_le [of s] by (cases h) auto
    moreover have "good s2" "skind s2 = None"
      using good_push [OF g1 h(5,4)] core_eq_good [OF c] core_eqD(3) [OF c] by simp_all
    ultimately show False
      using element_decoder.slice_fuel [OF assms(1), of s2 _ n] assms(5) 2(2) by blast
  next
    case 3
    then show False using stream_ListEnd_err by blast
  qed
qed

lemma decodeInterface_fuel:
  "good s \<Longrightarrow> skind s = None \<Longrightarrow> length (input s) \<le> n \<Longrightarrow> fst (decodeInterface n s) \<noteq> Inl OutOfFuel"
proof (induction n arbitrary: s)
  case 0
  have "stream_Kind s \<noteq> (Inr r, s')" for r s'
  proof
    assume "stream_Kind s = (Inr r, s')"
    with stream_Kind_Inr [OF "0.prems"(1,2), of "fst r" "snd r" s'] avail_le [of s] "0.prems"(3)
    obtain h where "head_of (fst r) (snd r) h" "h = []" by auto
    then show False by (cases "fst r") auto
  qed
  with stream_Kind_err [OF "0.prems"(2)] show ?case by (auto split: prod.splits sum.splits)
next
  case (Suc n)
  have l: "fst (decodeListSlice (decodeInterface n) s) \<noteq> Inl OutOfFuel"
    using decodeListSlice_fuel [OF iface_contract Suc.prems] Suc.IH by blast
  have b: "fst (stream_Bytes s) \<noteq> Inl OutOfFuel"
    using stream_Kind_err [OF Suc.prems(2)]
    by (auto simp: stream_Bytes_def split: prod.splits sum.splits Kind.splits if_splits dest: readFull_err)
  show ?case
  proof
    assume "fst (decodeInterface (Suc n) s) = Inl OutOfFuel"
    then obtain s' where "decodeInterface (Suc n) s = (Inl OutOfFuel, s')"
      by (metis prod.collapse)
    then show False
      by (rule decodeInterface_cases)
        (use l b stream_Kind_err [OF Suc.prems(2)] in \<open>auto simp: map_sum_eq_iff\<close>)
  qed
qed

lemma DecodeBytes_contract:
  assumes "element_decoder d enc ok" "length b < 2 ^ 64"
  shows "DecodeBytes d b = Inr v \<longleftrightarrow> ok v \<and> enc v = b"
proof
  assume "DecodeBytes d b = Inr v"
  then obtain s where s: "d (NewStream b) = (Inr v, s)" "input s = []"
    by (auto simp: DecodeBytes_def split: prod.splits sum.splits if_splits)
  have "skind (NewStream b) = None" by (simp add: NewStream_def)
  from element_decoder.dec_sound [OF assms(1) good_NewStream [OF assms(2)] this s(1)]
  have v: "ok v" "take (length (enc v)) (input (NewStream b)) = enc v"
    and c: "core s = core (advance (length (enc v)) (NewStream b))" by blast+
  have i: "input (NewStream b) = b" by (simp add: NewStream_def)
  have "drop (length (enc v)) b = []" using core_eqD(1) [OF c] s(2) by (simp add: i)
  then have "enc v = b" using v(2) append_take_drop_id [of "length (enc v)" b] by (simp add: i)
  with v(1) show "ok v \<and> enc v = b" ..
next
  assume v: "ok v \<and> enc v = b"
  have "skind (NewStream b) = None" "length (enc v) \<le> avail (NewStream b)"
    "input (NewStream b) = enc v @ []"
    using v by (simp_all add: NewStream_def avail_def)
  with element_decoder.dec_enc [OF assms(1) good_NewStream [OF assms(2)]] v obtain s where
    d: "d (NewStream b) = (Inr v, s)" and c: "core s = core (advance (length b) (NewStream b))" by blast
  have "input s = []" using core_eqD(1) [OF c] by (simp add: NewStream_def)
  with d show "DecodeBytes d b = Inr v" by (simp add: DecodeBytes_def)
qed

text \<open>C1: Decoding is canonical and complete: on every input shorter than 2^64 bytes the decoder
  returns a value exactly when the input is the specified encoding of that value, so no value has
  two accepted encodings and no accepted input has trailing or non-minimal parts.\<close>

theorem DecodeBytes_canonical:
  assumes "length b < 2 ^ 64"
  shows "DecodeBytes (decodeInterface (length b)) b = Inr v \<longleftrightarrow> plain v \<and> rlp_spec v = Inr b"
proof -
  have "iface_ok (length b) v \<and> enc_val v = b \<longleftrightarrow> plain v \<and> rlp_spec v = Inr b"
    using iface_ok_plain [of "length b" v] plain_iface_ok [of v "length b"] rlp_spec_plain(1) [of v] assms
    by auto
  with DecodeBytes_contract [OF iface_contract assms] show ?thesis by simp
qed


theorem DecodeBytes_canonical_witness:
  "DecodeBytes (decodeInterface (length [0xC3, 0x82, 0x04, 0x00 :: byte])) [0xC3, 0x82, 0x04, 0x00]
     = Inr (VList [VBytes [4, 0]])
   \<longleftrightarrow> plain (VList [VBytes [4, 0]]) \<and> rlp_spec (VList [VBytes [4, 0]]) = Inr [0xC3, 0x82, 0x04, 0x00]"
  by (rule DecodeBytes_canonical) simp

end
