(* ===== verification/Staking.thy ===== *)
theory Staking
  imports Go_Float Rlp_Stream "HOL-Library.AList"
begin

text \<open>
  The staking package, \<open>berith/staking\<close>: the set of stakers of a block (\<open>stakers.go\<close>), the
  selection point of a stake (\<open>point.go\<close>) and the database that stores the stakers of a block
  under its hash (\<open>stakeDB.go\<close>).

  A Go map has no iteration order. The model of \<open>stakers\<close> is the list of its keys in the order
  the next iteration visits them; the order is arbitrary, so a statement about every list with
  \<open>stakers_inv\<close> holds for every order. The database is LevelDB, a third-party library: its
  contents are an association list.
\<close>

subsection \<open>Stakers\<close>

type_synonym stakers = "address list"

definition NewStakers :: stakers where
  "NewStakers = []"

definition IsContain :: "stakers \<Rightarrow> address \<Rightarrow> bool" where
  "IsContain s addr \<longleftrightarrow> addr \<in> set s"

definition stakers_Put :: "stakers \<Rightarrow> address \<Rightarrow> stakers" where
  "stakers_Put s addr = (if \<not> IsContain s addr then s @ [addr] else s)"

definition stakers_Remove :: "stakers \<Rightarrow> address \<Rightarrow> stakers" where
  "stakers_Remove s addr = (if IsContain s addr then filter (\<lambda>k. k \<noteq> addr) s else s)"

definition AsList :: "stakers \<Rightarrow> address list" where
  "AsList s = s"

fun FetchFromList :: "stakers \<Rightarrow> address list \<Rightarrow> stakers" where
  "FetchFromList s [] = s"
| "FetchFromList s (staker # rest) = FetchFromList (stakers_Put s staker) rest"

definition stakers_inv :: "stakers \<Rightarrow> bool" where
  "stakers_inv s \<longleftrightarrow> distinct s"

text \<open>The interface \<open>Stakers\<close> as its clients, the consensus engine and the selection, use it:
  a set of addresses that can be listed without repetition.\<close>

locale staker_set =
  fixes empty :: "'s"
    and put :: "'s \<Rightarrow> address \<Rightarrow> 's"
    and remove :: "'s \<Rightarrow> address \<Rightarrow> 's"
    and contains :: "'s \<Rightarrow> address \<Rightarrow> bool"
    and as_list :: "'s \<Rightarrow> address list"
    and inv :: "'s \<Rightarrow> bool"
  assumes inv_empty: "inv empty"
    and inv_put: "inv s \<Longrightarrow> inv (put s a)"
    and inv_remove: "inv s \<Longrightarrow> inv (remove s a)"
    and list_empty: "as_list empty = []"
    and set_put: "inv s \<Longrightarrow> set (as_list (put s a)) = insert a (set (as_list s))"
    and set_remove: "inv s \<Longrightarrow> set (as_list (remove s a)) = set (as_list s) - {a}"
    and contains_iff: "inv s \<Longrightarrow> contains s a \<longleftrightarrow> a \<in> set (as_list s)"
    and list_distinct: "inv s \<Longrightarrow> distinct (as_list s)"
begin

text \<open>Applying a set of additions and removals, one address each, gives the same stakers
  whatever the order in which the addresses are visited.\<close>

primrec apply_changes :: "'s \<Rightarrow> (address \<times> bool) list \<Rightarrow> 's" where
  "apply_changes s [] = s"
| "apply_changes s (c # cs) =
     apply_changes (if snd c then put s (fst c) else remove s (fst c)) cs"

lemma inv_apply_changes: "inv s \<Longrightarrow> inv (apply_changes s cs)"
  by (induction cs arbitrary: s) (auto simp: inv_put inv_remove)

lemma set_apply_changes:
  "inv s \<Longrightarrow> distinct (map fst cs) \<Longrightarrow>
    set (as_list (apply_changes s cs)) =
      (set (as_list s) - {a. (a, False) \<in> set cs}) \<union> {a. (a, True) \<in> set cs}"
proof (induction cs arbitrary: s)
  case Nil
  then show ?case by simp
next
  case (Cons c cs)
  obtain a b where c: "c = (a, b)" by force
  have notin: "(a, x) \<notin> set cs" for x
    using Cons.prems(2) c by (force simp: image_iff)
  show ?case
  proof (cases b)
    case True
    with Cons c notin show ?thesis by (auto simp: inv_put set_put)
  next
    case False
    with Cons c notin show ?thesis by (auto simp: inv_remove set_remove)
  qed
qed

lemma apply_changes_order:
  assumes "inv s" "distinct (map fst cs)" "set cs = set ds" "distinct (map fst ds)"
  shows "set (as_list (apply_changes s cs)) = set (as_list (apply_changes s ds))"
  using assms by (simp add: set_apply_changes)

end

lemma stakers_Put_set [simp]: "set (stakers_Put s a) = insert a (set s)"
  by (auto simp: stakers_Put_def IsContain_def)

lemma stakers_Remove_set [simp]: "set (stakers_Remove s a) = set s - {a}"
  by (auto simp: stakers_Remove_def IsContain_def)

lemma stakers_inv_Put: "stakers_inv s \<Longrightarrow> stakers_inv (stakers_Put s a)"
  by (auto simp: stakers_inv_def stakers_Put_def IsContain_def)

lemma stakers_inv_Remove: "stakers_inv s \<Longrightarrow> stakers_inv (stakers_Remove s a)"
  by (simp add: stakers_inv_def stakers_Remove_def)

interpretation go_stakers:
  staker_set NewStakers stakers_Put stakers_Remove IsContain AsList stakers_inv
  by unfold_locales
    (auto simp: NewStakers_def AsList_def IsContain_def stakers_inv_Put stakers_inv_Remove,
     auto simp: stakers_inv_def)

lemma FetchFromList_set: "set (FetchFromList s xs) = set s \<union> set xs"
  by (induction xs arbitrary: s) auto

lemma FetchFromList_inv: "stakers_inv s \<Longrightarrow> stakers_inv (FetchFromList s xs)"
  by (induction xs arbitrary: s) (auto simp: stakers_inv_Put)

lemma FetchFromList_distinct:
  "distinct xs \<Longrightarrow> set s \<inter> set xs = {} \<Longrightarrow> FetchFromList s xs = s @ xs"
  by (induction xs arbitrary: s) (auto simp: stakers_Put_def IsContain_def)

subsection \<open>Selection point\<close>

definition BlockYear :: int where
  "BlockYear = 3600000"

definition DefaultBlockCreationSec :: int where
  "DefaultBlockCreationSec = 10"

text \<open>The number of blocks of a year at the configured period, through \<open>float64\<close>.\<close>

definition referenceBlock :: "u64 \<Rightarrow> int run" where
  "referenceBlock period =
     (if period = 0 then Inl UnspecifiedConversion
      else Inr (go_trunc (f64_div (of_int BlockYear)
                 (f64_div (f64_of_int (uint period)) (of_int DefaultBlockCreationSec)))))"

definition CalcPointBigint :: "int \<Rightarrow> int \<Rightarrow> int \<Rightarrow> int \<Rightarrow> u64 \<Rightarrow> int run" where
  "CalcPointBigint prevStake addStake nowBlock stakeBlock period =
     bind_run (referenceBlock period) (\<lambda>reference.
     bind_run (big_Div (nowBlock * 100) (reference + stakeBlock)) (\<lambda>ratio0.
       let ratio = (if 100 < ratio0 then 100 else ratio0) in
     bind_run (big_Div prevStake (prevStake + addStake)) (\<lambda>temp1.
       let temp2 = prevStake * temp1; temp3 = temp2 * ratio in
     bind_run (big_Div temp3 100) (\<lambda>advantage.
       Inr (prevStake + advantage + addStake)))))"

subsection \<open>The staking database\<close>

type_synonym ldb = "(string \<times> byte list) list"

datatype db_error = NotFound | RlpError rlp_error

record StakingDB =
  stakeDB :: ldb
  NoPruning :: bool

definition getValue :: "StakingDB \<Rightarrow> string \<Rightarrow> db_error + byte list" where
  "getValue s key = (case map_of (stakeDB s) key of None \<Rightarrow> Inl NotFound | Some v \<Rightarrow> Inr v)"

text \<open>\<open>EncodeRLP\<close> encodes the list of the addresses; an address is an array of 20 bytes.\<close>

definition stakers_EncodeRLP :: "stakers \<Rightarrow> rlp_value" where
  "stakers_EncodeRLP s = VList (map (\<lambda>a. VBytes (addr_bytes a)) (AsList s))"

definition pushValue :: "StakingDB \<Rightarrow> string \<Rightarrow> stakers \<Rightarrow> db_error + StakingDB" where
  "pushValue s k stks =
     (case EncodeToBytes (stakers_EncodeRLP stks) of
        Inl e \<Rightarrow> Inl (RlpError e)
      | Inr v \<Rightarrow> Inr (s\<lparr>stakeDB := AList.update k v (stakeDB s)\<rparr>))"

definition GetStakers :: "StakingDB \<Rightarrow> string \<Rightarrow> db_error + stakers" where
  "GetStakers s key =
     (case getValue s key of
        Inl e \<Rightarrow> Inl e
      | Inr val \<Rightarrow>
          (case DecodeBytes (decodeListSlice (decodeByteArray 20)) val of
             Inl e \<Rightarrow> Inl (RlpError e)
           | Inr holder \<Rightarrow> Inr (FetchFromList NewStakers (map addr_of_bytes holder))))"

definition staking_Commit :: "StakingDB \<Rightarrow> string \<Rightarrow> stakers \<Rightarrow> db_error + StakingDB" where
  "staking_Commit s key value = pushValue s key value"

definition staking_isExist :: "StakingDB \<Rightarrow> string \<Rightarrow> bool" where
  "staking_isExist s key \<longleftrightarrow> map_of (stakeDB s) key \<noteq> None"

definition staking_delete :: "StakingDB \<Rightarrow> string \<Rightarrow> StakingDB" where
  "staking_delete s key = s\<lparr>stakeDB := AList.delete key (stakeDB s)\<rparr>"

text \<open>\<open>Clean\<close> deletes the entries of a block and of its ancestors until one has none. The chain
  is a function from a header to its parent; a missing parent is dereferenced by the next
  round of the loop.\<close>

lemma staking_delete_shorter:
  "staking_isExist s key \<Longrightarrow> length (stakeDB (staking_delete s key)) < length (stakeDB s)"
proof -
  assume "staking_isExist s key"
  then have "key \<in> fst ` set (stakeDB s)"
    by (simp add: staking_isExist_def map_of_eq_None_iff)
  then show ?thesis
    by (auto simp: staking_delete_def AList.delete_eq intro: length_filter_less)
qed

function Clean_loop ::
  "('h \<Rightarrow> string) \<Rightarrow> ('h \<Rightarrow> 'h option) \<Rightarrow> StakingDB \<Rightarrow> 'h option \<Rightarrow> StakingDB run" where
  "Clean_loop key parent s None = Inl NilDereference"
| "Clean_loop key parent s (Some header) =
     (if \<not> staking_isExist s (key header) then Inr s
      else Clean_loop key parent (staking_delete s (key header)) (parent header))"
  by pat_completeness auto
termination
  by (relation "measure (\<lambda>(key, parent, s, h). length (stakeDB s))")
    (auto intro: staking_delete_shorter)

definition Clean ::
  "('h \<Rightarrow> string) \<Rightarrow> ('h \<Rightarrow> 'h option) \<Rightarrow> StakingDB \<Rightarrow> 'h \<Rightarrow> StakingDB run" where
  "Clean key parent s header =
     (if NoPruning s then Inr s else Clean_loop key parent s (Some header))"

subsection \<open>Properties of the selection point\<close>

lemma reference_pos:
  assumes "0 < n" "n \<le> 36000000"
  shows "0 < go_trunc (f64_div 3600000 (f64_div (f64_of_int n) 10))"
proof -
  let ?c = "f64 (of_int n / 10)"
  have exact: "f64_of_int n = of_int n" using assms by (intro f64_of_int_exact) simp
  have pos: "0 < ?c" using assms by (intro fl_gt0) simp_all
  have "?c \<le> f64 (of_int 3600000)"
    using assms by (intro fl_mono) (simp_all add: divide_le_eq)
  then have "?c \<le> 3600000" by (subst (asm) fl_of_int) simp_all
  with pos have "f64 (of_int 1) \<le> f64 (3600000 / ?c)"
    by (intro fl_mono) (simp_all add: le_divide_eq)
  then have one: "1 \<le> f64 (3600000 / ?c)" by (subst (asm) fl_of_int) simp_all
  then have "1 \<le> \<lfloor>f64 (3600000 / ?c)\<rfloor>" by (simp add: le_floor_iff)
  with one show ?thesis by (simp add: f64_div_def exact go_trunc_def)
qed

lemma referenceBlock_ok:
  assumes "0 < period" "uint period \<le> 36000000"
  shows "\<exists>ref. referenceBlock period = Inr ref \<and> 0 < ref"
proof -
  have "0 < uint period" "period \<noteq> 0" using assms(1) by (auto simp: word_less_def)
  then show ?thesis
    using reference_pos [of "uint period"] assms(2)
    unfolding referenceBlock_def BlockYear_def DefaultBlockCreationSec_def by auto
qed

lemma referenceBlock_5: "referenceBlock 5 = Inr 7200000"
  by code_simp

lemma referenceBlock_10: "referenceBlock 10 = Inr 3600000"
  by code_simp

text \<open>The share \<open>prevStake / (prevStake + addStake)\<close> is an integer quotient: it is one when
  nothing is added and zero otherwise.\<close>

lemma stake_share:
  assumes "0 \<le> prev" "0 \<le> add" "0 < prev + (add :: int)"
  shows "prev div (prev + add) = (if add = 0 then 1 else 0)"
  using assms by (auto intro: div_pos_pos_trivial)

lemma CalcPointBigint_value:
  assumes "referenceBlock period = Inr ref" "0 < ref + stakeBlock"
    "0 \<le> prev" "0 \<le> add" "0 < prev + add"
  shows "CalcPointBigint prev add now stakeBlock period =
    Inr (prev + (if add = 0 then prev * min 100 (now * 100 div (ref + stakeBlock)) div 100 else 0) + add)"
  using assms
  by (auto simp: CalcPointBigint_def Let_def big_Div_pos stake_share min_def)

lemma CalcPointBigint_bounds_aux:
  fixes prev now m :: int
  assumes "0 \<le> prev" "0 \<le> now" "0 < m"
  shows "0 \<le> prev * min 100 (now * 100 div m) div 100"
    and "prev * min 100 (now * 100 div m) div 100 \<le> prev"
proof -
  let ?r = "min 100 (now * 100 div m)"
  have "0 \<le> now * 100 div m" using assms by (simp add: pos_imp_zdiv_nonneg_iff)
  then have r: "0 \<le> ?r" "?r \<le> 100" by auto
  then show "0 \<le> prev * ?r div 100" using assms(1) by (simp add: pos_imp_zdiv_nonneg_iff)
  have "prev * ?r \<le> prev * 100" using assms(1) r by (intro mult_left_mono)
  then have "prev * ?r div 100 \<le> prev * 100 div 100" by (rule zdiv_mono1) simp
  then show "prev * ?r div 100 \<le> prev" by simp
qed

lemma CalcPointBigint_share:
  assumes "referenceBlock period = Inr ref" "0 < ref + stakeBlock" "0 < prev + add"
  shows "CalcPointBigint prev add now stakeBlock period =
    Inr (prev + prev * (prev div (prev + add)) * min 100 (now * 100 div (ref + stakeBlock)) div 100 + add)"
  using assms by (auto simp: CalcPointBigint_def Let_def big_Div_pos min_def)

text \<open>C24: For a previous stake that is not negative, a positive total of whole tokens and a period of at most 36 million
  seconds, the selection point is computed without a panic. It is at least the total, and exceeds it by at
  most the previous stake times the whole-number quotient of previous stake and total. A stake that does not shrink
  therefore has at most twice its total as its point; a stake that shrinks can have far more.\<close>

theorem CalcPointBigint_bounds:
  assumes "0 < period" "uint period \<le> 36000000"
    and "0 \<le> prevStake" "0 < prevStake + addStake" "0 \<le> nowBlock" "0 \<le> stakeBlock"
  shows "\<exists>point. CalcPointBigint prevStake addStake nowBlock stakeBlock period = Inr point
    \<and> prevStake + addStake \<le> point
    \<and> point \<le> prevStake + addStake + prevStake * (prevStake div (prevStake + addStake))
    \<and> (0 \<le> addStake \<longrightarrow> point \<le> 2 * (prevStake + addStake))"
proof -
  let ?q = "prevStake * (prevStake div (prevStake + addStake))"
  obtain ref where ref: "referenceBlock period = Inr ref" "0 < ref"
    using referenceBlock_ok [OF assms(1,2)] by blast
  then have m: "0 < ref + stakeBlock" using assms(6) by simp
  have q: "0 \<le> ?q" using assms(3,4) by (simp add: pos_imp_zdiv_nonneg_iff)
  have "?q \<le> prevStake" if "0 \<le> addStake"
  proof -
    have "prevStake div (prevStake + addStake) \<le> prevStake div prevStake" if "prevStake \<noteq> 0"
      using that \<open>0 \<le> addStake\<close> assms(3) by (intro zdiv_mono2) simp_all
    then show ?thesis
      using assms(3) mult_left_mono [of "prevStake div (prevStake + addStake)" 1 prevStake] by (cases "prevStake = 0") auto
  qed
  then show ?thesis
    using CalcPointBigint_share [OF ref(1) m assms(4), of nowBlock] CalcPointBigint_bounds_aux [OF q assms(5) m] by auto
qed

theorem CalcPointBigint_bounds_witness:
  "\<exists>point. CalcPointBigint 1000 (- 999) 7200021 1 360 = Inr point \<and> 1 \<le> point \<and> point \<le> 1000001"
  using CalcPointBigint_bounds [of 360 1000 "- 999" 7200021 1] by simp

text \<open>C25: The advantage for an old stake is lost as soon as anything is added to it: with a positive
  addition the selection point is exactly the new total, although the formula in the source's
  comment gives the old stake a proportional share of its advantage.\<close>

theorem CalcPointBigint_added:
  assumes "0 < period" "uint period \<le> 36000000"
    and "0 \<le> prevStake" "0 < addStake" "0 \<le> stakeBlock"
  shows "CalcPointBigint prevStake addStake nowBlock stakeBlock period = Inr (prevStake + addStake)"
proof -
  obtain ref where ref: "referenceBlock period = Inr ref" "0 < ref"
    using referenceBlock_ok [OF assms(1,2)] by blast
  then have "0 < ref + stakeBlock" using assms(5) by simp
  from CalcPointBigint_value [OF ref(1) this, of prevStake addStake nowBlock] assms show ?thesis
    by simp
qed

theorem CalcPointBigint_added_witness:
  "CalcPointBigint 1000000 1 9000000 0 10 = Inr (1000000 + 1)"
  by (rule CalcPointBigint_added) simp_all

text \<open>With a total of zero the share divides by zero.\<close>

lemma CalcPointBigint_zero_total:
  assumes "0 < period" "uint period \<le> 36000000"
  shows "CalcPointBigint prev (0 - prev) now stakeBlock period = Inl DivideByZero"
proof -
  obtain ref where ref: "referenceBlock period = Inr ref" using referenceBlock_ok [OF assms] by blast
  then show ?thesis by (cases "ref + stakeBlock = 0") (simp_all add: CalcPointBigint_def big_Div_def Let_def)
qed

subsection \<open>Properties of the database\<close>

lemma enc_addresses:
  "enc_val (stakers_EncodeRLP s) = address_array.enc_list (map addr_bytes s)"
  by (simp add: stakers_EncodeRLP_def AsList_def address_array.enc_list_def comp_def)

lemma length_spec_address: "length (spec_string (addr_bytes a)) = 21"
  by (simp add: spec_string_def spec_head_def length_addr_bytes)

lemma length_spec_addresses: "length (concat (map spec_string (map addr_bytes s))) = 21 * length s"
  by (induction s) (simp_all add: length_spec_address)

lemma length_enc_addresses:
  assumes "length s < 2 ^ 59"
  shows "length (enc_val (stakers_EncodeRLP s)) < 2 ^ 64"
proof -
  have "length (nat_bytes (21 * length s)) \<le> 8"
    using assms by (intro length_nat_bytes) simp
  then have "length (spec_head 0xC0 0xF7 (21 * length s)) \<le> 9" by (simp add: spec_head_def)
  then show ?thesis
    using assms length_spec_addresses [of s]
    unfolding enc_addresses address_array.enc_list_def spec_list_def length_append length_spec_addresses
    by simp
qed

lemma staking_codec:
  assumes "length s < 2 ^ 59"
  shows "\<exists>b. EncodeToBytes (stakers_EncodeRLP s) = Inr b
    \<and> DecodeBytes (decodeListSlice (decodeByteArray 20)) b = Inr (map addr_bytes s)"
proof -
  let ?v = "stakers_EncodeRLP s" and ?b = "enc_val (stakers_EncodeRLP s)"
  have "plain ?v" by (simp add: stakers_EncodeRLP_def list_all_iff)
  then have e: "EncodeToBytes ?v = Inr ?b"
    using EncodeToBytes_Inr rlp_spec_plain(1) length_enc_addresses [OF assms] by blast
  have "address_array.ok_list (map addr_bytes s)"
    using assms length_spec_addresses [of s]
    by (simp add: address_array.ok_list_def length_addr_bytes)
  then have "DecodeBytes (decodeListSlice (decodeByteArray 20)) ?b = Inr (map addr_bytes s)"
    using DecodeBytes_contract [OF address_list.element_decoder_axioms length_enc_addresses [OF assms]]
    by (simp add: enc_addresses)
  with e show ?thesis by blast
qed

lemma staking_store:
  assumes "stakers_inv stks" "length stks < 2 ^ 59"
  shows "\<exists>s'. staking_Commit s key stks = Inr s'
    \<and> (\<forall>key'. GetStakers s' key' = (if key' = key then Inr stks else GetStakers s key'))"
proof -
  from staking_codec [OF assms(2)] obtain b where
    b: "EncodeToBytes (stakers_EncodeRLP stks) = Inr b"
      "DecodeBytes (decodeListSlice (decodeByteArray 20)) b = Inr (map addr_bytes stks)" by blast
  have "FetchFromList NewStakers stks = stks"
    using assms(1) by (simp add: NewStakers_def stakers_inv_def FetchFromList_distinct)
  then show ?thesis
    using b by (auto simp: staking_Commit_def pushValue_def GetStakers_def getValue_def update_conv'
        comp_def)
qed

text \<open>C21: What \<open>Commit\<close> stores under a block hash is what \<open>GetStakers\<close> reads back from there, through
  the RLP encoding, and every other entry of the database reads as before.\<close>

theorem GetStakers_Commit:
  assumes "stakers_inv stks" "length stks < 2 ^ 59"
  shows "\<exists>s'. staking_Commit s key stks = Inr s'
    \<and> (\<forall>key'. GetStakers s' key' = (if key' = key then Inr stks else GetStakers s key'))"
  using assms by (rule staking_store)

theorem GetStakers_Commit_witness:
  "\<exists>s'. staking_Commit \<lparr>stakeDB = [], NoPruning = False\<rparr> ''0x01'' [7, 3] = Inr s'
    \<and> (\<forall>key'. GetStakers s' key' =
         (if key' = ''0x01'' then Inr [7, 3]
          else GetStakers \<lparr>stakeDB = [], NoPruning = False\<rparr> key'))"
  by (rule GetStakers_Commit) (simp_all add: stakers_inv_def)

text \<open>The headers a clean-up visits: a header and its ancestors, child first.\<close>

fun ancestor_path :: "('h \<Rightarrow> 'h option) \<Rightarrow> 'h list \<Rightarrow> bool" where
  "ancestor_path parent [] = True"
| "ancestor_path parent [x] = True"
| "ancestor_path parent (x # y # zs) = (parent x = Some y \<and> ancestor_path parent (y # zs))"

lemma map_of_staking_delete:
  "map_of (stakeDB (staking_delete s k)) = (map_of (stakeDB s))(k := None)"
  by (simp add: staking_delete_def delete_conv')

text \<open>What a clean-up of a line of headers leaves: it reached the header \<open>l\<close> through headers that all had an entry
  of their own, and \<open>l\<close> has none, or has the key of one of them.\<close>

definition cleaned :: "('h \<Rightarrow> string) \<Rightarrow> ('h \<Rightarrow> 'h option) \<Rightarrow> StakingDB \<Rightarrow> 'h list \<Rightarrow> 'h \<Rightarrow> StakingDB \<Rightarrow> bool" where
  "cleaned key parent s hs l s' \<longleftrightarrow> ancestor_path parent (hs @ [l])
     \<and> distinct (map key hs) \<and> (\<forall>a\<in>set hs. staking_isExist s (key a))
     \<and> (\<not> staking_isExist s (key l) \<or> key l \<in> key ` set hs)
     \<and> map_of (stakeDB s') = map_of (stakeDB s) |` (- key ` set hs)"

lemma isExist_delete: "staking_isExist (staking_delete s k) k' \<longleftrightarrow> k' \<noteq> k \<and> staking_isExist s k'"
  by (simp add: staking_isExist_def map_of_staking_delete)

lemma cleaned_Cons:
  assumes "cleaned key parent (staking_delete s (key h)) hs l s'" "staking_isExist s (key h)" "parent h = Some (hd (hs @ [l]))"
  shows "cleaned key parent s (h # hs) l s'"
proof -
  have "ancestor_path parent ((h # hs) @ [l])"
    using assms(1,3) by (cases "hs @ [l]") (auto simp: cleaned_def)
  moreover have "map_of (stakeDB s') = map_of (stakeDB s) |` (- key ` set (h # hs))"
    using assms(1) by (auto simp: cleaned_def map_of_staking_delete restrict_map_def)
  ultimately show ?thesis using assms(1,2) by (auto simp: cleaned_def isExist_delete)
qed

lemma Clean_loop_spec:
  "case Clean_loop key parent s (Some h) of
     Inr s' \<Rightarrow> \<exists>hs l. hd (hs @ [l]) = h \<and> cleaned key parent s hs l s'
   | Inl p \<Rightarrow> p = NilDereference \<and> (\<exists>hs. hs \<noteq> [] \<and> hd hs = h \<and> ancestor_path parent hs \<and> parent (last hs) = None
       \<and> distinct (map key hs) \<and> (\<forall>a\<in>set hs. staking_isExist s (key a)))"
proof (induction "length (stakeDB s)" arbitrary: s h rule: less_induct)
  case less
  let ?s = "staking_delete s (key h)"
  show ?case
  proof (cases "staking_isExist s (key h)")
    case False
    then show ?thesis by (auto simp: cleaned_def restrict_map_def intro!: exI [of _ "[]"] exI [of _ h])
  next
    case e: True
    show ?thesis
    proof (cases "parent h")
      case None
      with e show ?thesis by (auto intro!: exI [of _ "[h]"])
    next
      case (Some h')
      note IH = less.hyps [OF staking_delete_shorter [OF e], of h']
      show ?thesis
      proof (cases "Clean_loop key parent ?s (Some h')")
        case (Inr s')
        with IH obtain hs l where "hd (hs @ [l]) = h'" "cleaned key parent ?s hs l s'" by auto
        with cleaned_Cons [where key = key and h = h] e Some have "hd ((h # hs) @ [l]) = h" "cleaned key parent s (h # hs) l s'" by auto
        moreover have "Clean_loop key parent s (Some h) = Inr s'" using e Some Inr by simp
        ultimately show ?thesis by (simp only: sum.case) blast
      next
        case (Inl p)
        with IH obtain hs where "p = NilDereference" "hs \<noteq> []" "hd hs = h'" "ancestor_path parent hs" "parent (last hs) = None"
          "distinct (map key hs)" "\<forall>a\<in>set hs. staking_isExist ?s (key a)" by auto
        moreover from this Some have "ancestor_path parent (h # hs)" by (cases hs) auto
        moreover from calculation have "distinct (map key (h # hs))" "\<forall>a\<in>set (h # hs). staking_isExist s (key a)"
          using e by (force simp: isExist_delete)+
        moreover have "Clean_loop key parent s (Some h) = Inl p" using e Some Inl by simp
        ultimately show ?thesis by (simp only: sum.case) (auto intro!: exI [of _ "h # hs"])
      qed
    qed
  qed
qed



end
