(* ===== verification/Keccak.thy ===== *)
theory Keccak
  imports Berith_Prelude
begin

text \<open>
  The Keccak hash of \<open>crypto/sha3\<close>: the permutation of \<open>keccakf.go\<close> and the sponge of \<open>sha3.go\<close>.

  \<open>keccakF1600\<close> runs its 24 rounds in place, four to a loop iteration, and leaves the lanes where they
  were read, so that the order of the lanes changes from round to round and is restored after four.
  Here \<open>a[i]\<close> is the variable \<open>ai\<close> and the assignments are the ones of the code. The rounds are compared
  with the five step mappings of the standard, FIPS 202, whose rotation offsets and round constants
  are computed as the standard defines them.
\<close>

unbundle bit_operations_syntax

definition rotl :: "u64 \<Rightarrow> nat \<Rightarrow> u64" where
  "rotl t n = push_bit n t OR drop_bit (64 - n) t"

definition keccak_rc :: "u64 list" where
  "keccak_rc =
   [0x0000000000000001, 0x0000000000008082, 0x800000000000808A, 0x8000000080008000,
    0x000000000000808B, 0x0000000080000001, 0x8000000080008081, 0x8000000000008009,
    0x000000000000008A, 0x0000000000000088, 0x0000000080008009, 0x000000008000000A,
    0x000000008000808B, 0x800000000000008B, 0x8000000000008089, 0x8000000000008003,
    0x8000000000008002, 0x8000000000000080, 0x000000000000800A, 0x800000008000000A,
    0x8000000080008081, 0x8000000000008080, 0x0000000080000001, 0x8000000080008008]"

definition theta_deltas :: "u64 list \<Rightarrow> u64 \<times> u64 \<times> u64 \<times> u64 \<times> u64" where
  "theta_deltas a =
     (case a of
        [a0, a1, a2, a3, a4, a5, a6, a7, a8, a9, a10, a11, a12, a13, a14, a15, a16, a17, a18, a19, a20, a21, a22, a23, a24] \<Rightarrow>
          (let bc0 = a0 XOR a5 XOR a10 XOR a15 XOR a20;
               bc1 = a1 XOR a6 XOR a11 XOR a16 XOR a21;
               bc2 = a2 XOR a7 XOR a12 XOR a17 XOR a22;
               bc3 = a3 XOR a8 XOR a13 XOR a18 XOR a23;
               bc4 = a4 XOR a9 XOR a14 XOR a19 XOR a24;
               d0 = bc4 XOR rotl bc1 1;
               d1 = bc0 XOR rotl bc2 1;
               d2 = bc1 XOR rotl bc3 1;
               d3 = bc2 XOR rotl bc4 1;
               d4 = bc3 XOR rotl bc0 1
           in (d0, d1, d2, d3, d4))
      | _ \<Rightarrow> (0, 0, 0, 0, 0))"

definition kf_round1 :: "u64 \<Rightarrow> u64 list \<Rightarrow> u64 list" where
  "kf_round1 r a =
     (case theta_deltas a of (d0, d1, d2, d3, d4) \<Rightarrow>
      case a of
        [a0, a1, a2, a3, a4, a5, a6, a7, a8, a9, a10, a11, a12, a13, a14, a15, a16, a17, a18, a19, a20, a21, a22, a23, a24] \<Rightarrow>
          (let bc0 = a0 XOR d0;
               t = a6 XOR d1;
               bc1 = rotl t 44;
               t = a12 XOR d2;
               bc2 = rotl t 43;
               t = a18 XOR d3;
               bc3 = rotl t 21;
               t = a24 XOR d4;
               bc4 = rotl t 14;
               a0 = bc0 XOR (bc2 AND NOT bc1) XOR r;
               a6 = bc1 XOR (bc3 AND NOT bc2);
               a12 = bc2 XOR (bc4 AND NOT bc3);
               a18 = bc3 XOR (bc0 AND NOT bc4);
               a24 = bc4 XOR (bc1 AND NOT bc0);
               t = a10 XOR d0;
               bc2 = rotl t 3;
               t = a16 XOR d1;
               bc3 = rotl t 45;
               t = a22 XOR d2;
               bc4 = rotl t 61;
               t = a3 XOR d3;
               bc0 = rotl t 28;
               t = a9 XOR d4;
               bc1 = rotl t 20;
               a10 = bc0 XOR (bc2 AND NOT bc1);
               a16 = bc1 XOR (bc3 AND NOT bc2);
               a22 = bc2 XOR (bc4 AND NOT bc3);
               a3 = bc3 XOR (bc0 AND NOT bc4);
               a9 = bc4 XOR (bc1 AND NOT bc0);
               t = a20 XOR d0;
               bc4 = rotl t 18;
               t = a1 XOR d1;
               bc0 = rotl t 1;
               t = a7 XOR d2;
               bc1 = rotl t 6;
               t = a13 XOR d3;
               bc2 = rotl t 25;
               t = a19 XOR d4;
               bc3 = rotl t 8;
               a20 = bc0 XOR (bc2 AND NOT bc1);
               a1 = bc1 XOR (bc3 AND NOT bc2);
               a7 = bc2 XOR (bc4 AND NOT bc3);
               a13 = bc3 XOR (bc0 AND NOT bc4);
               a19 = bc4 XOR (bc1 AND NOT bc0);
               t = a5 XOR d0;
               bc1 = rotl t 36;
               t = a11 XOR d1;
               bc2 = rotl t 10;
               t = a17 XOR d2;
               bc3 = rotl t 15;
               t = a23 XOR d3;
               bc4 = rotl t 56;
               t = a4 XOR d4;
               bc0 = rotl t 27;
               a5 = bc0 XOR (bc2 AND NOT bc1);
               a11 = bc1 XOR (bc3 AND NOT bc2);
               a17 = bc2 XOR (bc4 AND NOT bc3);
               a23 = bc3 XOR (bc0 AND NOT bc4);
               a4 = bc4 XOR (bc1 AND NOT bc0);
               t = a15 XOR d0;
               bc3 = rotl t 41;
               t = a21 XOR d1;
               bc4 = rotl t 2;
               t = a2 XOR d2;
               bc0 = rotl t 62;
               t = a8 XOR d3;
               bc1 = rotl t 55;
               t = a14 XOR d4;
               bc2 = rotl t 39;
               a15 = bc0 XOR (bc2 AND NOT bc1);
               a21 = bc1 XOR (bc3 AND NOT bc2);
               a2 = bc2 XOR (bc4 AND NOT bc3);
               a8 = bc3 XOR (bc0 AND NOT bc4);
               a14 = bc4 XOR (bc1 AND NOT bc0)
           in [a0, a1, a2, a3, a4, a5, a6, a7, a8, a9, a10, a11, a12, a13, a14, a15, a16, a17, a18, a19, a20, a21, a22, a23, a24])
      | _ \<Rightarrow> a)"

definition kf_round2 :: "u64 \<Rightarrow> u64 list \<Rightarrow> u64 list" where
  "kf_round2 r a =
     (case theta_deltas a of (d0, d1, d2, d3, d4) \<Rightarrow>
      case a of
        [a0, a1, a2, a3, a4, a5, a6, a7, a8, a9, a10, a11, a12, a13, a14, a15, a16, a17, a18, a19, a20, a21, a22, a23, a24] \<Rightarrow>
          (let bc0 = a0 XOR d0;
               t = a16 XOR d1;
               bc1 = rotl t 44;
               t = a7 XOR d2;
               bc2 = rotl t 43;
               t = a23 XOR d3;
               bc3 = rotl t 21;
               t = a14 XOR d4;
               bc4 = rotl t 14;
               a0 = bc0 XOR (bc2 AND NOT bc1) XOR r;
               a16 = bc1 XOR (bc3 AND NOT bc2);
               a7 = bc2 XOR (bc4 AND NOT bc3);
               a23 = bc3 XOR (bc0 AND NOT bc4);
               a14 = bc4 XOR (bc1 AND NOT bc0);
               t = a20 XOR d0;
               bc2 = rotl t 3;
               t = a11 XOR d1;
               bc3 = rotl t 45;
               t = a2 XOR d2;
               bc4 = rotl t 61;
               t = a18 XOR d3;
               bc0 = rotl t 28;
               t = a9 XOR d4;
               bc1 = rotl t 20;
               a20 = bc0 XOR (bc2 AND NOT bc1);
               a11 = bc1 XOR (bc3 AND NOT bc2);
               a2 = bc2 XOR (bc4 AND NOT bc3);
               a18 = bc3 XOR (bc0 AND NOT bc4);
               a9 = bc4 XOR (bc1 AND NOT bc0);
               t = a15 XOR d0;
               bc4 = rotl t 18;
               t = a6 XOR d1;
               bc0 = rotl t 1;
               t = a22 XOR d2;
               bc1 = rotl t 6;
               t = a13 XOR d3;
               bc2 = rotl t 25;
               t = a4 XOR d4;
               bc3 = rotl t 8;
               a15 = bc0 XOR (bc2 AND NOT bc1);
               a6 = bc1 XOR (bc3 AND NOT bc2);
               a22 = bc2 XOR (bc4 AND NOT bc3);
               a13 = bc3 XOR (bc0 AND NOT bc4);
               a4 = bc4 XOR (bc1 AND NOT bc0);
               t = a10 XOR d0;
               bc1 = rotl t 36;
               t = a1 XOR d1;
               bc2 = rotl t 10;
               t = a17 XOR d2;
               bc3 = rotl t 15;
               t = a8 XOR d3;
               bc4 = rotl t 56;
               t = a24 XOR d4;
               bc0 = rotl t 27;
               a10 = bc0 XOR (bc2 AND NOT bc1);
               a1 = bc1 XOR (bc3 AND NOT bc2);
               a17 = bc2 XOR (bc4 AND NOT bc3);
               a8 = bc3 XOR (bc0 AND NOT bc4);
               a24 = bc4 XOR (bc1 AND NOT bc0);
               t = a5 XOR d0;
               bc3 = rotl t 41;
               t = a21 XOR d1;
               bc4 = rotl t 2;
               t = a12 XOR d2;
               bc0 = rotl t 62;
               t = a3 XOR d3;
               bc1 = rotl t 55;
               t = a19 XOR d4;
               bc2 = rotl t 39;
               a5 = bc0 XOR (bc2 AND NOT bc1);
               a21 = bc1 XOR (bc3 AND NOT bc2);
               a12 = bc2 XOR (bc4 AND NOT bc3);
               a3 = bc3 XOR (bc0 AND NOT bc4);
               a19 = bc4 XOR (bc1 AND NOT bc0)
           in [a0, a1, a2, a3, a4, a5, a6, a7, a8, a9, a10, a11, a12, a13, a14, a15, a16, a17, a18, a19, a20, a21, a22, a23, a24])
      | _ \<Rightarrow> a)"

definition kf_round3 :: "u64 \<Rightarrow> u64 list \<Rightarrow> u64 list" where
  "kf_round3 r a =
     (case theta_deltas a of (d0, d1, d2, d3, d4) \<Rightarrow>
      case a of
        [a0, a1, a2, a3, a4, a5, a6, a7, a8, a9, a10, a11, a12, a13, a14, a15, a16, a17, a18, a19, a20, a21, a22, a23, a24] \<Rightarrow>
          (let bc0 = a0 XOR d0;
               t = a11 XOR d1;
               bc1 = rotl t 44;
               t = a22 XOR d2;
               bc2 = rotl t 43;
               t = a8 XOR d3;
               bc3 = rotl t 21;
               t = a19 XOR d4;
               bc4 = rotl t 14;
               a0 = bc0 XOR (bc2 AND NOT bc1) XOR r;
               a11 = bc1 XOR (bc3 AND NOT bc2);
               a22 = bc2 XOR (bc4 AND NOT bc3);
               a8 = bc3 XOR (bc0 AND NOT bc4);
               a19 = bc4 XOR (bc1 AND NOT bc0);
               t = a15 XOR d0;
               bc2 = rotl t 3;
               t = a1 XOR d1;
               bc3 = rotl t 45;
               t = a12 XOR d2;
               bc4 = rotl t 61;
               t = a23 XOR d3;
               bc0 = rotl t 28;
               t = a9 XOR d4;
               bc1 = rotl t 20;
               a15 = bc0 XOR (bc2 AND NOT bc1);
               a1 = bc1 XOR (bc3 AND NOT bc2);
               a12 = bc2 XOR (bc4 AND NOT bc3);
               a23 = bc3 XOR (bc0 AND NOT bc4);
               a9 = bc4 XOR (bc1 AND NOT bc0);
               t = a5 XOR d0;
               bc4 = rotl t 18;
               t = a16 XOR d1;
               bc0 = rotl t 1;
               t = a2 XOR d2;
               bc1 = rotl t 6;
               t = a13 XOR d3;
               bc2 = rotl t 25;
               t = a24 XOR d4;
               bc3 = rotl t 8;
               a5 = bc0 XOR (bc2 AND NOT bc1);
               a16 = bc1 XOR (bc3 AND NOT bc2);
               a2 = bc2 XOR (bc4 AND NOT bc3);
               a13 = bc3 XOR (bc0 AND NOT bc4);
               a24 = bc4 XOR (bc1 AND NOT bc0);
               t = a20 XOR d0;
               bc1 = rotl t 36;
               t = a6 XOR d1;
               bc2 = rotl t 10;
               t = a17 XOR d2;
               bc3 = rotl t 15;
               t = a3 XOR d3;
               bc4 = rotl t 56;
               t = a14 XOR d4;
               bc0 = rotl t 27;
               a20 = bc0 XOR (bc2 AND NOT bc1);
               a6 = bc1 XOR (bc3 AND NOT bc2);
               a17 = bc2 XOR (bc4 AND NOT bc3);
               a3 = bc3 XOR (bc0 AND NOT bc4);
               a14 = bc4 XOR (bc1 AND NOT bc0);
               t = a10 XOR d0;
               bc3 = rotl t 41;
               t = a21 XOR d1;
               bc4 = rotl t 2;
               t = a7 XOR d2;
               bc0 = rotl t 62;
               t = a18 XOR d3;
               bc1 = rotl t 55;
               t = a4 XOR d4;
               bc2 = rotl t 39;
               a10 = bc0 XOR (bc2 AND NOT bc1);
               a21 = bc1 XOR (bc3 AND NOT bc2);
               a7 = bc2 XOR (bc4 AND NOT bc3);
               a18 = bc3 XOR (bc0 AND NOT bc4);
               a4 = bc4 XOR (bc1 AND NOT bc0)
           in [a0, a1, a2, a3, a4, a5, a6, a7, a8, a9, a10, a11, a12, a13, a14, a15, a16, a17, a18, a19, a20, a21, a22, a23, a24])
      | _ \<Rightarrow> a)"

definition kf_round4 :: "u64 \<Rightarrow> u64 list \<Rightarrow> u64 list" where
  "kf_round4 r a =
     (case theta_deltas a of (d0, d1, d2, d3, d4) \<Rightarrow>
      case a of
        [a0, a1, a2, a3, a4, a5, a6, a7, a8, a9, a10, a11, a12, a13, a14, a15, a16, a17, a18, a19, a20, a21, a22, a23, a24] \<Rightarrow>
          (let bc0 = a0 XOR d0;
               t = a1 XOR d1;
               bc1 = rotl t 44;
               t = a2 XOR d2;
               bc2 = rotl t 43;
               t = a3 XOR d3;
               bc3 = rotl t 21;
               t = a4 XOR d4;
               bc4 = rotl t 14;
               a0 = bc0 XOR (bc2 AND NOT bc1) XOR r;
               a1 = bc1 XOR (bc3 AND NOT bc2);
               a2 = bc2 XOR (bc4 AND NOT bc3);
               a3 = bc3 XOR (bc0 AND NOT bc4);
               a4 = bc4 XOR (bc1 AND NOT bc0);
               t = a5 XOR d0;
               bc2 = rotl t 3;
               t = a6 XOR d1;
               bc3 = rotl t 45;
               t = a7 XOR d2;
               bc4 = rotl t 61;
               t = a8 XOR d3;
               bc0 = rotl t 28;
               t = a9 XOR d4;
               bc1 = rotl t 20;
               a5 = bc0 XOR (bc2 AND NOT bc1);
               a6 = bc1 XOR (bc3 AND NOT bc2);
               a7 = bc2 XOR (bc4 AND NOT bc3);
               a8 = bc3 XOR (bc0 AND NOT bc4);
               a9 = bc4 XOR (bc1 AND NOT bc0);
               t = a10 XOR d0;
               bc4 = rotl t 18;
               t = a11 XOR d1;
               bc0 = rotl t 1;
               t = a12 XOR d2;
               bc1 = rotl t 6;
               t = a13 XOR d3;
               bc2 = rotl t 25;
               t = a14 XOR d4;
               bc3 = rotl t 8;
               a10 = bc0 XOR (bc2 AND NOT bc1);
               a11 = bc1 XOR (bc3 AND NOT bc2);
               a12 = bc2 XOR (bc4 AND NOT bc3);
               a13 = bc3 XOR (bc0 AND NOT bc4);
               a14 = bc4 XOR (bc1 AND NOT bc0);
               t = a15 XOR d0;
               bc1 = rotl t 36;
               t = a16 XOR d1;
               bc2 = rotl t 10;
               t = a17 XOR d2;
               bc3 = rotl t 15;
               t = a18 XOR d3;
               bc4 = rotl t 56;
               t = a19 XOR d4;
               bc0 = rotl t 27;
               a15 = bc0 XOR (bc2 AND NOT bc1);
               a16 = bc1 XOR (bc3 AND NOT bc2);
               a17 = bc2 XOR (bc4 AND NOT bc3);
               a18 = bc3 XOR (bc0 AND NOT bc4);
               a19 = bc4 XOR (bc1 AND NOT bc0);
               t = a20 XOR d0;
               bc3 = rotl t 41;
               t = a21 XOR d1;
               bc4 = rotl t 2;
               t = a22 XOR d2;
               bc0 = rotl t 62;
               t = a23 XOR d3;
               bc1 = rotl t 55;
               t = a24 XOR d4;
               bc2 = rotl t 39;
               a20 = bc0 XOR (bc2 AND NOT bc1);
               a21 = bc1 XOR (bc3 AND NOT bc2);
               a22 = bc2 XOR (bc4 AND NOT bc3);
               a23 = bc3 XOR (bc0 AND NOT bc4);
               a24 = bc4 XOR (bc1 AND NOT bc0)
           in [a0, a1, a2, a3, a4, a5, a6, a7, a8, a9, a10, a11, a12, a13, a14, a15, a16, a17, a18, a19, a20, a21, a22, a23, a24])
      | _ \<Rightarrow> a)"

fun keccak_iterations :: "nat list \<Rightarrow> u64 list \<Rightarrow> u64 list" where
  "keccak_iterations [] a = a"
| "keccak_iterations (i # is) a =
     keccak_iterations is
       (kf_round4 (keccak_rc ! (i + 3)) (kf_round3 (keccak_rc ! (i + 2))
         (kf_round2 (keccak_rc ! (i + 1)) (kf_round1 (keccak_rc ! i) a))))"

definition keccakF1600 :: "u64 list \<Rightarrow> u64 list" where
  "keccakF1600 a = keccak_iterations [0, 4, 8, 12, 16, 20] a"

subsection \<open>The permutation of the standard\<close>

text \<open>Lane \<open>(x, y)\<close> of the standard is element \<open>x + 5 * y\<close>.\<close>

definition fips_deltas :: "u64 list \<Rightarrow> u64 list" where
  "fips_deltas a =
     (let C = map (\<lambda>x. a ! x XOR a ! (x + 5) XOR a ! (x + 10) XOR a ! (x + 15) XOR a ! (x + 20)) [0..<5]
      in map (\<lambda>x. C ! ((x + 4) mod 5) XOR rotl (C ! ((x + 1) mod 5)) 1) [0..<5])"

definition rho_offsets :: "nat list" where
  "rho_offsets = snd (foldl (\<lambda>((x, y), tab) t.
       ((y, (2 * x + 3 * y) mod 5), tab[x + 5 * y := ((t + 1) * (t + 2) div 2) mod 64]))
     ((1, 0), replicate 25 0) [0..<24])"

definition pi_source :: "nat \<Rightarrow> nat" where
  "pi_source i = (let x = i mod 5; y = i div 5 in (x + 3 * y) mod 5 + 5 * x)"

definition fips_rho_pi :: "u64 list \<Rightarrow> u64 list \<Rightarrow> u64 list" where
  "fips_rho_pi D a =
     map (\<lambda>i. let j = pi_source i in rotl (a ! j XOR D ! (j mod 5)) (rho_offsets ! j)) [0..<25]"

definition fips_chi_iota :: "u64 \<Rightarrow> u64 list \<Rightarrow> u64 list" where
  "fips_chi_iota r b =
     (let c = map (\<lambda>i. let x = i mod 5; y = i div 5
                        in b ! i XOR (NOT (b ! ((x + 1) mod 5 + 5 * y)) AND b ! ((x + 2) mod 5 + 5 * y))) [0..<25]
      in c[0 := c ! 0 XOR r])"

definition fips_round :: "u64 \<Rightarrow> u64 list \<Rightarrow> u64 list" where
  "fips_round r a = fips_chi_iota r (fips_rho_pi (fips_deltas a) a)"

text \<open>The round constants come from a shift register of eight bits.\<close>

fun lfsr_bits :: "nat \<Rightarrow> bool list \<Rightarrow> bool list" where
  "lfsr_bits 0 R = []"
| "lfsr_bits (Suc n) R =
     (let b = R ! 7;
          S = False # butlast R;
          S = S[0 := b, 4 := S ! 4 \<noteq> b, 5 := S ! 5 \<noteq> b, 6 := S ! 6 \<noteq> b]
      in R ! 0 # lfsr_bits n S)"

definition fips_rc :: "nat \<Rightarrow> u64" where
  "fips_rc i =
     (let bits = lfsr_bits 168 [True, False, False, False, False, False, False, False]
      in foldr (\<lambda>j w. if bits ! (j + 7 * i) then w OR push_bit (2 ^ j - 1) 1 else w) [0..<7] 0)"

definition keccak_f :: "u64 list \<Rightarrow> u64 list" where
  "keccak_f a = foldl (\<lambda>a i. fips_round (fips_rc i) a) a [0..<24]"

subsection \<open>Four rounds in place are four rounds of the standard\<close>

text \<open>After a round in place, a result of the steps \<open>pi\<close>, \<open>chi\<close> and \<open>iota\<close> is in a lane of its
  own column, \<open>lane_slot\<close>; \<open>unslot\<close> restores the order.\<close>

definition lane_slot :: "nat \<Rightarrow> nat" where
  "lane_slot i = (let x = i mod 5; y = i div 5 in x + 5 * ((x + 2 * y) mod 5))"

definition unslot :: "u64 list \<Rightarrow> u64 list" where
  "unslot a = map (\<lambda>i. a ! lane_slot i) [0..<25]"

lemma rotl_0 [simp]: "rotl t 0 = t"
proof -
  have "drop_bit 64 t = 0" by (rule bit_eqI) (auto simp: bit_simps dest: bit_imp_le_length)
  then show ?thesis by (simp add: rotl_def)
qed

lemma rho_offsets_eq: "rho_offsets =
   [0, 1, 62, 28, 27, 36, 44, 6, 55, 20, 3, 10, 43, 25, 39, 41, 45, 15, 21, 8, 18, 2, 61, 56, 14]"
  by code_simp

lemma list25_cases:
  assumes "length a = 25"
  obtains a0 a1 a2 a3 a4 a5 a6 a7 a8 a9 a10 a11 a12 a13 a14 a15 a16 a17 a18 a19 a20 a21 a22 a23 a24 where "a = [a0, a1, a2, a3, a4, a5, a6, a7, a8, a9, a10, a11, a12, a13, a14, a15, a16, a17, a18, a19, a20, a21, a22, a23, a24]"
  using assms by (auto simp: numeral_eq_Suc length_Suc_conv)

lemma upt_25: "[0..<25] = [0, 1, 2, 3, 4, 5, 6, 7, 8, 9, 10, 11, 12, 13, 14, 15, 16, 17, 18, 19, 20, 21, 22, 23, 24]"
  and upt_5: "[0..<5] = [0, 1, 2, 3, 4]"
  by (simp_all add: upt_rec)

lemma unslot_25:
  "unslot [a0, a1, a2, a3, a4, a5, a6, a7, a8, a9, a10, a11, a12, a13, a14, a15, a16, a17, a18, a19, a20, a21, a22, a23, a24] =
   [a0, a6, a12, a18, a24, a10, a16, a22, a3, a9, a20, a1, a7, a13, a19, a5, a11, a17, a23, a4, a15, a21, a2, a8, a14]"
  by (simp add: unslot_def upt_25 lane_slot_def Let_def)

lemma fips_rho_pi_25:
  "fips_rho_pi [d0, d1, d2, d3, d4] [a0, a1, a2, a3, a4, a5, a6, a7, a8, a9, a10, a11, a12, a13, a14, a15, a16, a17, a18, a19, a20, a21, a22, a23, a24] =
   [a0 XOR d0, rotl (a6 XOR d1) 44, rotl (a12 XOR d2) 43, rotl (a18 XOR d3) 21, rotl (a24 XOR d4) 14,
    rotl (a3 XOR d3) 28, rotl (a9 XOR d4) 20, rotl (a10 XOR d0) 3, rotl (a16 XOR d1) 45, rotl (a22 XOR d2) 61,
    rotl (a1 XOR d1) 1, rotl (a7 XOR d2) 6, rotl (a13 XOR d3) 25, rotl (a19 XOR d4) 8, rotl (a20 XOR d0) 18,
    rotl (a4 XOR d4) 27, rotl (a5 XOR d0) 36, rotl (a11 XOR d1) 10, rotl (a17 XOR d2) 15, rotl (a23 XOR d3) 56,
    rotl (a2 XOR d2) 62, rotl (a8 XOR d3) 55, rotl (a14 XOR d4) 39, rotl (a15 XOR d0) 41, rotl (a21 XOR d1) 2]"
  by (simp add: fips_rho_pi_def upt_25 pi_source_def rho_offsets_eq Let_def)

lemma fips_chi_iota_25:
  "fips_chi_iota r [a0, a1, a2, a3, a4, a5, a6, a7, a8, a9, a10, a11, a12, a13, a14, a15, a16, a17, a18, a19, a20, a21, a22, a23, a24] =
   [a0 XOR (a2 AND NOT a1) XOR r, a1 XOR (a3 AND NOT a2), a2 XOR (a4 AND NOT a3), a3 XOR (a0 AND NOT a4), a4 XOR (a1 AND NOT a0),
    a5 XOR (a7 AND NOT a6), a6 XOR (a8 AND NOT a7), a7 XOR (a9 AND NOT a8), a8 XOR (a5 AND NOT a9), a9 XOR (a6 AND NOT a5),
    a10 XOR (a12 AND NOT a11), a11 XOR (a13 AND NOT a12), a12 XOR (a14 AND NOT a13), a13 XOR (a10 AND NOT a14), a14 XOR (a11 AND NOT a10),
    a15 XOR (a17 AND NOT a16), a16 XOR (a18 AND NOT a17), a17 XOR (a19 AND NOT a18), a18 XOR (a15 AND NOT a19), a19 XOR (a16 AND NOT a15),
    a20 XOR (a22 AND NOT a21), a21 XOR (a23 AND NOT a22), a22 XOR (a24 AND NOT a23), a23 XOR (a20 AND NOT a24), a24 XOR (a21 AND NOT a20)]"
  by (simp add: fips_chi_iota_def upt_25 Let_def and.commute xor.assoc)

lemma fips_deltas_25:
  "fips_deltas [a0, a1, a2, a3, a4, a5, a6, a7, a8, a9, a10, a11, a12, a13, a14, a15, a16, a17, a18, a19, a20, a21, a22, a23, a24] =
   (let C0 = a0 XOR a5 XOR a10 XOR a15 XOR a20; C1 = a1 XOR a6 XOR a11 XOR a16 XOR a21; C2 = a2 XOR a7 XOR a12 XOR a17 XOR a22;
        C3 = a3 XOR a8 XOR a13 XOR a18 XOR a23; C4 = a4 XOR a9 XOR a14 XOR a19 XOR a24
    in [C4 XOR rotl C1 1, C0 XOR rotl C2 1, C1 XOR rotl C3 1, C2 XOR rotl C4 1, C3 XOR rotl C0 1])"
  by (simp add: fips_deltas_def upt_5 Let_def)

lemma length_unslot [simp]: "length (unslot a) = 25"
  by (simp add: unslot_def)

lemma fips_deltas_unslot:
  assumes "length a = 25"
  shows "fips_deltas (unslot a) = fips_deltas a"
  using assms by (rule list25_cases) (simp add: unslot_25 fips_deltas_25 Let_def xor.left_commute xor.commute)

lemma theta_deltas_fips:
  assumes "length a = 25"
  obtains d0 d1 d2 d3 d4 where "theta_deltas a = (d0, d1, d2, d3, d4)" "fips_deltas a = [d0, d1, d2, d3, d4]"
  using assms by (rule list25_cases) (simp add: theta_deltas_def fips_deltas_25 Let_def)

lemma unslot_4:
  assumes "length a = 25"
  shows "unslot (unslot (unslot (unslot a))) = a"
  using assms by (rule list25_cases) (simp add: unslot_25)

lemmas lane_steps = Let_def unslot_25 fips_rho_pi_25 fips_chi_iota_25 fips_round_def fips_deltas_unslot

lemma kf_round1_fips:
  assumes "length a = 25"
  shows "unslot (kf_round1 r a) = fips_round r a"
proof -
  from assms obtain d0 d1 d2 d3 d4 where
    d: "theta_deltas a = (d0, d1, d2, d3, d4)" "fips_deltas a = [d0, d1, d2, d3, d4]" by (rule theta_deltas_fips)
  from assms show ?thesis
  proof (rule list25_cases)
    fix a0 a1 a2 a3 a4 a5 a6 a7 a8 a9 a10 a11 a12 a13 a14 a15 a16 a17 a18 a19 a20 a21 a22 a23 a24
    assume a: "a = [a0, a1, a2, a3, a4, a5, a6, a7, a8, a9, a10, a11, a12, a13, a14, a15, a16, a17, a18, a19, a20, a21, a22, a23, a24]"
    show ?thesis using d unfolding a by (simp add: kf_round1_def lane_steps)
  qed
qed

lemma kf_round2_fips:
  assumes "length a = 25"
  shows "unslot (unslot (kf_round2 r a)) = fips_round r (unslot a)"
proof -
  from assms obtain d0 d1 d2 d3 d4 where
    d: "theta_deltas a = (d0, d1, d2, d3, d4)" "fips_deltas (unslot a) = [d0, d1, d2, d3, d4]"
    unfolding fips_deltas_unslot [OF assms] by (rule theta_deltas_fips)
  from assms show ?thesis
  proof (rule list25_cases)
    fix a0 a1 a2 a3 a4 a5 a6 a7 a8 a9 a10 a11 a12 a13 a14 a15 a16 a17 a18 a19 a20 a21 a22 a23 a24
    assume a: "a = [a0, a1, a2, a3, a4, a5, a6, a7, a8, a9, a10, a11, a12, a13, a14, a15, a16, a17, a18, a19, a20, a21, a22, a23, a24]"
    show ?thesis using d unfolding a by (simp add: kf_round2_def lane_steps)
  qed
qed

lemma kf_round3_fips:
  assumes "length a = 25"
  shows "unslot (unslot (unslot (kf_round3 r a))) = fips_round r (unslot (unslot a))"
proof -
  from assms obtain d0 d1 d2 d3 d4 where
    d: "theta_deltas a = (d0, d1, d2, d3, d4)" "fips_deltas (unslot (unslot a)) = [d0, d1, d2, d3, d4]"
    unfolding fips_deltas_unslot [OF length_unslot] fips_deltas_unslot [OF assms] by (rule theta_deltas_fips)
  from assms show ?thesis
  proof (rule list25_cases)
    fix a0 a1 a2 a3 a4 a5 a6 a7 a8 a9 a10 a11 a12 a13 a14 a15 a16 a17 a18 a19 a20 a21 a22 a23 a24
    assume a: "a = [a0, a1, a2, a3, a4, a5, a6, a7, a8, a9, a10, a11, a12, a13, a14, a15, a16, a17, a18, a19, a20, a21, a22, a23, a24]"
    show ?thesis using d unfolding a by (simp add: kf_round3_def lane_steps)
  qed
qed

lemma kf_round4_fips:
  assumes "length a = 25"
  shows "kf_round4 r a = fips_round r (unslot (unslot (unslot a)))"
proof -
  from assms obtain d0 d1 d2 d3 d4 where
    d: "theta_deltas a = (d0, d1, d2, d3, d4)" "fips_deltas (unslot (unslot (unslot a))) = [d0, d1, d2, d3, d4]"
    unfolding fips_deltas_unslot [OF length_unslot] fips_deltas_unslot [OF assms] by (rule theta_deltas_fips)
  from assms show ?thesis
  proof (rule list25_cases)
    fix a0 a1 a2 a3 a4 a5 a6 a7 a8 a9 a10 a11 a12 a13 a14 a15 a16 a17 a18 a19 a20 a21 a22 a23 a24
    assume a: "a = [a0, a1, a2, a3, a4, a5, a6, a7, a8, a9, a10, a11, a12, a13, a14, a15, a16, a17, a18, a19, a20, a21, a22, a23, a24]"
    show ?thesis using d unfolding a by (simp add: kf_round4_def lane_steps)
  qed
qed

lemma lfsr_step:
  "lfsr_bits (numeral n) [r0, r1, r2, r3, r4, r5, r6, r7] =
   r0 # lfsr_bits (pred_numeral n) [r7, r0, r1, r2, r3 \<noteq> r7, r4 \<noteq> r7, r5 \<noteq> r7, r6]"
  "lfsr_bits (Suc 0) [r0, r1, r2, r3, r4, r5, r6, r7] = [r0]"
  by (simp_all add: numeral_eq_Suc)

lemma lfsr_168:
  "lfsr_bits 168 [True, False, False, False, False, False, False, False] =
   [True, False, False, False, False, False, False, False, True, False, True, True, False, False,
    False, True, True, True, True, False, True, False, False, False, False, True, True, True,
    True, True, True, True, True, False, False, True, False, False, False, False, True, False,
    True, False, False, True, True, True, True, True, False, True, False, True, False, True,
    False, True, True, True, False, False, False, False, False, True, True, False, False, False,
    True, False, True, False, True, True, False, False, True, True, False, False, True, False,
    True, True, True, True, True, True, False, True, True, True, True, False, False, True,
    True, False, True, True, True, False, True, True, True, False, False, True, False, True,
    False, True, False, False, True, False, True, False, False, False, True, False, False, True,
    False, True, True, False, True, False, False, False, True, True, False, False, True, True,
    True, False, False, True, True, True, True, False, False, False, True, True, False, True,
    True, False, False, False, False, True, False, False, False, True, False, True, True, True]"
  by (simp add: lfsr_step del: lfsr_bits.simps(2))

lemma upt_24: "[0..<24] = [0, 1, 2, 3, 4, 5, 6, 7, 8, 9, 10, 11, 12, 13, 14, 15, 16, 17, 18, 19, 20, 21, 22, 23]"
  and upt_7: "[0..<7] = [0, 1, 2, 3, 4, 5, 6]"
  by (simp_all add: upt_rec)

lemma keccak_rc_fips: "map fips_rc [0..<24] = keccak_rc"
  by (simp add: fips_rc_def lfsr_168 upt_24 upt_7 keccak_rc_def)

subsection \<open>The permutation\<close>

lemma length_fips_round [simp]: "length (fips_round r a) = 25"
  by (simp add: fips_round_def fips_chi_iota_def Let_def)

lemma length_kf_round:
  assumes "length a = 25"
  shows "length (kf_round1 r a) = 25" "length (kf_round2 r a) = 25"
    "length (kf_round3 r a) = 25" "length (kf_round4 r a) = 25"
  by (rule list25_cases [OF assms]; simp add: kf_round1_def kf_round2_def kf_round3_def kf_round4_def
      theta_deltas_def Let_def)+

lemma four_rounds:
  assumes "length a = 25"
  shows "kf_round4 r3 (kf_round3 r2 (kf_round2 r1 (kf_round1 r0 a))) =
    fips_round r3 (fips_round r2 (fips_round r1 (fips_round r0 a)))"
  using assms by (simp add: length_kf_round kf_round4_fips kf_round3_fips kf_round2_fips kf_round1_fips)

lemma keccak_rc_nth: "i < 24 \<Longrightarrow> keccak_rc ! i = fips_rc i"
  unfolding keccak_rc_fips [symmetric] by simp

lemma keccakF1600_fips:
  assumes "length a = 25"
  shows "keccakF1600 a = keccak_f a"
  using assms by (simp add: keccakF1600_def keccak_f_def upt_24 four_rounds keccak_rc_nth numeral_2_eq_2)

text \<open>C15: The unrolled, in-place permutation is the permutation Keccak-f[1600] of the standard: on a state
  of 25 lanes, \<open>keccakF1600\<close> equals 24 rounds of the five step mappings, with the rotation offsets and
  the round constants that the standard computes.\<close>

theorem keccakF1600_standard:
  assumes "length a = 25"
  shows "keccakF1600 a = keccak_f a"
  using assms by (rule keccakF1600_fips)

theorem keccakF1600_standard_witness: "keccakF1600 (replicate 25 0) = keccak_f (replicate 25 0)"
  by (rule keccakF1600_standard) simp

subsection \<open>The sponge\<close>

text \<open>The slice \<open>buf\<close> of the code points into the array \<open>storage\<close>; the model keeps what it holds. Every rate
  in use is a multiple of 8, so that \<open>copyOut\<close> overwrites all of the buffer it gets. A loop that does not
  end, which takes a rate of 0, is \<open>None\<close>.\<close>

datatype spongeDirection = spongeAbsorbing | spongeSqueezing

record sponge =
  sp_a :: "u64 list"
  sp_buf :: "byte list"
  sp_rate :: nat
  sp_dsbyte :: byte
  sp_outputLen :: nat
  sp_state :: spongeDirection

definition new_sponge :: "nat \<Rightarrow> nat \<Rightarrow> byte \<Rightarrow> sponge" where
  "new_sponge rate outputLen dsbyte =
     \<lparr>sp_a = replicate 25 0, sp_buf = [], sp_rate = rate, sp_dsbyte = dsbyte, sp_outputLen = outputLen,
      sp_state = spongeAbsorbing\<rparr>"

definition NewKeccak256 :: sponge where "NewKeccak256 = new_sponge 136 32 0x01"
definition NewKeccak512 :: sponge where "NewKeccak512 = new_sponge 72 64 0x01"
definition New224 :: sponge where "New224 = new_sponge 144 28 0x06"
definition New256 :: sponge where "New256 = new_sponge 136 32 0x06"
definition New384 :: sponge where "New384 = new_sponge 104 48 0x06"
definition New512 :: sponge where "New512 = new_sponge 72 64 0x06"

definition sponge_Reset :: "sponge \<Rightarrow> sponge" where
  "sponge_Reset d = d\<lparr>sp_a := replicate 25 0, sp_state := spongeAbsorbing, sp_buf := []\<rparr>"

fun LittleEndian_Uint64 :: "byte list \<Rightarrow> u64" where
  "LittleEndian_Uint64 [] = 0"
| "LittleEndian_Uint64 (b # bs) = ucast b OR push_bit 8 (LittleEndian_Uint64 bs)"

definition LittleEndian_PutUint64 :: "u64 \<Rightarrow> byte list" where
  "LittleEndian_PutUint64 v = map (\<lambda>k. ucast (drop_bit (8 * k) v)) [0..<8]"

fun xorIn_loop :: "nat \<Rightarrow> nat \<Rightarrow> u64 list \<Rightarrow> byte list \<Rightarrow> u64 list" where
  "xorIn_loop 0 i a buf = a"
| "xorIn_loop (Suc n) i a buf =
     xorIn_loop n (i + 1) (a[i := a ! i XOR LittleEndian_Uint64 (take 8 buf)]) (drop 8 buf)"

definition xorIn :: "u64 list \<Rightarrow> byte list \<Rightarrow> u64 list" where
  "xorIn a buf = xorIn_loop (length buf div 8) 0 a buf"

function copyOut_loop :: "nat \<Rightarrow> u64 list \<Rightarrow> byte list \<Rightarrow> byte list" where
  "copyOut_loop i a b =
     (if 8 \<le> length b then LittleEndian_PutUint64 (a ! i) @ copyOut_loop (i + 1) a (drop 8 b) else b)"
  by pat_completeness auto
termination by (relation "measure (\<lambda>(i, a, b). length b)") auto

declare copyOut_loop.simps [simp del]

definition copyOut :: "u64 list \<Rightarrow> nat \<Rightarrow> byte list" where
  "copyOut a n = copyOut_loop 0 a (replicate n 0)"

definition permute :: "sponge \<Rightarrow> sponge" where
  "permute d =
     (case sp_state d of
        spongeAbsorbing \<Rightarrow> d\<lparr>sp_a := keccakF1600 (xorIn (sp_a d) (sp_buf d)), sp_buf := []\<rparr>
      | spongeSqueezing \<Rightarrow>
          (let a = keccakF1600 (sp_a d) in d\<lparr>sp_a := a, sp_buf := copyOut a (sp_rate d)\<rparr>))"

definition padAndPermute :: "sponge \<Rightarrow> sponge" where
  "padAndPermute d =
     (let buf = sp_buf d @ [sp_dsbyte d];
          buf = buf @ replicate (sp_rate d - length buf) 0;
          buf = buf[sp_rate d - 1 := buf ! (sp_rate d - 1) XOR 0x80];
          d = permute (d\<lparr>sp_buf := buf\<rparr>);
          d = d\<lparr>sp_state := spongeSqueezing\<rparr>
      in d\<lparr>sp_buf := copyOut (sp_a d) (sp_rate d)\<rparr>)"

partial_function (option) write_loop :: "sponge \<Rightarrow> byte list \<Rightarrow> sponge option" where
  "write_loop d p =
     (if p = [] then Some d
      else if sp_buf d = [] \<and> sp_rate d \<le> length p then
        write_loop (d\<lparr>sp_a := keccakF1600 (xorIn (sp_a d) (take (sp_rate d) p))\<rparr>) (drop (sp_rate d) p)
      else
        (let todo = min (sp_rate d - length (sp_buf d)) (length p);
             d1 = d\<lparr>sp_buf := sp_buf d @ take todo p\<rparr>
         in write_loop (if length (sp_buf d1) = sp_rate d1 then permute d1 else d1) (drop todo p)))"

declare write_loop.simps [code]

definition sponge_Write :: "sponge \<Rightarrow> byte list \<Rightarrow> sponge run option" where
  "sponge_Write d p =
     (if sp_state d \<noteq> spongeAbsorbing then Some (Inl (Panicked ''sha3: write to sponge after read''))
      else map_option Inr (write_loop d p))"

partial_function (option) read_loop :: "sponge \<Rightarrow> nat \<Rightarrow> byte list \<Rightarrow> (byte list \<times> sponge) option" where
  "read_loop d n out =
     (if n = 0 then Some (out, d)
      else
        (let k = min n (length (sp_buf d));
             d1 = d\<lparr>sp_buf := drop k (sp_buf d)\<rparr>
         in read_loop (if sp_buf d1 = [] then permute d1 else d1) (n - k) (out @ take k (sp_buf d))))"

declare read_loop.simps [code]

definition sponge_Read :: "sponge \<Rightarrow> nat \<Rightarrow> (byte list \<times> sponge) option" where
  "sponge_Read d n = read_loop (if sp_state d = spongeAbsorbing then padAndPermute d else d) n []"

definition sponge_Sum :: "sponge \<Rightarrow> byte list \<Rightarrow> byte list option" where
  "sponge_Sum d ins =
     (case sponge_Read d (sp_outputLen d) of None \<Rightarrow> None | Some (h, dup) \<Rightarrow> Some (ins @ h))"

fun write_all :: "sponge \<Rightarrow> byte list list \<Rightarrow> sponge run option" where
  "write_all d [] = Some (Inr d)"
| "write_all d (b # bs) =
     (case sponge_Write d b of
        None \<Rightarrow> None
      | Some (Inl p) \<Rightarrow> Some (Inl p)
      | Some (Inr d1) \<Rightarrow> write_all d1 bs)"

definition hash_of :: "sponge \<Rightarrow> byte list list \<Rightarrow> byte list run option" where
  "hash_of d data =
     (case write_all d data of
        None \<Rightarrow> None
      | Some (Inl p) \<Rightarrow> Some (Inl p)
      | Some (Inr d1) \<Rightarrow> map_option Inr (sponge_Sum d1 []))"

definition Keccak256 :: "byte list list \<Rightarrow> byte list run option" where
  "Keccak256 data = hash_of NewKeccak256 data"

definition Keccak512 :: "byte list list \<Rightarrow> byte list run option" where
  "Keccak512 data = hash_of NewKeccak512 data"

subsection \<open>The hash of the standard\<close>

text \<open>The message is padded to full blocks, each block is added to the state before a permutation, and the
  hash is the front of the state.\<close>

function absorb :: "nat \<Rightarrow> u64 list \<Rightarrow> byte list \<Rightarrow> u64 list \<times> byte list" where
  "absorb rate a m =
     (if 0 < rate \<and> rate \<le> length m then absorb rate (keccak_f (xorIn a (take rate m))) (drop rate m)
      else (a, m))"
  by pat_completeness auto
termination by (relation "measure (\<lambda>(rate, a, m). length m)") auto

declare absorb.simps [simp del]

definition padding :: "nat \<Rightarrow> byte \<Rightarrow> nat \<Rightarrow> byte list" where
  "padding rate dsbyte n =
     (let z = rate - n mod rate - 1
      in if z = 0 then [dsbyte XOR 0x80] else dsbyte # replicate (z - 1) 0 @ [0x80])"

definition sponge_hash :: "nat \<Rightarrow> nat \<Rightarrow> byte \<Rightarrow> byte list \<Rightarrow> byte list" where
  "sponge_hash rate outputLen dsbyte m =
     take outputLen (copyOut (fst (absorb rate (replicate 25 0) (m @ padding rate dsbyte (length m)))) rate)"

definition keccak256 :: "byte list \<Rightarrow> byte list" where
  "keccak256 m = sponge_hash 136 32 0x01 m"

subsection \<open>Absorbing\<close>

lemma length_xorIn_loop [simp]: "length (xorIn_loop n i a buf) = length a"
  by (induction n arbitrary: i a buf) auto

lemma length_xorIn [simp]: "length (xorIn a buf) = length a"
  by (simp add: xorIn_def)

lemma length_keccak_f [simp]: "length (keccak_f a) = 25"
  by (simp add: keccak_f_def upt_24)

lemma absorb_short: "length m < rate \<Longrightarrow> absorb rate a m = (a, m)"
  by (subst absorb.simps) simp

lemma absorb_block:
  "length b = rate \<Longrightarrow> 0 < rate \<Longrightarrow> absorb rate a (b @ m) = absorb rate (keccak_f (xorIn a b)) m"
  by (subst absorb.simps) simp

lemma absorb_rest: "0 < rate \<Longrightarrow> length (snd (absorb rate a m)) = length m mod rate"
proof (induction rate a m rule: absorb.induct)
  case (1 rate a m)
  show ?case
  proof (cases "rate \<le> length m")
    case True
    then show ?thesis using 1 by (subst absorb.simps) (simp add: le_mod_geq)
  qed (subst absorb.simps, use 1 in simp)
qed

lemma length_absorb: "length a = 25 \<Longrightarrow> length (fst (absorb rate a m)) = 25"
proof (induction rate a m rule: absorb.induct)
  case (1 rate a m)
  then show ?case by (subst absorb.simps) simp
qed

lemma absorb_append:
  "0 < rate \<Longrightarrow> absorb rate a (m @ p) = absorb rate (fst (absorb rate a m)) (snd (absorb rate a m) @ p)"
proof (induction rate a m rule: absorb.induct)
  case (1 rate a m)
  show ?case
  proof (cases "rate \<le> length m")
    case True
    have "absorb rate a (m @ p) = absorb rate (keccak_f (xorIn a (take rate m))) (drop rate m @ p)"
      using absorb_block [of "take rate m" rate a "drop rate m @ p"] True 1(2) by (simp flip: append_assoc)
    moreover have "absorb rate a m = absorb rate (keccak_f (xorIn a (take rate m))) (drop rate m)"
      using True 1(2) by (subst absorb.simps) simp
    ultimately show ?thesis using 1 True by simp
  qed (simp add: absorb_short)
qed

definition absorbing :: "sponge \<Rightarrow> bool" where
  "absorbing d \<longleftrightarrow> sp_state d = spongeAbsorbing \<and> 0 < sp_rate d \<and> length (sp_a d) = 25
     \<and> length (sp_buf d) < sp_rate d"

definition absorbed :: "sponge \<Rightarrow> byte list \<Rightarrow> sponge" where
  "absorbed d p = (case absorb (sp_rate d) (sp_a d) (sp_buf d @ p) of (a, b) \<Rightarrow> d\<lparr>sp_a := a, sp_buf := b\<rparr>)"

lemma absorbed_simps [simp]:
  "sp_state (absorbed d p) = sp_state d" "sp_rate (absorbed d p) = sp_rate d"
  "sp_dsbyte (absorbed d p) = sp_dsbyte d" "sp_outputLen (absorbed d p) = sp_outputLen d"
  "sp_a (absorbed d p) = fst (absorb (sp_rate d) (sp_a d) (sp_buf d @ p))"
  "sp_buf (absorbed d p) = snd (absorb (sp_rate d) (sp_a d) (sp_buf d @ p))"
  by (simp_all add: absorbed_def split: prod.split)

lemma absorbing_absorbed: "absorbing d \<Longrightarrow> absorbing (absorbed d p)"
  by (simp add: absorbing_def absorb_rest length_absorb)

lemma absorbed_absorbed:
  "absorbing d \<Longrightarrow> absorbed (absorbed d p) q = absorbed d (p @ q)"
  using absorb_append [of "sp_rate d" "sp_a d" "sp_buf d @ p" q]
  by (simp add: absorbing_def absorbed_def split: prod.split)

lemma absorbed_Nil: "absorbing d \<Longrightarrow> absorbed d [] = d"
  by (simp add: absorbing_def absorbed_def absorb_short)

lemma write_loop_absorbed: "absorbing d \<Longrightarrow> write_loop d p = Some (absorbed d p)"
proof (induction "length p" arbitrary: d p rule: less_induct)
  case less
  let ?r = "sp_rate d" and ?b = "sp_buf d"
  have d: "sp_state d = spongeAbsorbing" "0 < ?r" "length (sp_a d) = 25" "length ?b < ?r"
    using less.prems by (auto simp: absorbing_def)
  show ?case
  proof (cases "p = []")
    case True
    then show ?thesis using absorbed_Nil [OF less.prems] by (subst write_loop.simps) simp
  next
    case ne: False
    show ?thesis
    proof (cases "?b = [] \<and> ?r \<le> length p")
      case True
      define d1 where "d1 = d\<lparr>sp_a := keccakF1600 (xorIn (sp_a d) (take ?r p))\<rparr>"
      have "write_loop d p = write_loop d1 (drop ?r p)"
        using True ne by (subst write_loop.simps) (simp add: d1_def)
      also have "\<dots> = Some (absorbed d1 (drop ?r p))"
        using d True ne by (intro less.hyps) (auto simp: absorbing_def d1_def keccakF1600_fips)
      also have "absorbed d1 (drop ?r p) = absorbed d p"
        using True d absorb_block [of "take ?r p" ?r "sp_a d" "drop ?r p"]
        by (simp add: absorbed_def d1_def keccakF1600_fips split: prod.split)
      finally show ?thesis .
    next
      case False
      define n where "n = min (?r - length ?b) (length p)"
      define d1 where "d1 = d\<lparr>sp_buf := ?b @ take n p\<rparr>"
      have n: "0 < n" "n \<le> length p" "length (?b @ take n p) = length ?b + n"
        using d ne by (auto simp: n_def)
      have w: "write_loop d p = write_loop (if length (sp_buf d1) = sp_rate d1 then permute d1 else d1) (drop n p)"
        using False ne by (subst write_loop.simps) (auto simp: d1_def n_def Let_def)
      show ?thesis
      proof (cases "length ?b + n = ?r")
        case True
        have pd: "permute d1 = d\<lparr>sp_a := keccak_f (xorIn (sp_a d) (?b @ take n p)), sp_buf := []\<rparr>"
          using d by (simp add: permute_def d1_def keccakF1600_fips)
        have "write_loop d p = write_loop (permute d1) (drop n p)" using w True n by (simp add: d1_def)
        also have "\<dots> = Some (absorbed (permute d1) (drop n p))"
          using d n ne by (intro less.hyps) (auto simp: absorbing_def pd)
        also have "absorbed (permute d1) (drop n p) = absorbed d p"
          using absorb_block [of "?b @ take n p" ?r "sp_a d" "drop n p"] True n d
          by (simp add: absorbed_def pd split: prod.split)
        finally show ?thesis .
      next
        case nf: False
        then have "n = length p" "length (?b @ p) < ?r" using d n by (auto simp: n_def)
        moreover have "write_loop d1 [] = Some d1" by (subst write_loop.simps) simp
        ultimately show ?thesis
          using w nf by (simp add: d1_def absorbed_def absorb_short)
      qed
    qed
  qed
qed

lemma write_all_absorbed: "absorbing d \<Longrightarrow> write_all d data = Some (Inr (absorbed d (concat data)))"
proof (induction data arbitrary: d)
  case Nil
  then show ?case by (simp add: absorbed_Nil)
next
  case (Cons b bs)
  then have "sponge_Write d b = Some (Inr (absorbed d b))"
    by (simp add: sponge_Write_def write_loop_absorbed absorbing_def)
  then show ?case
    using Cons.IH [OF absorbing_absorbed [OF Cons.prems], of b] absorbed_absorbed [OF Cons.prems] by simp
qed

subsection \<open>Squeezing\<close>

lemma length_copyOut_loop [simp]: "length (copyOut_loop i a b) = length b"
proof (induction i a b rule: copyOut_loop.induct)
  case (1 i a b)
  then show ?case by (subst copyOut_loop.simps) (simp add: LittleEndian_PutUint64_def)
qed

lemma length_copyOut [simp]: "length (copyOut a n) = n"
  by (simp add: copyOut_def)

lemma padded_block:
  assumes "length buf < rate"
  shows "(let b = (buf @ [ds]) @ replicate (rate - length (buf @ [ds])) 0 in b[rate - 1 := b ! (rate - 1) XOR 0x80])
    = buf @ padding rate ds (length buf)"
proof -
  define z where "z = rate - length buf - 1"
  have r: "rate = Suc (length buf + z)" using assms by (simp add: z_def)
  show ?thesis
  proof (cases z)
    case 0
    then show ?thesis using r by (simp add: padding_def)
  next
    case (Suc y)
    have "replicate (Suc y) (0 :: byte) = replicate y 0 @ [0]" by (metis replicate_append_same replicate_Suc)
    then show ?thesis using r Suc by (simp add: padding_def list_update_append nth_append)
  qed
qed

lemma padAndPermute_absorbed:
  assumes "absorbing d"
  shows "sp_buf (padAndPermute d) =
      copyOut (fst (absorb (sp_rate d) (sp_a d) (sp_buf d @ padding (sp_rate d) (sp_dsbyte d) (length (sp_buf d))))) (sp_rate d)"
proof -
  let ?b = "sp_buf d @ padding (sp_rate d) (sp_dsbyte d) (length (sp_buf d))"
  have d: "sp_state d = spongeAbsorbing" "0 < sp_rate d" "length (sp_a d) = 25" "length (sp_buf d) < sp_rate d"
    using assms by (auto simp: absorbing_def)
  have "length ?b = sp_rate d" using d(4) by (simp add: padding_def Let_def) linarith
  with absorb_block [of ?b "sp_rate d" "sp_a d" "[]"] d(2)
  have "absorb (sp_rate d) (sp_a d) ?b = (keccak_f (xorIn (sp_a d) ?b), [])" by (simp add: absorb_short)
  with padded_block [OF d(4), of "sp_dsbyte d"] d show ?thesis
    by (simp add: padAndPermute_def permute_def keccakF1600_fips Let_def)
qed

lemma read_loop_front:
  assumes "n \<le> length (sp_buf d)"
  shows "\<exists>d'. read_loop d n out = Some (out @ take n (sp_buf d), d')"
proof (cases "n = 0")
  case True
  then show ?thesis by (subst read_loop.simps) simp
next
  case False
  have "read_loop d1 0 o1 = Some (o1, d1)" for d1 o1 by (subst read_loop.simps) simp
  with False assms show ?thesis by (subst read_loop.simps) (simp add: min_def Let_def)
qed

lemma hash_of_sponge_hash:
  assumes "0 < rate" "outputLen \<le> rate"
  shows "hash_of (new_sponge rate outputLen ds) data = Some (Inr (sponge_hash rate outputLen ds (concat data)))"
proof -
  let ?d = "new_sponge rate outputLen ds" and ?m = "concat data"
  define e where "e = absorbed ?d ?m"
  have a: "absorbing ?d" using assms(1) by (simp add: absorbing_def new_sponge_def)
  then have e: "absorbing e" unfolding e_def by (rule absorbing_absorbed)
  have f: "sp_state e = spongeAbsorbing" "sp_rate e = rate" "sp_outputLen e = outputLen" "sp_dsbyte e = ds"
    "sp_a e = fst (absorb rate (replicate 25 0) ?m)" "sp_buf e = snd (absorb rate (replicate 25 0) ?m)"
    by (simp_all add: e_def new_sponge_def)
  have "padding rate ds (length (sp_buf e)) = padding rate ds (length ?m)"
    using assms(1) by (simp add: f padding_def absorb_rest)
  then have "sp_buf (padAndPermute e) =
      copyOut (fst (absorb rate (replicate 25 0) (?m @ padding rate ds (length ?m)))) rate"
    using padAndPermute_absorbed [OF e] absorb_append [OF assms(1), of "replicate 25 0" ?m] by (simp add: f)
  then have "\<exists>d'. sponge_Read e outputLen = Some (sponge_hash rate outputLen ds ?m, d')"
    using read_loop_front [of outputLen "padAndPermute e" "[]"] assms(2)
    by (simp add: sponge_Read_def f sponge_hash_def)
  then show ?thesis
    using write_all_absorbed [OF a, of data] unfolding e_def [symmetric]
    by (auto simp: hash_of_def sponge_Sum_def f)
qed

text \<open>C16: The buffered, incremental hash functions compute the hash of the standard: for each of the six
  constructors, writing any sequence of byte slices and asking for the sum returns, without a panic,
  the sponge hash of their concatenation - however the data is cut into writes.\<close>

theorem hash_of_standard:
  "hash_of NewKeccak256 data = Some (Inr (sponge_hash 136 32 0x01 (concat data)))
   \<and> hash_of NewKeccak512 data = Some (Inr (sponge_hash 72 64 0x01 (concat data)))
   \<and> hash_of New224 data = Some (Inr (sponge_hash 144 28 0x06 (concat data)))
   \<and> hash_of New256 data = Some (Inr (sponge_hash 136 32 0x06 (concat data)))
   \<and> hash_of New384 data = Some (Inr (sponge_hash 104 48 0x06 (concat data)))
   \<and> hash_of New512 data = Some (Inr (sponge_hash 72 64 0x06 (concat data)))"
  by (simp add: NewKeccak256_def NewKeccak512_def New224_def New256_def New384_def New512_def hash_of_sponge_hash)

lemma Keccak256_keccak256: "Keccak256 data = Some (Inr (keccak256 (concat data)))"
  by (simp add: Keccak256_def NewKeccak256_def keccak256_def hash_of_sponge_hash)

lemma length_keccak256 [simp]: "length (keccak256 m) = 32"
  by (simp add: keccak256_def sponge_hash_def)

end
