(* ===== verification/Selection.thy ===== *)
theory Selection
  imports Legacy_Selection Staking Keccak
begin

text \<open>
  The entry of the selection, \<open>berith/selection/selection.go\<close> and \<open>sortable.go\<close>: the stakers are
  sorted by address, their points are read from the state (from fork BIP4 on, capped stakes get points
  of their own) and one of the two drawings ranks them.

  The state is read through three getters of \<open>StateDB\<close>, the arguments \<open>GetStakeBalance\<close>,
  \<open>GetStakeUpdated\<close> and \<open>GetPoint\<close> of the definitions; the state database's theory provides them.
\<close>

subsection \<open>Sorting the stakers\<close>

definition sortable_Less :: "address \<Rightarrow> address \<Rightarrow> bool" where
  "sortable_Less a b \<longleftrightarrow> bytes_less (addr_bytes a) (addr_bytes b)"

text \<open>\<open>sort.Sort\<close> leaves the elements in an order in which no element is \<open>Less\<close> than one before it.\<close>

fun sort_insert :: "('a \<Rightarrow> 'a \<Rightarrow> bool) \<Rightarrow> 'a \<Rightarrow> 'a list \<Rightarrow> 'a list" where
  "sort_insert lt x [] = [x]"
| "sort_insert lt x (y # ys) = (if lt y x then y # sort_insert lt x ys else x # y # ys)"

definition sort_Sort :: "('a \<Rightarrow> 'a \<Rightarrow> bool) \<Rightarrow> 'a list \<Rightarrow> 'a list" where
  "sort_Sort lt xs = foldr (sort_insert lt) xs []"

lemma sort_insert_insort: "sort_insert sortable_Less x xs = insort x xs"
  by (induction xs) (auto simp: sortable_Less_def addr_bytes_less)

lemma sort_Sort_sort: "sort_Sort sortable_Less xs = sort xs"
  by (simp add: sort_Sort_def sort_insert_insort sort_key_def fun_eq_iff cong: foldr_cong)

subsection \<open>big.Float\<close>

text \<open>A \<open>big.Float\<close> is a number with its precision, or an infinity. A result takes the larger precision
  of the operands, unless the receiver has one already. \<open>0 / 0\<close> panics.\<close>

datatype big_Float = BFin nat rat | BInf nat bool

definition big_NewFloat :: "rat \<Rightarrow> big_Float" where
  "big_NewFloat x = BFin 53 x"

definition BigIntToBigFloat :: "int \<Rightarrow> big_Float" where
  "BigIntToBigFloat x = BFin (max (nat (bitlen \<bar>x\<bar>)) 64) (of_int x)"

fun big_prec :: "big_Float \<Rightarrow> nat" where
  "big_prec (BFin p _) = p"
| "big_prec (BInf p _) = p"

fun big_Add :: "nat \<Rightarrow> big_Float \<Rightarrow> big_Float \<Rightarrow> big_Float run" where
  "big_Add p (BFin _ x) (BFin _ y) = Inr (BFin p (fl p (x + y)))"
| "big_Add p (BInf _ s) (BFin _ _) = Inr (BInf p s)"
| "big_Add p (BFin _ _) (BInf _ s) = Inr (BInf p s)"
| "big_Add p (BInf _ s) (BInf _ t) = (if s = t then Inr (BInf p s) else Inl (Panicked ''ErrNaN''))"

fun big_Mul :: "nat \<Rightarrow> big_Float \<Rightarrow> big_Float \<Rightarrow> big_Float run" where
  "big_Mul p (BFin _ x) (BFin _ y) = Inr (BFin p (fl p (x * y)))"
| "big_Mul p (BInf _ s) (BFin _ y) = (if y = 0 then Inl (Panicked ''ErrNaN'') else Inr (BInf p (s \<noteq> (y < 0))))"
| "big_Mul p (BFin _ x) (BInf _ s) = (if x = 0 then Inl (Panicked ''ErrNaN'') else Inr (BInf p (s \<noteq> (x < 0))))"
| "big_Mul p (BInf _ s) (BInf _ t) = Inr (BInf p (s \<noteq> t))"

fun big_Quo :: "nat \<Rightarrow> big_Float \<Rightarrow> big_Float \<Rightarrow> big_Float run" where
  "big_Quo p (BFin _ x) (BFin _ y) =
     (if y = 0 then (if x = 0 then Inl (Panicked ''ErrNaN'') else Inr (BInf p (x < 0)))
      else Inr (BFin p (fl p (x / y))))"
| "big_Quo p (BFin _ x) (BInf _ s) = Inr (BFin p 0)"
| "big_Quo p (BInf _ s) (BFin _ y) = Inr (BInf p (s \<noteq> (y < 0)))"
| "big_Quo p (BInf _ s) (BInf _ t) = Inl (Panicked ''ErrNaN'')"

fun big_greater :: "big_Float \<Rightarrow> rat \<Rightarrow> bool" where
  "big_greater (BFin _ x) y \<longleftrightarrow> y < x"
| "big_greater (BInf _ s) y \<longleftrightarrow> \<not> s"

text \<open>\<open>Int\<close> truncates; for an infinity it returns nil and leaves its argument, a zero here, as it is.\<close>

fun big_Int :: "big_Float \<Rightarrow> int" where
  "big_Int (BFin _ x) = go_trunc x"
| "big_Int (BInf _ s) = 0"

subsection \<open>Points of a capped stake\<close>

definition calcAdvForExceededPoint :: "int \<Rightarrow> int \<Rightarrow> u64 \<Rightarrow> big_Float \<Rightarrow> int run" where
  "calcAdvForExceededPoint nowBlockNumber stakeBlockNumber period limitStakeBalanceInBer =
     (let d = f64_div (f64_of_int (uint period)) 10;
          bb = (if d = 0 then BInf 53 False else big_NewFloat (f64_div (of_int BlockYear) d));
          n = BigIntToBigFloat nowBlockNumber;
          s = BigIntToBigFloat stakeBlockNumber;
          lmt = limitStakeBalanceInBer;
          limp = max (big_prec lmt) 53
      in
      bind_run (big_Mul (max (big_prec n) 53) n (big_NewFloat 100)) (\<lambda>m.
      bind_run (big_Add (max 53 (big_prec s)) bb s) (\<lambda>divisor.
      bind_run (big_Quo (big_prec m) m divisor) (\<lambda>quo.
      let ratio = (if big_greater quo 100 then big_NewFloat 100 else quo) in
      bind_run (big_Add limp lmt (big_NewFloat 0)) (\<lambda>lim0.
      bind_run (big_Quo (max (big_prec lmt) limp) lmt lim0) (\<lambda>temp1.
      bind_run (big_Mul (max (big_prec lmt) (big_prec temp1)) lmt temp1) (\<lambda>temp2.
      bind_run (big_Mul (max (big_prec temp2) (big_prec ratio)) temp2 ratio) (\<lambda>temp3.
      bind_run (big_Quo (max (big_prec temp3) 53) temp3 (big_NewFloat 100)) (\<lambda>adv.
        Inr (big_Int adv))))))))))"

subsection \<open>Selecting the block creators\<close>

definition UnitForBer :: int where "UnitForBer = 10 ^ 18"

definition staker_point ::
  "ChainConfig \<Rightarrow> int \<Rightarrow> (address \<Rightarrow> int) \<Rightarrow> (address \<Rightarrow> int) \<Rightarrow> (address \<Rightarrow> int) \<Rightarrow> address \<Rightarrow> u64 run" where
  "staker_point config blockNumber GetStakeBalance GetStakeUpdated GetPoint stk =
     (if IsBIP4 config (Some blockNumber) then
        (case LimitStakeBalance (Bsrr config) of
           None \<Rightarrow> Inl NilDereference
         | Some limit \<Rightarrow>
             if limit < GetStakeBalance stk then
               (let limitStakeBalanceInBer = limit div UnitForBer in
                bind_run (calcAdvForExceededPoint blockNumber (GetStakeUpdated stk) (Period (Bsrr config))
                            (BigIntToBigFloat limitStakeBalanceInBer)) (\<lambda>advantage.
                  Inr (big_Uint64 (limitStakeBalanceInBer + advantage))))
             else Inr (big_Uint64 (GetPoint stk)))
      else Inr (big_Uint64 (GetPoint stk)))"

fun add_candidates :: "(address \<Rightarrow> u64 run) \<Rightarrow> Candidates \<Rightarrow> address list \<Rightarrow> Candidates run" where
  "add_candidates point cddts [] = Inr cddts"
| "add_candidates point cddts (stk # rest) =
     bind_run (point stk) (\<lambda>p.
       add_candidates point (Candidates_Add cddts \<lparr>caddress = stk, cpoint = p, cval = 0\<rparr>) rest)"

definition SelectBlockCreator ::
  "'g generator \<Rightarrow> (int \<Rightarrow> 'g) \<Rightarrow> (byte list \<Rightarrow> byte list) \<Rightarrow> ChainConfig \<Rightarrow> u64 \<Rightarrow> stakers
    \<Rightarrow> (address \<Rightarrow> int) \<Rightarrow> (address \<Rightarrow> int) \<Rightarrow> (address \<Rightarrow> int) \<Rightarrow> VoteResults run option" where
  "SelectBlockCreator int63n seed sha256 config number stks GetStakeBalance GetStakeUpdated GetPoint =
     (let lst = AsList stks in
      if lst = [] then Some (Inr Map.empty)
      else
        (let lst = sort_Sort sortable_Less lst; blockNumber = sint number in
         case add_candidates (staker_point config blockNumber GetStakeBalance GetStakeUpdated GetPoint)
                NewCandidates lst of
           Inl p \<Rightarrow> Some (Inl p)
         | Inr cddts \<Rightarrow>
             if IsBIP3 config (Some (sint number))
             then selectBIP3BlockCreator int63n seed sha256 cddts config number
             else selectBlockCreator int63n seed sha256 cddts config number))"

subsection \<open>The candidates as shown to a client\<close>

text \<open>\<open>Address.Hex\<close>: the hex digits of the address, a letter in upper case where the hash of the digits
  has a half byte above 7 (the hash has 32 bytes, the digits are 40). Digits are lower-case in Go's \<open>hex.EncodeToString\<close>.\<close>

record JSONCandidate =
  Address :: string
  Point :: u64
  Value :: u64

record JSONCandidates =
  User :: "JSONCandidate list"
  Total :: u64

definition AddressPrefix :: string where "AddressPrefix = ''Bx''"

definition hex_digit :: "nat \<Rightarrow> char" where
  "hex_digit n = (''0123456789abcdef'' ! n)"

definition hex_EncodeToString :: "byte list \<Rightarrow> string" where
  "hex_EncodeToString bs = concat (map (\<lambda>b. [hex_digit (unat b div 16), hex_digit (unat b mod 16)]) bs)"

definition checksum_char :: "byte list \<Rightarrow> nat \<Rightarrow> char \<Rightarrow> char" where
  "checksum_char hsh i c =
     (let hashByte = (if i mod 2 = 0 then drop_bit 4 (hsh ! (i div 2)) else and (hsh ! (i div 2)) 0xf)
      in if of_char c > (57 :: nat) \<and> hashByte > 7 then char_of (of_char c - 32 :: nat) else c)"

definition address_Hex :: "address \<Rightarrow> string" where
  "address_Hex a =
     (let unchecksummed = hex_EncodeToString (addr_bytes a);
          hsh = keccak256 (map of_char unchecksummed)
      in AddressPrefix @ map2 (checksum_char hsh) [0..<length unchecksummed] unchecksummed)"

definition json_candidates :: "Candidate list \<Rightarrow> JSONCandidate list" where
  "json_candidates sel =
     map (\<lambda>cddt. \<lparr>Address = address_Hex (caddress cddt), Point = cpoint cddt, Value = cval cddt\<rparr>) sel"

definition GetCandidates :: "stakers \<Rightarrow> (address \<Rightarrow> int) \<Rightarrow> JSONCandidates run" where
  "GetCandidates stks GetPoint =
     bind_run (add_candidates (\<lambda>stk. Inr (big_Uint64 (GetPoint stk))) NewCandidates
                 (sort_Sort sortable_Less (AsList stks))) (\<lambda>cddts.
       Inr \<lparr>User = json_candidates (selections cddts), Total = ctotal cddts\<rparr>)"

subsection \<open>The advantage of a capped stake\<close>

lemma fl_between:
  assumes "0 < p" "0 \<le> x" "x \<le> of_int n" "0 \<le> n" "n < 2 ^ p"
  shows "0 \<le> fl p x \<and> fl p x \<le> of_int n"
proof -
  have "fl p 0 \<le> fl p x" "fl p x \<le> fl p (of_int n)"
    by (rule fl_mono; use assms in simp)+
  then show ?thesis using fl_of_int [of n p] assms(4,5) by simp
qed

lemma fl_nonneg: "0 < p \<Longrightarrow> 0 \<le> x \<Longrightarrow> 0 \<le> fl p x"
  using fl_gt0 [of x p] by (cases "x = 0") auto

lemma capped_ratio:
  assumes "0 \<le> now" "0 \<le> stake" "bb = BInf 53 False \<or> (\<exists>b>0. bb = BFin 53 b)"
  defines "n \<equiv> BigIntToBigFloat now" and "s \<equiv> BigIntToBigFloat stake"
  shows "\<exists>m divisor p q. big_Mul (max (big_prec n) 53) n (big_NewFloat 100) = Inr m
    \<and> big_Add (max 53 (big_prec s)) bb s = Inr divisor \<and> big_Quo (big_prec m) m divisor = Inr (BFin p q) \<and> 0 \<le> q \<and> 53 \<le> p"
  using assms(3)
proof
  assume "bb = BInf 53 False"
  then show ?thesis by (simp add: n_def s_def BigIntToBigFloat_def big_NewFloat_def)
next
  assume "\<exists>b>0. bb = BFin 53 b"
  then obtain b where b: "0 < b" "bb = BFin 53 b" by blast
  define ps where "ps = max 53 (max (nat (bitlen \<bar>stake\<bar>)) 64)"
  define pn where "pn = max (max (nat (bitlen \<bar>now\<bar>)) 64) 53"
  have "0 < fl ps (b + of_int stake)" using b assms(2) by (intro fl_gt0) (auto simp: ps_def)
  moreover have "0 \<le> fl pn (of_int now * 100)" using assms(1) by (intro fl_nonneg) (auto simp: pn_def)
  ultimately have "0 \<le> fl pn (fl pn (of_int now * 100) / fl ps (b + of_int stake))"
    by (intro fl_nonneg) (auto simp: pn_def)
  moreover have "big_Mul (max (big_prec n) 53) n (big_NewFloat 100) = Inr (BFin pn (fl pn (of_int now * 100)))"
    by (simp add: n_def BigIntToBigFloat_def big_NewFloat_def pn_def)
  moreover have "big_Add (max 53 (big_prec s)) bb s = Inr (BFin ps (fl ps (b + of_int stake)))"
    by (simp add: s_def b(2) BigIntToBigFloat_def ps_def)
  ultimately show ?thesis using \<open>0 < fl ps (b + of_int stake)\<close> by (auto simp: pn_def)
qed

lemma capped_advantage:
  assumes "0 < L" "L < 2 ^ 57" "0 \<le> r" "r \<le> 100" "53 \<le> pr"
  defines "lmt \<equiv> BigIntToBigFloat L" and "ratio \<equiv> BFin pr r"
  defines "limp \<equiv> max (big_prec lmt) 53"
  shows "\<exists>lim0 temp1 temp2 temp3 adv. big_Add limp lmt (big_NewFloat 0) = Inr lim0
    \<and> big_Quo (max (big_prec lmt) limp) lmt lim0 = Inr temp1
    \<and> big_Mul (max (big_prec lmt) (big_prec temp1)) lmt temp1 = Inr temp2
    \<and> big_Mul (max (big_prec temp2) (big_prec ratio)) temp2 ratio = Inr temp3
    \<and> big_Quo (max (big_prec temp3) 53) temp3 (big_NewFloat 100) = Inr adv
    \<and> 0 \<le> big_Int adv \<and> big_Int adv \<le> L"
proof -
  define pl where "pl = max (nat (bitlen \<bar>L\<bar>)) 64"
  have lmt: "lmt = BFin pl (of_int L)" "limp = pl"
    by (simp_all add: lmt_def limp_def BigIntToBigFloat_def pl_def)
  have big: "(2 :: int) ^ 64 \<le> 2 ^ p" if "64 \<le> p" for p :: nat using that by (rule power_increasing) simp
  have pl: "64 \<le> pl" by (simp add: pl_def)
  have L: "L < 2 ^ pl" using big [OF pl] assms(2) by simp
  have e: "fl pl (of_int L) = of_int L" "fl pl 1 = 1"
    using L assms(1) big [OF pl] fl_of_int [of L pl] fl_of_int [of 1 pl] by simp_all
  define p where "p = max pl pr"
  have p: "64 \<le> p" "0 < p" using pl by (auto simp: p_def)
  have "0 \<le> of_int L * r" "of_int L * r \<le> of_int (L * 100)"
    using assms(1,3,4) mult_left_mono [of r 100 "of_int L"] by simp_all
  then have t3: "0 \<le> fl p (of_int L * r)" "fl p (of_int L * r) \<le> of_int (L * 100)"
    using fl_between [OF p(2), of "of_int L * r" "L * 100"] big [OF p(1)] assms(1,2) by auto
  have "L < 2 ^ p" using big [OF p(1)] assms(2) by simp
  with t3 have a: "0 \<le> fl p (fl p (of_int L * r) / 100)" "fl p (fl p (of_int L * r) / 100) \<le> of_int L"
    using fl_between [OF p(2), of "fl p (of_int L * r) / 100" L] assms(1) by auto
  have "max p 53 = p" using p by simp
  moreover have "go_trunc (fl p (fl p (of_int L * r) / 100)) \<in> {0..L}"
    using a by (auto simp: go_trunc_def) (metis floor_mono floor_of_int)
  ultimately show ?thesis
    using assms(1) e unfolding lmt ratio_def by (simp add: big_NewFloat_def p_def)
qed

lemma calcAdvForExceededPoint_Inr:
  assumes "0 \<le> now" "0 \<le> stake" "0 < L" "L < 2 ^ 57"
  shows "\<exists>adv. calcAdvForExceededPoint now stake period (BigIntToBigFloat L) = Inr adv \<and> 0 \<le> adv \<and> adv \<le> L"
proof -
  define d where "d = f64_div (f64_of_int (uint period)) 10"
  define bb where "bb = (if d = 0 then BInf 53 False else big_NewFloat (f64_div (of_int BlockYear) d))"
  have "0 \<le> d" unfolding d_def f64_div_def f64_of_int_def by (intro fl_nonneg divide_nonneg_pos) (simp, simp, simp only: of_int_0_le_iff uint_ge_0, simp)
  then have "d \<noteq> 0 \<Longrightarrow> 0 < f64_div (of_int BlockYear) d"
    unfolding f64_div_def BlockYear_def by (intro fl_gt0) simp_all
  then have bb: "bb = BInf 53 False \<or> (\<exists>b>0. bb = BFin 53 b)"
    by (auto simp: bb_def big_NewFloat_def)
  from capped_ratio [OF assms(1,2) bb] obtain m divisor p q where
    q: "big_Mul (max (big_prec (BigIntToBigFloat now)) 53) (BigIntToBigFloat now) (big_NewFloat 100) = Inr m"
      "big_Add (max 53 (big_prec (BigIntToBigFloat stake))) bb (BigIntToBigFloat stake) = Inr divisor"
      "big_Quo (big_prec m) m divisor = Inr (BFin p q)" "0 \<le> q" "53 \<le> p" by blast
  define ratio where "ratio = (if big_greater (BFin p q) 100 then big_NewFloat 100 else BFin p q)"
  obtain pr r where r: "ratio = BFin pr r" "0 \<le> r" "r \<le> 100" "53 \<le> pr"
    using q(4,5) by (cases "100 < q") (auto simp: ratio_def big_NewFloat_def)
  from capped_advantage [OF assms(3,4) r(2-4)] show ?thesis
    unfolding calcAdvForExceededPoint_def Let_def d_def [symmetric] bb_def [symmetric]
    using q unfolding r(1) [symmetric] ratio_def by auto
qed

text \<open>C31: The advantage that a stake above the limit earns with its age is between nothing and the limit
  itself: for block numbers that are not negative and a limit of 1 up to 2^57 ber, the calculation in
  \<open>big.Float\<close> does not panic, whatever the block period is (a period of 0 included), and its result is
  between 0 and the limit.\<close>

theorem calcAdvForExceededPoint_bounds:
  assumes "0 \<le> now" "0 \<le> stake" "0 < limit" "limit < 2 ^ 57"
  shows "\<exists>adv. calcAdvForExceededPoint now stake period (BigIntToBigFloat limit) = Inr adv
    \<and> 0 \<le> adv \<and> adv \<le> limit"
  using assms by (rule calcAdvForExceededPoint_Inr)

theorem calcAdvForExceededPoint_bounds_witness:
  "\<exists>adv. calcAdvForExceededPoint 9000000 1800000 10 (BigIntToBigFloat 100000000) = Inr adv
    \<and> 0 \<le> adv \<and> adv \<le> 100000000"
  by (rule calcAdvForExceededPoint_bounds) simp_all

subsection \<open>Every order of the stakers gives the same ranks\<close>

lemma add_candidates_total:
  "(\<And>a. a \<in> set stks \<Longrightarrow> point a = Inr (p a)) \<Longrightarrow>
    add_candidates point (register cands) stks =
      Inr (register (cands @ map (\<lambda>a. \<lparr>caddress = a, cpoint = p a, cval = 0\<rparr>) stks))"
proof (induction stks arbitrary: cands)
  case (Cons a stks)
  then show ?case
    using Cons.IH [of "cands @ [\<lparr>caddress = a, cpoint = p a, cval = 0\<rparr>]"]
    by (simp add: register_def)
qed simp

lemma SelectBlockCreator_perm:
  assumes "stakers_inv stks" "stakers_inv stks'" "set stks = set stks'"
  shows "SelectBlockCreator int63n seed sha256 config number stks bal upd pnt
    = SelectBlockCreator int63n seed sha256 config number stks' bal upd pnt"
proof -
  have "sort stks = sort stks'"
    using assms by (intro sorted_distinct_set_unique) (auto simp: stakers_inv_def)
  moreover have "stks = [] \<longleftrightarrow> stks' = []" using assms(3) by auto
  ultimately show ?thesis
    by (simp add: SelectBlockCreator_def Let_def AsList_def sort_Sort_sort)
qed

text \<open>C30: The ranks do not depend on the iteration order of the Go map of stakers: two orders of the same
  stakers give the same result, so every node draws the same block creators from the same state.\<close>

theorem SelectBlockCreator_order:
  assumes "stakers_inv stks" "stakers_inv stks'" "set stks = set stks'"
  shows "SelectBlockCreator int63n seed sha256 config number stks bal upd pnt
    = SelectBlockCreator int63n seed sha256 config number stks' bal upd pnt"
  using assms by (rule SelectBlockCreator_perm)

theorem SelectBlockCreator_order_witness:
  "SelectBlockCreator (\<lambda>g n. (g mod n, g + 7)) (\<lambda>s. s) (\<lambda>b. b) MainnetChainConfig 5 [7, 3, 9]
      (\<lambda>a. 100) (\<lambda>a. 1) uint
   = SelectBlockCreator (\<lambda>g n. (g mod n, g + 7)) (\<lambda>s. s) (\<lambda>b. b) MainnetChainConfig 5 [9, 7, 3]
      (\<lambda>a. 100) (\<lambda>a. 1) uint"
  by (rule SelectBlockCreator_order) (auto simp: stakers_inv_def)

lemma SelectBlockCreator_BIP3:
  assumes "rand_ok int63n" "stakers_inv stks" "stks \<noteq> []" "IsBIP3 config (Some (sint number))"
    and "\<forall>a\<in>set stks. staker_point config (sint number) bal upd pnt a = Inr (p a) \<and> p a \<noteq> 0"
    and "(\<Sum>a\<in>set stks. unat (p a)) < 2 ^ 63"
  shows "\<exists>result ord. SelectBlockCreator int63n seed sha256 config number stks bal upd pnt = Some (Inr result)
    \<and> set ord = set stks \<and> dom result = set stks
    \<and> ranking ord maxElectScore ((maxElectScore - minElectScore) div int (length stks)) 1 result"
proof -
  let ?cands = "map (\<lambda>a. \<lparr>caddress = a, cpoint = p a, cval = 0\<rparr>) (sort stks)"
  have "add_candidates (staker_point config (sint number) bal upd pnt) (register []) (sort stks) = Inr (register ([] @ ?cands))"
    using assms(5) by (intro add_candidates_total) simp
  then have "SelectBlockCreator int63n seed sha256 config number stks bal upd pnt =
      selectBIP3BlockCreator int63n seed sha256 (register ?cands) config number"
    using assms(3,4) by (simp add: SelectBlockCreator_def Let_def AsList_def sort_Sort_sort register_def)
  moreover have "sum_list (map (\<lambda>c. unat (cpoint c)) ?cands) = (\<Sum>a\<in>set stks. unat (p a))"
    using assms(2) sum_list_distinct_conv_sum_set [of "sort stks" "\<lambda>a. unat (p a)"]
    by (simp add: comp_def stakers_inv_def)
  moreover have "distinct (map caddress ?cands)" using assms(2) by (simp add: comp_def stakers_inv_def)
  moreover have "caddress ` set ?cands = set stks" by (simp add: image_image)
  moreover have "sort stks \<noteq> []" using assms(3) by (metis set_empty set_sort)
  ultimately obtain result ord where
    "SelectBlockCreator int63n seed sha256 config number stks bal upd pnt = Some (Inr result)"
    "set ord = set stks" "dom result = set ord"
    "ranking ord maxElectScore ((maxElectScore - minElectScore) div int (length ?cands)) 1 result"
    using selectBIP3BlockCreator_register [OF assms(1), of ?cands seed sha256 config number] assms(5,6)
    by auto
  then show ?thesis by auto
qed



end
