(* ===== verification/Rlp_Raw.thy ===== *)
theory Rlp_Raw
  imports Rlp_Stream
begin

text \<open>
  The slice helpers of \<open>rlp/raw.go\<close>, which split encoded values off a byte slice without a stream.
  Their header parser is a second implementation of the one in \<open>decode.go\<close>; \<open>Split_iff\<close> shows that
  it accepts exactly the canonical encodings as well.
\<close>

definition raw_readSize :: "byte list \<Rightarrow> nat \<Rightarrow> rlp_error + nat" where
  "raw_readSize b slen =
     (if length b < slen then Inl IoUnexpectedEOF
      else (let s = be_value (take slen b) in
            if s < 56 \<or> hd b = 0 then Inl ErrCanonSize else Inr s))"

definition raw_readKind :: "byte list \<Rightarrow> rlp_error + Kind \<times> nat \<times> nat" where
  "raw_readKind buf =
     (case buf of
        [] \<Rightarrow> Inl IoUnexpectedEOF
      | b # bs \<Rightarrow>
          (let r = (if b < 0x80 then Inr (KByte, 0, 1)
                    else if b < 0xB8 then
                      (if unat (b - 0x80) = 1 \<and> bs \<noteq> [] \<and> hd bs < 128 then Inl ErrCanonSize
                       else Inr (KString, 1, unat (b - 0x80)))
                    else if b < 0xC0 then
                      map_sum id (\<lambda>sz. (KString, unat (b - 0xB7) + 1, sz)) (raw_readSize bs (unat (b - 0xB7)))
                    else if b < 0xF8 then Inr (KList, 1, unat (b - 0xC0))
                    else
                      map_sum id (\<lambda>sz. (KList, unat (b - 0xF7) + 1, sz)) (raw_readSize bs (unat (b - 0xF7)))) in
           case r of
             Inl e \<Rightarrow> Inl e
           | Inr (k, tagsize, contentsize) \<Rightarrow>
               if u64_sub (length buf) tagsize < contentsize then Inl ErrValueTooLarge
               else Inr (k, tagsize, contentsize)))"

definition Split :: "byte list \<Rightarrow> rlp_error + Kind \<times> byte list \<times> byte list" where
  "Split b =
     (case raw_readKind b of
        Inl e \<Rightarrow> Inl e
      | Inr (k, ts, cs) \<Rightarrow> Inr (k, take cs (drop ts b), drop (ts + cs) b))"

definition SplitString :: "byte list \<Rightarrow> rlp_error + byte list \<times> byte list" where
  "SplitString b =
     (case Split b of
        Inl e \<Rightarrow> Inl e
      | Inr (k, content, rest) \<Rightarrow> if k = KList then Inl ErrExpectedString else Inr (content, rest))"

definition SplitList :: "byte list \<Rightarrow> rlp_error + byte list \<times> byte list" where
  "SplitList b =
     (case Split b of
        Inl e \<Rightarrow> Inl e
      | Inr (k, content, rest) \<Rightarrow> if k \<noteq> KList then Inl ErrExpectedList else Inr (content, rest))"

lemma raw_readKind_progress: "raw_readKind b = Inr (k, ts, cs) \<Longrightarrow> 0 < ts + cs"
  by (auto simp: raw_readKind_def Let_def map_sum_def split: list.splits sum.splits if_splits)

function CountValues_loop :: "byte list \<Rightarrow> nat \<Rightarrow> rlp_error + nat" where
  "CountValues_loop b i =
     (if b = [] then Inr i
      else (case raw_readKind b of
              Inl e \<Rightarrow> Inl e
            | Inr (k, tagsize, sz) \<Rightarrow> CountValues_loop (drop (tagsize + sz) b) (i + 1)))"
  by pat_completeness auto
termination
  by (relation "measure (\<lambda>(b, i). length b)") (auto dest: raw_readKind_progress)

declare CountValues_loop.simps [simp del]

definition CountValues :: "byte list \<Rightarrow> rlp_error + nat" where
  "CountValues b = CountValues_loop b 0"

subsection \<open>Exactly the canonical encodings\<close>

text \<open>The bytes of a value of a given kind and content; \<open>None\<close> where there is no such value.\<close>

fun raw_enc :: "Kind \<Rightarrow> byte list \<Rightarrow> byte list option" where
  "raw_enc KByte c = (if length c = 1 \<and> hd c < 0x80 then Some c else None)"
| "raw_enc KString c =
     (if length c = 1 \<and> hd c < 0x80 then None else Some (spec_head 0x80 0xB7 (length c) @ c))"
| "raw_enc KList c = Some (spec_list c)"

lemma raw_readSize_iff:
  assumes "0 < n" "n \<le> 8"
  shows "raw_readSize b n = Inr sz \<longleftrightarrow>
    56 \<le> sz \<and> length (nat_bytes sz) = n \<and> (\<exists>rest. b = nat_bytes sz @ rest)"
proof
  assume r: "raw_readSize b n = Inr sz"
  then have l: "n \<le> length b" and s: "sz = be_value (take n b)" "56 \<le> sz" "hd b \<noteq> 0"
    by (auto simp: raw_readSize_def Let_def split: if_splits)
  have "hd (take n b) \<noteq> 0" using s(3) assms(1) l by (cases b; cases n) auto
  then have "nat_bytes sz = take n b" using s(1) nat_bytes_be_value [of "take n b"] by simp
  then have "length (nat_bytes sz) = n" "b = nat_bytes sz @ drop n b" using l by simp_all
  with s(2) show "56 \<le> sz \<and> length (nat_bytes sz) = n \<and> (\<exists>rest. b = nat_bytes sz @ rest)" by blast
next
  assume r: "56 \<le> sz \<and> length (nat_bytes sz) = n \<and> (\<exists>rest. b = nat_bytes sz @ rest)"
  then obtain rest where b: "b = nat_bytes sz @ rest" by blast
  have "nat_bytes sz \<noteq> []" using r by auto
  then have "hd b \<noteq> 0" using b hd_nat_bytes [of sz] r by simp
  with r b show "raw_readSize b n = Inr sz" by (auto simp: raw_readSize_def Let_def)
qed

text \<open>The five ranges of the first byte, and what the parser does in each.\<close>

lemma tag_cases:
  obtains (single) "b < (0x80 :: byte)"
  | (short_string) n where "b = 0x80 + of_nat n" "n < 56"
  | (long_string) n where "b = 0xB7 + of_nat n" "0 < n" "n \<le> 8"
  | (short_list) n where "b = 0xC0 + of_nat n" "n < 56"
  | (long_list) n where "b = 0xF7 + of_nat n" "0 < n" "n \<le> 8"
proof -
  have u: "b = t + of_nat (unat (b - t)) \<and> unat (b - t) = unat b - unat t" if "t \<le> b" for t
    using byte_minus_tag [OF that] byte_diff [OF that] by simp
  consider "b < 0x80" | "0x80 \<le> b" "b < 0xB8" | "0xB8 \<le> b" "b < 0xC0" | "0xC0 \<le> b" "b < 0xF8"
    | "0xF8 \<le> b" using not_le by blast
  then show ?thesis
  proof cases
    case 2
    then show ?thesis using short_string [of "unat (b - 0x80)"] u [of "0x80"]
      by (auto simp: word_less_nat_alt word_le_nat_alt)
  next
    case 3
    then show ?thesis using long_string [of "unat (b - 0xB7)"] u [of "0xB7"] by (auto simp: word_less_nat_alt word_le_nat_alt)
  next
    case 4
    then show ?thesis using short_list [of "unat (b - 0xC0)"] u [of "0xC0"] by (auto simp: word_less_nat_alt word_le_nat_alt)
  next
    case 5
    then show ?thesis using long_list [of "unat (b - 0xF7)"] u [of "0xF7"] unat_byte_less [of b]
      by (auto simp: word_less_nat_alt word_le_nat_alt)
  qed (use single in blast)
qed

lemma tag_unat:
  "n < 56 \<Longrightarrow> unat (0x80 + of_nat n :: byte) = 0x80 + n" "n \<le> 8 \<Longrightarrow> unat (0xB7 + of_nat n :: byte) = 0xB7 + n"
  "n < 56 \<Longrightarrow> unat (0xC0 + of_nat n :: byte) = 0xC0 + n" "n \<le> 8 \<Longrightarrow> unat (0xF7 + of_nat n :: byte) = 0xF7 + n"
  using byte_tag [of "0x80" n] byte_tag [of "0xB7" n] byte_tag [of "0xC0" n] byte_tag [of "0xF7" n]
  by simp_all

lemma small_unat: "n < 56 \<Longrightarrow> unat (of_nat n :: byte) = n"
  by (simp add: unat_of_nat)

lemma raw_readKind_tag:
  assumes "length (t # bs) < 2 ^ 64"
  shows "t < 0x80 \<Longrightarrow> raw_readKind (t # bs) = Inr (KByte, 0, 1)"
    and "t = 0x80 + of_nat n \<Longrightarrow> n < 56 \<Longrightarrow> raw_readKind (t # bs) =
      (if n = 1 \<and> bs \<noteq> [] \<and> hd bs < 128 then Inl ErrCanonSize
       else if length bs < n then Inl ErrValueTooLarge else Inr (KString, 1, n))"
    and "t = 0xC0 + of_nat n \<Longrightarrow> n < 56 \<Longrightarrow> raw_readKind (t # bs) =
      (if length bs < n then Inl ErrValueTooLarge else Inr (KList, 1, n))"
    and "t = 0xB7 + of_nat n \<Longrightarrow> 0 < n \<Longrightarrow> n \<le> 8 \<Longrightarrow> raw_readKind (t # bs) = Inr (k, ts, cs) \<longleftrightarrow>
      k = KString \<and> ts = n + 1 \<and> raw_readSize bs n = Inr cs \<and> n + cs \<le> length bs"
    and "t = 0xF7 + of_nat n \<Longrightarrow> 0 < n \<Longrightarrow> n \<le> 8 \<Longrightarrow> raw_readKind (t # bs) = Inr (k, ts, cs) \<longleftrightarrow>
      k = KList \<and> ts = n + 1 \<and> raw_readSize bs n = Inr cs \<and> n + cs \<le> length bs"
proof -
  have sub: "u64_sub (length (t # bs)) m = length (t # bs) - m" if "m \<le> length (t # bs)" for m
    using that assms by (rule u64_sub_ok)
  have rs: "n \<le> length bs" if "raw_readSize bs n = Inr sz" for n sz
    using that by (auto simp: raw_readSize_def split: if_splits)
  show "t < 0x80 \<Longrightarrow> raw_readKind (t # bs) = Inr (KByte, 0, 1)"
    using sub [of 0] by (simp add: raw_readKind_def)
  show "t = 0x80 + of_nat n \<Longrightarrow> n < 56 \<Longrightarrow> raw_readKind (t # bs) =
      (if n = 1 \<and> bs \<noteq> [] \<and> hd bs < 128 then Inl ErrCanonSize
       else if length bs < n then Inl ErrValueTooLarge else Inr (KString, 1, n))"
    using sub [of 1] tag_unat(1) [of n] small_unat [of n]
    by (simp add: raw_readKind_def word_less_nat_alt)
  show "t = 0xC0 + of_nat n \<Longrightarrow> n < 56 \<Longrightarrow> raw_readKind (t # bs) =
      (if length bs < n then Inl ErrValueTooLarge else Inr (KList, 1, n))"
    using sub [of 1] tag_unat(3) [of n] small_unat [of n]
    by (simp add: raw_readKind_def word_less_nat_alt)
  show "t = 0xB7 + of_nat n \<Longrightarrow> 0 < n \<Longrightarrow> n \<le> 8 \<Longrightarrow> raw_readKind (t # bs) = Inr (k, ts, cs) \<longleftrightarrow>
      k = KString \<and> ts = n + 1 \<and> raw_readSize bs n = Inr cs \<and> n + cs \<le> length bs"
    using sub [of "n + 1"] tag_unat(2) [of n] small_unat [of n] rs [of n]
    by (cases "raw_readSize bs n") (auto simp: raw_readKind_def word_less_nat_alt)
  show "t = 0xF7 + of_nat n \<Longrightarrow> 0 < n \<Longrightarrow> n \<le> 8 \<Longrightarrow> raw_readKind (t # bs) = Inr (k, ts, cs) \<longleftrightarrow>
      k = KList \<and> ts = n + 1 \<and> raw_readSize bs n = Inr cs \<and> n + cs \<le> length bs"
    using sub [of "n + 1"] tag_unat(4) [of n] small_unat [of n] rs [of n]
    by (cases "raw_readSize bs n") (auto simp: raw_readKind_def word_less_nat_alt)
qed

lemma Split_sound:
  assumes "length b < 2 ^ 64" "Split b = Inr (k, c, rest)"
  shows "\<exists>e. raw_enc k c = Some e \<and> b = e @ rest"
proof -
  from assms(2) obtain t bs ts cs where b: "b = t # bs" and r: "raw_readKind (t # bs) = Inr (k, ts, cs)"
    and c: "c = take cs (drop ts b)" "rest = drop (ts + cs) b"
    by (cases b) (auto simp: Split_def raw_readKind_def split: sum.splits)
  note tag = raw_readKind_tag [of t bs] assms(1) [unfolded b]
  show ?thesis
  proof (cases t rule: tag_cases)
    case single
    with tag r have "k = KByte" "ts = 0" "cs = 1" by simp_all
    with single c b show ?thesis by simp
  next
    case (short_string n)
    with tag(2) [of n] tag(6) r have "k = KString" "ts = 1" "cs = n" "n \<le> length bs"
      and "\<not> (n = 1 \<and> bs \<noteq> [] \<and> hd bs < 128)" by (auto split: if_splits)
    moreover from this have "\<not> (length c = 1 \<and> hd c < 0x80)" "length c = n" "c @ rest = bs"
      using c b by (cases bs; auto)+
    ultimately show ?thesis using short_string b by (auto simp: spec_head_def)
  next
    case (long_string n)
    with tag(4) [of n k ts cs] tag(6) r raw_readSize_iff [of n bs cs] obtain r' where
      "k = KString" "ts = n + 1" "56 \<le> cs" "length (nat_bytes cs) = n" "bs = nat_bytes cs @ r'"
      "n + cs \<le> length bs" by auto
    with long_string c b show ?thesis by (auto simp: spec_head_def min_def)
  next
    case (short_list n)
    with tag(3) [of n] tag(6) r have "k = KList" "ts = 1" "cs = n" "n \<le> length bs"
      by (auto split: if_splits)
    with short_list c b show ?thesis by (auto simp: spec_head_def spec_list_def min_def)
  next
    case (long_list n)
    with tag(5) [of n k ts cs] tag(6) r raw_readSize_iff [of n bs cs] obtain r' where
      "k = KList" "ts = n + 1" "56 \<le> cs" "length (nat_bytes cs) = n" "bs = nat_bytes cs @ r'"
      "n + cs \<le> length bs" by auto
    with long_list c b show ?thesis by (auto simp: spec_head_def spec_list_def min_def)
  qed
qed

lemma Split_complete:
  assumes "length (e @ rest) < 2 ^ 64" "raw_enc k c = Some e"
  shows "Split (e @ rest) = Inr (k, c, rest)"
proof -
  have l8: "length (nat_bytes (length c)) \<le> 8" if "length c < 2 ^ 64"
    using length_nat_bytes [of "length c" 8] that by simp
  have pos: "0 < length (nat_bytes (length c))" if "\<not> length c < 56" using that by (cases c) auto
  have size: "raw_readSize (nat_bytes (length c) @ c @ rest) (length (nat_bytes (length c))) = Inr (length c)"
    if "\<not> length c < 56" "length c < 2 ^ 64"
    using raw_readSize_iff [OF pos l8, of "nat_bytes (length c) @ c @ rest" "length c"] that by auto
  show ?thesis
  proof (cases k)
    case KByte
    with assms(2) obtain t where t: "c = [t]" "e = [t]" "t < 0x80"
      by (cases c) (auto split: if_splits)
    with raw_readKind_tag(1) [of t rest] assms(1) show ?thesis by (simp add: Split_def KByte)
  next
    case KString
    then have e: "e = spec_head 0x80 0xB7 (length c) @ c" and ns: "\<not> (length c = 1 \<and> hd c < 0x80)"
      using assms(2) by (auto split: if_splits)
    have c64: "length c < 2 ^ 64" using assms(1) e by simp
    show ?thesis
    proof (cases "length c < 56")
      case True
      then have "raw_readKind (e @ rest) = Inr (KString, 1, length c)"
        using raw_readKind_tag(2) [of "0x80 + of_nat (length c)" "c @ rest" "length c"] assms(1) e ns
        by (cases c) (auto simp: spec_head_def)
      with True e KString show ?thesis by (simp add: Split_def spec_head_def)
    next
      case False
      then have "raw_readKind (e @ rest) = Inr (KString, length (nat_bytes (length c)) + 1, length c)"
        using raw_readKind_tag(4) [of "0xB7 + of_nat (length (nat_bytes (length c)))"
            "nat_bytes (length c) @ c @ rest" "length (nat_bytes (length c))"] size l8 pos assms(1) e c64
        by (simp add: spec_head_def)
      with False e KString show ?thesis by (simp add: Split_def spec_head_def)
    qed
  next
    case KList
    then have e: "e = spec_head 0xC0 0xF7 (length c) @ c" using assms(2) by (auto simp: spec_list_def)
    have c64: "length c < 2 ^ 64" using assms(1) e by simp
    show ?thesis
    proof (cases "length c < 56")
      case True
      then have "raw_readKind (e @ rest) = Inr (KList, 1, length c)"
        using raw_readKind_tag(3) [of "0xC0 + of_nat (length c)" "c @ rest" "length c"] assms(1) e
        by (auto simp: spec_head_def)
      with True e KList show ?thesis by (simp add: Split_def spec_head_def)
    next
      case False
      then have "raw_readKind (e @ rest) = Inr (KList, length (nat_bytes (length c)) + 1, length c)"
        using raw_readKind_tag(5) [of "0xF7 + of_nat (length (nat_bytes (length c)))"
            "nat_bytes (length c) @ c @ rest" "length (nat_bytes (length c))"] size l8 pos assms(1) e c64
        by (simp add: spec_head_def)
      with False e KList show ?thesis by (simp add: Split_def spec_head_def)
    qed
  qed
qed

lemma CountValues_loop_values:
  "list_all plain vs \<Longrightarrow> length (concat (map enc_val vs)) < 2 ^ 64 \<Longrightarrow>
    CountValues_loop (concat (map enc_val vs)) i = Inr (i + length vs)"
proof (induction vs arbitrary: i)
  case Nil
  then show ?case by (simp add: CountValues_loop.simps)
next
  case (Cons v vs)
  let ?rest = "concat (map enc_val vs)"
  from Cons.prems(1) have "\<exists>k c. raw_enc k c = Some (enc_val v)"
  proof (cases v)
    case (VBytes b)
    then show ?thesis
    proof (cases b rule: spec_string_cases)
      case (single t)
      with VBytes show ?thesis by (intro exI [of _ KByte] exI [of _ b]) simp
    next
      case long
      with VBytes show ?thesis by (intro exI [of _ KString] exI [of _ b]) simp
    qed
  next
    case (VList ws)
    then show ?thesis by (intro exI [of _ KList]) auto
  qed auto
  then obtain k c where e: "raw_enc k c = Some (enc_val v)" by blast
  from Split_complete [OF _ e, of ?rest] Cons.prems(2) obtain ts cs where
    r: "raw_readKind (enc_val v @ ?rest) = Inr (k, ts, cs)" "drop (ts + cs) (enc_val v @ ?rest) = ?rest"
    by (auto simp: Split_def split: sum.splits)
  have "enc_val v @ ?rest \<noteq> []"
  proof
    assume "enc_val v @ ?rest = []"
    with r(1) show False unfolding raw_readKind_def by simp
  qed
  then have "CountValues_loop (enc_val v @ ?rest) i = CountValues_loop ?rest (i + 1)"
    unfolding CountValues_loop.simps [of "enc_val v @ ?rest" i] by (simp only: r if_False sum.case prod.case)
  with Cons show ?case by simp
qed

text \<open>C22: The slice splitter accepts exactly the canonical encodings, for every input shorter than
  2^64 bytes: it splits off a value of kind \<open>k\<close> and content \<open>c\<close> and leaves \<open>rest\<close> if and only if the
  input is the canonical encoding of that value followed by \<open>rest\<close>.\<close>

theorem Split_iff:
  assumes "length b < 2 ^ 64"
  shows "Split b = Inr (k, c, rest) \<longleftrightarrow> (\<exists>e. raw_enc k c = Some e \<and> b = e @ rest)"
  using Split_sound [OF assms] Split_complete assms by blast

theorem Split_iff_witness:
  "Split [0x83, 1, 2, 3, 9] = Inr (KString, [1, 2, 3], [9])
    \<longleftrightarrow> (\<exists>e. raw_enc KString [1, 2, 3] = Some e \<and> [0x83, 1, 2, 3, 9] = e @ [9])"
  by (rule Split_iff) simp

text \<open>C29: Counting the values of a concatenation of encodings gives their number.\<close>

theorem CountValues_encodings:
  assumes "list_all plain vs" "length (concat (map enc_val vs)) < 2 ^ 64"
  shows "CountValues (concat (map enc_val vs)) = Inr (length vs)"
  using CountValues_loop_values [OF assms, of 0] by (simp add: CountValues_def)

theorem CountValues_encodings_witness:
  "CountValues (concat (map enc_val [VBytes [1], VList []])) = Inr (length [VBytes [1], VList []])"
  by (rule CountValues_encodings) (simp_all add: spec_string_def spec_list_def spec_head_def)

end
