(* ===== verification/Rlp_Struct.thy ===== *)
theory Rlp_Struct
  imports Rlp_Stream
begin

text \<open>
  More decoders of \<open>rlp/decode.go\<close>: unsigned integers, big integers, byte slices and structs.

  A struct is decoded field by field: \<open>decodeField d f\<close> decodes a field with \<open>d\<close> and the following ones
  with \<open>f\<close>, and the fields of a struct are nested pairs that end in \<open>()\<close>. The contracts are those of
  \<open>element_decoder\<close>: a decoder accepts exactly the canonical encodings.
\<close>

definition decodeUint :: "Stream \<Rightarrow> u64 decode" where
  "decodeUint s =
     (case stream_uint 64 s of
        (Inl e, s1) \<Rightarrow> (Inl (wrapStreamError e), s1)
      | (Inr num, s1) \<Rightarrow> (Inr (of_nat num), s1))"

definition decodeByteSlice :: "Stream \<Rightarrow> byte list decode" where
  "decodeByteSlice s =
     (case stream_Bytes s of
        (Inl e, s1) \<Rightarrow> (Inl (wrapStreamError e), s1)
      | (Inr b, s1) \<Rightarrow> (Inr b, s1))"

definition decodeBigInt :: "Stream \<Rightarrow> int decode" where
  "decodeBigInt s =
     (case stream_Bytes s of
        (Inl e, s1) \<Rightarrow> (Inl (wrapStreamError e), s1)
      | (Inr b, s1) \<Rightarrow>
          if b \<noteq> [] \<and> hd b = 0 then (Inl (wrapStreamError ErrCanonInt), s1)
          else (Inr (int (be_value b)), s1))"

definition decodeFieldsEnd :: "Stream \<Rightarrow> unit decode" where
  "decodeFieldsEnd s = (Inr (), s)"

definition decodeField :: "(Stream \<Rightarrow> 'a decode) \<Rightarrow> (Stream \<Rightarrow> 'b decode) \<Rightarrow> Stream \<Rightarrow> ('a \<times> 'b) decode" where
  "decodeField d f s =
     (case d s of
        (Inl e, s1) \<Rightarrow> (Inl (if e = EOL then DecodeError ''too few elements'' else e), s1)
      | (Inr x, s1) \<Rightarrow>
          (case f s1 of
             (Inl e, s2) \<Rightarrow> (Inl e, s2)
           | (Inr y, s2) \<Rightarrow> (Inr (x, y), s2)))"

definition decodeStruct :: "(Stream \<Rightarrow> 'a decode) \<Rightarrow> Stream \<Rightarrow> 'a decode" where
  "decodeStruct fs s =
     (case stream_List s of
        (Inl e, s1) \<Rightarrow> (Inl (wrapStreamError e), s1)
      | (Inr _, s1) \<Rightarrow>
          (case fs s1 of
             (Inl e, s2) \<Rightarrow> (Inl e, s2)
           | (Inr x, s2) \<Rightarrow>
               (case stream_ListEnd s2 of
                  (Inl e, s3) \<Rightarrow> (Inl (wrapStreamError e), s3)
                | (Inr _, s3) \<Rightarrow> (Inr x, s3))))"

subsection \<open>Decoders on top of another decoder\<close>

lemma wrapStreamError_EOL [simp]: "wrapStreamError e = EOL \<longleftrightarrow> e = EOL"
  by (cases e) auto

lemma element_decoder_map:
  assumes "element_decoder d enc ok"
    and eq: "\<And>s s' y. good s \<Longrightarrow> skind s = None \<Longrightarrow> d' s = (Inr y, s') \<longleftrightarrow> P y \<and> d s = (Inr (g y), s')"
    and EOL: "\<And>s s'. skind s = None \<Longrightarrow> d' s = (Inl EOL, s') \<longleftrightarrow> d s = (Inl EOL, s')"
  shows "element_decoder d' (\<lambda>y. enc (g y)) (\<lambda>y. P y \<and> ok (g y))"
proof -
  note D = element_decoder.dec_enc [OF assms(1)] element_decoder.dec_sound [OF assms(1)]
    element_decoder.dec_at_end [OF assms(1)] element_decoder.dec_EOL [OF assms(1)]
    element_decoder.enc_nonempty [OF assms(1)]
  show ?thesis
  proof
    fix s y rest
    assume "good s" "skind s = None" "P y \<and> ok (g y)" "length (enc (g y)) \<le> avail s" "input s = enc (g y) @ rest"
    then show "\<exists>s'. d' s = (Inr y, s') \<and> core s' = core (advance (length (enc (g y))) s)"
      using D(1) [of s "g y" rest] eq [of s y] by auto
  qed (use D eq EOL in blast)+
qed

subsection \<open>Integers\<close>

lemma advance_0: "advance 0 s = s\<lparr>skind := None\<rparr>"
  by (simp add: advance_def)

lemma readUint_readFull:
  assumes "good s"
  shows "readUint sz s = (Inr v, s') \<longleftrightarrow>
    (\<exists>b. readFull sz s = (Inr b, s') \<and> (2 \<le> sz \<longrightarrow> hd b \<noteq> 0) \<and> v = be_value b)"
proof -
  consider "sz = 0" | "sz = 1" "0 < avail s" | "sz = 1" "\<not> 0 < avail s" | "2 \<le> sz" by linarith
  then show ?thesis
  proof cases
    case 1
    then show ?thesis using readFull_ok [OF assms, of 0] by (auto simp: readUint_def advance_0)
  next
    case 2
    then have "take 1 (input s) = [hd (input s)]" using avail_le [of s] by (cases "input s") auto
    then show ?thesis
      using 2 readFull_ok [OF assms, of 1] readByte_ok [OF assms] by (auto simp: readUint_def)
  next
    case 3
    have "readByte s \<noteq> (Inr b, t)" for b t using 3 readByte_Inr [OF assms] by metis
    moreover have "readFull 1 s \<noteq> (Inr b, t)" for b t using 3 readFull_Inr [OF assms, of 1] by fastforce
    ultimately show ?thesis using 3 by (auto simp: readUint_def split: prod.splits sum.splits)
  next
    case 4
    then show ?thesis by (auto simp: readUint_def split: prod.splits sum.splits)
  qed
qed

lemma be_value_ge256: "2 \<le> length b \<Longrightarrow> hd b \<noteq> 0 \<Longrightarrow> 256 \<le> be_value b"
proof (cases b)
  case (Cons c cs)
  assume "2 \<le> length b" "hd b \<noteq> 0"
  with Cons have "1 \<le> unat c" "1 \<le> length cs" by (auto simp: Suc_le_eq unat_gt_0)
  then have "1 * 256 ^ 1 \<le> unat c * (256 :: nat) ^ length cs"
    by (intro mult_le_mono power_increasing) auto
  then show ?thesis using Cons by simp
qed simp

lemma length_readFull: "readFull n s = (Inr b, s') \<Longrightarrow> length b = n"
  by (auto simp: readFull_def split: prod.splits sum.splits if_splits)

lemma stream_uint_Bytes:
  assumes "good s" "skind s = None"
  shows "stream_uint 64 s = (Inr v, s') \<longleftrightarrow>
    (\<exists>b. stream_Bytes s = (Inr b, s') \<and> length b \<le> 8 \<and> (b = [] \<or> hd b \<noteq> 0) \<and> v = be_value b)"
proof (cases "stream_Kind s")
  case (Pair r s1)
  show ?thesis
  proof (cases r)
    case (Inr ks)
    obtain k sz where ks: "ks = (k, sz)" by (cases ks)
    have "stream_Kind s = (Inr (k, sz), s1)" using Pair Inr ks by simp
    from stream_Kind_Inr [OF assms this] obtain h :: "byte list" and bv where
      s1: "s1 = pending k sz bv (advance (length h) s)" "length h \<le> avail s" by blast
    have "good s1" using good_advance [OF assms(1) s1(2)] s1(1) by (simp add: pending_def)
    note rf = readUint_readFull [OF this]
    show ?thesis
    proof (cases k)
      case KString
      have "(\<exists>b. readFull sz s1 = (Inr b, s') \<and> (2 \<le> sz \<longrightarrow> hd b \<noteq> 0) \<and> v = be_value b \<and> \<not> (0 < sz \<and> v < 128))
        \<longleftrightarrow> (\<exists>b. readFull sz s1 = (Inr b, s') \<and> \<not> (sz = 1 \<and> hd b < 128) \<and> (b = [] \<or> hd b \<noteq> 0) \<and> v = be_value b)"
      proof (rule ex_cong1, rule conj_cong [OF refl])
        fix b assume "readFull sz s1 = (Inr b, s')"
        then have l: "length b = sz" by (rule length_readFull)
        consider "b = []" | c where "b = [c]" | "2 \<le> length b" by (cases b rule: remdups_adj.cases) auto
        then show "((2 \<le> sz \<longrightarrow> hd b \<noteq> 0) \<and> v = be_value b \<and> \<not> (0 < sz \<and> v < 128)) =
            (\<not> (sz = 1 \<and> hd b < 128) \<and> (b = [] \<or> hd b \<noteq> 0) \<and> v = be_value b)"
        proof cases
          case 3
          then show ?thesis using be_value_ge256 [OF 3] l by auto
        qed (use l in \<open>auto simp: word_less_nat_alt\<close>)
      qed
      moreover have "stream_uint 64 s = (Inr v, s') \<longleftrightarrow>
          sz \<le> 8 \<and> readUint sz s1 = (Inr v, s') \<and> \<not> (0 < sz \<and> v < 128)"
        using Pair Inr ks KString
        by (cases "readUint sz s1"; cases "fst (readUint sz s1)") (auto simp: stream_uint_def)
      moreover have "stream_Bytes s = (Inr b, s') \<longleftrightarrow> readFull sz s1 = (Inr b, s') \<and> \<not> (sz = 1 \<and> hd b < 128)" for b
        using Pair Inr ks KString
        by (cases "readFull sz s1"; cases "fst (readFull sz s1)") (auto simp: stream_Bytes_def)
      ultimately show ?thesis unfolding rf using length_readFull [of sz s1 _ s'] by blast
    qed (use Pair Inr ks in \<open>auto simp: stream_uint_def stream_Bytes_def\<close>)
  qed (use Pair in \<open>simp add: stream_uint_def stream_Bytes_def\<close>)
qed

lemma stream_Bytes_EOL: "stream_Bytes s = (Inl EOL, s') \<longleftrightarrow> stream_Kind s = (Inl EOL, s')"
  by (auto simp: stream_Bytes_def split: prod.splits sum.splits Kind.splits if_splits dest: readFull_err)

lemma stream_uint_EOL: "stream_uint n s = (Inl EOL, s') \<longleftrightarrow> stream_Kind s = (Inl EOL, s')"
  by (auto simp: stream_uint_def split: prod.splits sum.splits Kind.splits if_splits dest: readUint_err)

lemma decodeUint_EOL: "decodeUint s = (Inl EOL, s') \<longleftrightarrow> stream_Bytes s = (Inl EOL, s')"
  unfolding stream_Bytes_EOL stream_uint_EOL [of 64 s s', symmetric]
  by (auto simp: decodeUint_def split: prod.splits sum.splits)

lemma decodeBigInt_EOL: "decodeBigInt s = (Inl EOL, s') \<longleftrightarrow> stream_Bytes s = (Inl EOL, s')"
  by (auto simp: decodeBigInt_def split: prod.splits sum.splits)

lemma length_nat_bytes_u64: "length (nat_bytes (unat (w :: u64))) \<le> 8"
proof (rule length_nat_bytes)
  have "unat w < 2 ^ LENGTH(64)" by (rule unsigned_less)
  then show "unat w < 256 ^ 8" by simp
qed

lemma decodeUint_Bytes:
  assumes "good s" "skind s = None"
  shows "decodeUint s = (Inr w, s') \<longleftrightarrow> stream_Bytes s = (Inr (nat_bytes (unat w)), s')"
proof
  assume "decodeUint s = (Inr w, s')"
  then obtain v where v: "stream_uint 64 s = (Inr v, s')" "w = of_nat v"
    by (auto simp: decodeUint_def split: prod.splits sum.splits)
  from v(1) obtain b where b: "stream_Bytes s = (Inr b, s')" "length b \<le> 8" "b = [] \<or> hd b \<noteq> 0" "v = be_value b"
    unfolding stream_uint_Bytes [OF assms] by blast
  have "v < 256 ^ length b" using be_value_less [of b] b(4) by simp
  also have "(256 :: nat) ^ length b \<le> 256 ^ 8" using b(2) by (intro power_increasing) simp_all
  finally have "unat w = v" using v(2) by (simp add: unat_of_nat)
  with b nat_bytes_be_value [OF b(3)] show "stream_Bytes s = (Inr (nat_bytes (unat w)), s')" by simp
next
  assume "stream_Bytes s = (Inr (nat_bytes (unat w)), s')"
  moreover have "nat_bytes (unat w) = [] \<or> hd (nat_bytes (unat w)) \<noteq> 0"
    using hd_nat_bytes [of "unat w"] by (cases "unat w = 0") (auto simp: nat_bytes.simps)
  ultimately have "stream_uint 64 s = (Inr (unat w), s')"
    unfolding stream_uint_Bytes [OF assms] using length_nat_bytes_u64 [of w] be_value_nat_bytes by metis
  then show "decodeUint s = (Inr w, s')" by (simp add: decodeUint_def)
qed

interpretation uint64: element_decoder decodeUint "\<lambda>w. spec_string (nat_bytes (unat w))" "\<lambda>w. True"
proof -
  have "element_decoder decodeUint (\<lambda>w. spec_string (nat_bytes (unat w))) (\<lambda>w. True \<and> length (nat_bytes (unat w)) < 2 ^ 64)"
    by (rule element_decoder_map [OF byte_slice.element_decoder_axioms])
      (simp_all add: decodeUint_Bytes decodeUint_EOL)
  moreover have "length (nat_bytes (unat w)) < 2 ^ 64" for w :: u64
    using length_nat_bytes_u64 [of w] by (rule le_less_trans) simp
  ultimately show "element_decoder decodeUint (\<lambda>w. spec_string (nat_bytes (unat w))) (\<lambda>w. True)" by simp
qed

lemma decodeBigInt_Bytes:
  "decodeBigInt s = (Inr i, s') \<longleftrightarrow> 0 \<le> i \<and> stream_Bytes s = (Inr (nat_bytes (nat i)), s')"
proof
  assume "decodeBigInt s = (Inr i, s')"
  then obtain b where "stream_Bytes s = (Inr b, s')" "b = [] \<or> hd b \<noteq> 0" "i = int (be_value b)"
    by (auto simp: decodeBigInt_def split: prod.splits sum.splits if_splits)
  with nat_bytes_be_value [of b] show "0 \<le> i \<and> stream_Bytes s = (Inr (nat_bytes (nat i)), s')" by simp
next
  assume i: "0 \<le> i \<and> stream_Bytes s = (Inr (nat_bytes (nat i)), s')"
  have "nat_bytes (nat i) = [] \<or> hd (nat_bytes (nat i)) \<noteq> 0"
    using hd_nat_bytes [of "nat i"] by (cases "nat i = 0") (auto simp: nat_bytes.simps)
  with i show "decodeBigInt s = (Inr i, s')" by (auto simp: decodeBigInt_def)
qed

interpretation bigint: element_decoder decodeBigInt "\<lambda>i. spec_string (nat_bytes (nat i))"
  "\<lambda>i. 0 \<le> i \<and> length (nat_bytes (nat i)) < 2 ^ 64"
  by (rule element_decoder_map [OF byte_slice.element_decoder_axioms])
    (simp_all add: decodeBigInt_Bytes decodeBigInt_EOL)

interpretation bytes_field: element_decoder decodeByteSlice spec_string "\<lambda>b. True \<and> length b < 2 ^ 64"
  by (rule element_decoder_map [OF byte_slice.element_decoder_axioms, where g = "\<lambda>b. b"])
    (auto simp: decodeByteSlice_def split: prod.splits sum.splits)

interpretation hash_array: element_decoder "decodeByteArray 32" spec_string "\<lambda>b. length b = 32"
  by (rule byte_array_contract) simp_all

subsection \<open>Structs\<close>

locale fields_decoder =
  fixes dec :: "Stream \<Rightarrow> 'a decode"
    and enc :: "'a \<Rightarrow> byte list"
    and ok :: "'a \<Rightarrow> bool"
  assumes fields_dec_enc: "good s \<Longrightarrow> skind s = None \<Longrightarrow> ok x \<Longrightarrow> length (enc x) \<le> avail s \<Longrightarrow>
      input s = enc x @ rest \<Longrightarrow>
      \<exists>s'. dec s = (Inr x, s') \<and> core s' = core (advance (length (enc x)) s)"
    and fields_sound: "good s \<Longrightarrow> skind s = None \<Longrightarrow> dec s = (Inr x, s') \<Longrightarrow>
      ok x \<and> length (enc x) \<le> avail s \<and> take (length (enc x)) (input s) = enc x
      \<and> core s' = core (advance (length (enc x)) s)"
    and fields_not_EOL: "dec s \<noteq> (Inl EOL, s')"
begin

definition enc_struct :: "'a \<Rightarrow> byte list" where
  "enc_struct x = spec_list (enc x)"

definition ok_struct :: "'a \<Rightarrow> bool" where
  "ok_struct x \<longleftrightarrow> ok x \<and> length (enc x) < 2 ^ 64"

lemma struct_dec_enc:
  assumes "good s" "skind s = None" "ok_struct x" "length (enc_struct x) \<le> avail s"
    and "input s = enc_struct x @ rest"
  shows "\<exists>s'. decodeStruct dec s = (Inr x, s') \<and> core s' = core (advance (length (enc_struct x)) s)"
proof -
  let ?c = "enc x"
  let ?h = "spec_head 0xC0 0xF7 (length ?c)"
  let ?s1 = "advance (length ?h) s"
  have e: "enc_struct x = ?h @ ?c" by (simp add: enc_struct_def spec_list_def)
  have c64: "length ?c < 2 ^ 64" and ok: "ok x" using assms(3) by (simp_all add: ok_struct_def)
  from stream_Kind_ok [OF assms(1,2), of KList "length ?c" ?h "?c @ rest"] assms(4,5) e c64
  obtain bv where "stream_Kind s = (Inr (KList, length ?c), pending KList (length ?c) bv ?s1)" by auto
  from stream_List_Kind [OF this] obtain s2 where
    s2: "stream_List s = (Inr (length ?c), s2)" "core s2 = core (push (length ?c) ?s1)" by auto
  have g1: "good ?s1" using assms(1,4) e by (intro good_advance) auto
  have "avail ?s1 \<ge> length ?c" using assms(4) e by (simp add: avail_advance)
  then have r: "room (length ?c) ?s1" by (auto simp: room_def avail_def split: list.splits)
  note gp = good_push [OF g1 r c64]
  note c2 = core_eqD [OF s2(2)] core_eq_good [OF s2(2)]
  have "length ?c \<le> avail s2" "input s2 = ?c @ rest" "good s2" "skind s2 = None"
    using c2 gp assms(5) e by (simp_all add: avail_def)
  with fields_dec_enc [of s2 x rest] ok obtain s3 where
    s3: "dec s2 = (Inr x, s3)" "core s3 = core (advance (length ?c) s2)" by blast
  then have c3: "core s3 = core (advance (length ?c) (push (length ?c) ?s1))"
    using core_eq_advance [OF s2(2), of "length ?c"] by simp
  from stream_ListEnd_ok [OF c3 g1 r c64] obtain t where
    "stream_ListEnd s3 = (Inr (), t)" "core t = core (advance (length ?c) ?s1)" by blast
  with s2(1) s3(1) e show ?thesis by (simp add: decodeStruct_def)
qed

lemma struct_sound:
  assumes "good s" "skind s = None" "decodeStruct dec s = (Inr x, s')"
  shows "ok_struct x \<and> length (enc_struct x) \<le> avail s
    \<and> take (length (enc_struct x)) (input s) = enc_struct x
    \<and> core s' = core (advance (length (enc_struct x)) s)"
proof -
  let ?c = "enc x"
  from assms(3) obtain sz s2 s3 where s2: "stream_List s = (Inr sz, s2)"
    and s3: "dec s2 = (Inr x, s3)" and le: "stream_ListEnd s3 = (Inr (), s')"
    by (auto simp: decodeStruct_def split: prod.splits sum.splits)
  from s2 obtain s1 where k: "stream_Kind s = (Inr (KList, sz), s1)"
    by (auto simp: stream_List_def split: prod.splits sum.splits if_splits)
  from stream_Kind_Inr [OF assms(1,2) k] obtain h bv where
    h: "h = spec_head 0xC0 0xF7 sz" "length h \<le> avail s" "take (length h) (input s) = h"
      "s1 = pending KList sz bv (advance (length h) s)" "sz < 2 ^ 64" "room sz (advance (length h) s)"
    by auto
  let ?s1 = "advance (length h) s"
  have g1: "good ?s1" using assms(1) h(2) by (rule good_advance)
  from stream_List_Kind [OF k [unfolded h(4)]] s2 have c: "core s2 = core (push sz ?s1)" by simp
  note c2 = core_eqD [OF c] core_eq_good [OF c] and gp = good_push [OF g1 h(6,5)]
  have "good s2" "skind s2 = None" using gp c2 by simp_all
  note sl = fields_sound [OF this s3]
  then have c3: "core s3 = core (advance (length ?c) (push sz ?s1))"
    using core_eq_advance [OF c, of "length ?c"] by simp
  from stream_ListEnd_Inr [OF le] core_eqD(2) [OF c3] have sz: "sz = length ?c" by simp
  from stream_ListEnd_ok [OF c3 [folded sz] g1 h(6,5)] le have
    fin: "core s' = core (advance (length ?c) ?s1)" using sz by simp
  have e: "enc_struct x = h @ ?c" by (simp add: enc_struct_def spec_list_def h(1) sz)
  have "length ?c \<le> avail ?s1"
    using sl c2 h(6) sz by (auto simp: room_def avail_def split: list.splits)
  with sl fin h(2,3,5) c2(1) sz show ?thesis
    by (simp add: e ok_struct_def take_add avail_advance)
qed

lemma struct_EOL: "decodeStruct dec s = (Inl EOL, s') \<longleftrightarrow> stream_Kind s = (Inl EOL, s')"
  using fields_not_EOL
  by (auto simp: decodeStruct_def stream_List_def split: prod.splits sum.splits if_splits dest: stream_ListEnd_err)

lemma struct_contract: "element_decoder (decodeStruct dec) enc_struct ok_struct"
proof
  fix s assume "at_end s" "skind s = None"
  then show "\<exists>s'. decodeStruct dec s = (Inl EOL, s') \<and> core s' = core s"
    using struct_EOL by (simp add: stream_Kind_at_end)
next
  fix s s' assume "skind s = None" "decodeStruct dec s = (Inl EOL, s')"
  then show "core s' = core s" unfolding struct_EOL using stream_Kind_err by blast
next
  show "enc_struct x \<noteq> []" for x by (simp add: enc_struct_def spec_list_def spec_head_def)
qed (use struct_dec_enc struct_sound in blast)+

end

interpretation fields_end: fields_decoder decodeFieldsEnd "\<lambda>_. []" "\<lambda>_. True"
  by unfold_locales (auto simp: decodeFieldsEnd_def advance_0 core_def)

lemma field_contract:
  assumes "element_decoder d encd okd" "fields_decoder f encf okf"
  shows "fields_decoder (decodeField d f) (\<lambda>(x, y). encd x @ encf y) (\<lambda>(x, y). okd x \<and> okf y)"
proof
  fix s z rest
  assume s: "good s" "skind s = None" "case z of (x, y) \<Rightarrow> okd x \<and> okf y"
    "length (case z of (x, y) \<Rightarrow> encd x @ encf y) \<le> avail s"
    "input s = (case z of (x, y) \<Rightarrow> encd x @ encf y) @ rest"
  obtain x y where z: "z = (x, y)" by (cases z)
  from element_decoder.dec_enc [OF assms(1) s(1,2), of x "encf y @ rest"] s(3-5) z obtain s1 where
    s1: "d s = (Inr x, s1)" "core s1 = core (advance (length (encd x)) s)" by auto
  note c = core_eqD [OF s1(2)] core_eq_good [OF s1(2)]
  have "good s1" "skind s1 = None" "length (encf y) \<le> avail s1" "input s1 = encf y @ rest"
    using c s z good_advance [OF s(1), of "length (encd x)"] by (simp_all add: avail_advance)
  with fields_decoder.fields_dec_enc [OF assms(2), of s1 y rest] s(3) z obtain s2 where
    s2: "f s1 = (Inr y, s2)" "core s2 = core (advance (length (encf y)) s1)" by auto
  with s1 z core_eq_advance [OF s1(2), of "length (encf y)"]
  show "\<exists>s'. decodeField d f s = (Inr z, s')
      \<and> core s' = core (advance (length (case z of (x, y) \<Rightarrow> encd x @ encf y)) s)"
    by (simp add: decodeField_def)
next
  fix s z s'
  assume s: "good s" "skind s = None" "decodeField d f s = (Inr z, s')"
  then obtain x y s1 where z: "z = (x, y)" "d s = (Inr x, s1)" "f s1 = (Inr y, s')"
    by (auto simp: decodeField_def split: prod.splits sum.splits)
  note x = element_decoder.dec_sound [OF assms(1) s(1,2) z(2)]
  then have c1: "core s1 = core (advance (length (encd x)) s)" by blast
  note c = core_eqD [OF c1] core_eq_good [OF c1]
  have "good s1" "skind s1 = None" using c x s(1) good_advance by auto
  note y = fields_decoder.fields_sound [OF assms(2) this z(3)]
  have "core s' = core (advance (length (encd x) + length (encf y)) s)"
    using y core_eq_advance [OF c1, of "length (encf y)"] by simp
  moreover have "length (encd x) + length (encf y) \<le> avail s" using x y c by (auto simp: avail_advance)
  ultimately show "(case z of (x, y) \<Rightarrow> okd x \<and> okf y)
      \<and> length (case z of (x, y) \<Rightarrow> encd x @ encf y) \<le> avail s
      \<and> take (length (case z of (x, y) \<Rightarrow> encd x @ encf y)) (input s) = (case z of (x, y) \<Rightarrow> encd x @ encf y)
      \<and> core s' = core (advance (length (case z of (x, y) \<Rightarrow> encd x @ encf y)) s)"
    using x y z(1) c by (simp add: take_add)
next
  show "decodeField d f s \<noteq> (Inl EOL, s')" for s s'
    using fields_decoder.fields_not_EOL [OF assms(2)]
    by (auto simp: decodeField_def split: prod.splits sum.splits if_splits)
qed

end
