(* ===== verification/State_Object.thy ===== *)
theory State_Object
  imports Rlp_Struct Rlp_Raw Keccak
begin

text \<open>
  The accounts and the state objects of \<open>core/state/state_object.go\<close>.

  The Go interfaces \<open>Trie\<close> and \<open>Database\<close> are what the state database stands on. A trie is its content,
  a value for every key: the empty value for a key that is not there, an error where a node of the
  path is missing, which makes reads and writes of the key fail. \<open>Database\<close> is a record of the functions
  of the interface. A pointer that may be nil is an \<open>option\<close>; the \<open>*big.Int\<close> fields of an account may be
  nil before \<open>newObject\<close> has replaced them, so the record is parametric in their type.
\<close>

type_synonym trie = "byte list \<Rightarrow> string + byte list"

definition TryUpdate :: "trie \<Rightarrow> byte list \<Rightarrow> byte list \<Rightarrow> string option \<times> trie" where
  "TryUpdate t key v = (case t key of Inl e \<Rightarrow> (Some e, t) | Inr _ \<Rightarrow> (None, t(key := Inr v)))"

definition TryDelete :: "trie \<Rightarrow> byte list \<Rightarrow> string option \<times> trie" where
  "TryDelete t key = (case t key of Inl e \<Rightarrow> (Some e, t) | Inr _ \<Rightarrow> (None, t(key := Inr [])))"

record Database =
  OpenTrie :: "hash \<Rightarrow> string + trie"
  OpenStorageTrie :: "hash \<Rightarrow> hash \<Rightarrow> string + trie"
  ContractCode :: "hash \<Rightarrow> hash \<Rightarrow> string + byte list"
  ContractCodeSize :: "hash \<Rightarrow> hash \<Rightarrow> string + int"
  TrieHash :: "trie \<Rightarrow> hash"

definition BytesToHash :: "byte list \<Rightarrow> hash" where
  "BytesToHash b = of_nat (be_value b)"

definition emptyCodeHash :: "byte list" where
  "emptyCodeHash = keccak256 []"

definition addrHash :: "address \<Rightarrow> hash" where
  "addrHash a = BytesToHash (keccak256 (addr_bytes a))"

subsection \<open>Accounts\<close>

record Behind =
  bhNumber :: int
  bhBalance :: int

record ('i, 'c, 'l) Account =
  Nonce :: u64
  Balance :: 'i
  Root :: hash
  CodeHash :: 'c
  StakeBalance :: 'i
  StakeUpdated :: 'i
  Point :: 'i
  BehindBalance :: 'l
  Penalty :: u64
  PenlatyUpdated :: 'i

type_synonym raw_account = "(int option, byte list option, Behind list option) Account"
type_synonym account = "(int, byte list, Behind list) Account"

definition zero_Account :: raw_account where
  "zero_Account = \<lparr>Nonce = 0, Balance = None, Root = 0, CodeHash = None, StakeBalance = None,
     StakeUpdated = None, Point = None, BehindBalance = None, Penalty = 0, PenlatyUpdated = None\<rparr>"

definition raw_of :: "account \<Rightarrow> raw_account" where
  "raw_of d = \<lparr>Nonce = Nonce d, Balance = Some (Balance d), Root = Root d, CodeHash = Some (CodeHash d),
     StakeBalance = Some (StakeBalance d), StakeUpdated = Some (StakeUpdated d), Point = Some (Point d),
     BehindBalance = Some (BehindBalance d), Penalty = Penalty d, PenlatyUpdated = Some (PenlatyUpdated d)\<rparr>"

definition behind_rlp :: "Behind \<Rightarrow> rlp_value" where
  "behind_rlp b = VList [VBigInt (Some (bhNumber b)), VBigInt (Some (bhBalance b))]"

definition account_rlp :: "account \<Rightarrow> rlp_value" where
  "account_rlp d = VList
     [VUint (Nonce d), VBigInt (Some (Balance d)), VBytes (hash_bytes (Root d)), VBytes (CodeHash d),
      VBigInt (Some (StakeBalance d)), VBigInt (Some (StakeUpdated d)), VBigInt (Some (Point d)),
      VList (map behind_rlp (BehindBalance d)), VUint (Penalty d), VBigInt (Some (PenlatyUpdated d))]"

text \<open>The decoders that \<open>rlp.DecodeBytes\<close> derives from the struct types.\<close>

definition map_decode :: "('a \<Rightarrow> 'b) \<Rightarrow> 'a decode \<Rightarrow> 'b decode" where
  "map_decode f r = (case r of (Inl e, s) \<Rightarrow> (Inl e, s) | (Inr x, s) \<Rightarrow> (Inr (f x), s))"

definition decodeBehind :: "Stream \<Rightarrow> Behind decode" where
  "decodeBehind s = map_decode (\<lambda>(n, b, _). \<lparr>bhNumber = n, bhBalance = b\<rparr>)
     (decodeStruct (decodeField decodeBigInt (decodeField decodeBigInt decodeFieldsEnd)) s)"

definition decodeAccount :: "Stream \<Rightarrow> account decode" where
  "decodeAccount s = map_decode
     (\<lambda>(nonce, bal, root, code, stake, upd, pnt, behind, pen, penupd, _).
        \<lparr>Nonce = nonce, Balance = bal, Root = BytesToHash root, CodeHash = code, StakeBalance = stake,
         StakeUpdated = upd, Point = pnt, BehindBalance = behind, Penalty = pen, PenlatyUpdated = penupd\<rparr>)
     (decodeStruct
       (decodeField decodeUint (decodeField decodeBigInt (decodeField (decodeByteArray 32)
       (decodeField decodeByteSlice (decodeField decodeBigInt (decodeField decodeBigInt
       (decodeField decodeBigInt (decodeField (decodeListSlice decodeBehind) (decodeField decodeUint
       (decodeField decodeBigInt decodeFieldsEnd)))))))))) s)"

subsection \<open>Objects\<close>

type_synonym Storage = "hash \<rightharpoonup> hash"

record stateObject =
  so_address :: address
  so_data :: account
  so_dbErr :: "string option"
  so_trie :: "trie option"
  so_code :: "byte list option"
  originStorage :: Storage
  dirtyStorage :: Storage
  dirtyCode :: bool
  suicided :: bool
  deleted :: bool

definition newObject :: "address \<Rightarrow> raw_account \<Rightarrow> stateObject" where
  "newObject addr d =
     (let or0 = (\<lambda>x. case x of None \<Rightarrow> 0 | Some i \<Rightarrow> i) in
      \<lparr>so_address = addr,
       so_data = \<lparr>Nonce = Nonce d, Balance = or0 (Balance d), Root = Root d,
         CodeHash = (case CodeHash d of None \<Rightarrow> emptyCodeHash | Some c \<Rightarrow> c),
         StakeBalance = or0 (StakeBalance d), StakeUpdated = or0 (StakeUpdated d), Point = or0 (Point d),
         BehindBalance = (case BehindBalance d of None \<Rightarrow> [] | Some b \<Rightarrow> b),
         Penalty = Penalty d, PenlatyUpdated = or0 (PenlatyUpdated d)\<rparr>,
       so_dbErr = None, so_trie = None, so_code = None, originStorage = Map.empty, dirtyStorage = Map.empty,
       dirtyCode = False, suicided = False, deleted = False\<rparr>)"

definition so_empty :: "stateObject \<Rightarrow> bool" where
  "so_empty ob \<longleftrightarrow> Nonce (so_data ob) = 0 \<and> Balance (so_data ob) = 0 \<and> CodeHash (so_data ob) = emptyCodeHash"

definition so_setError :: "string option \<Rightarrow> stateObject \<Rightarrow> stateObject" where
  "so_setError err ob = (if so_dbErr ob = None then ob\<lparr>so_dbErr := err\<rparr> else ob)"

text \<open>The storage trie that the database opens for the root 0 after an error is opened without a check
  of the second error; a trie that cannot be opened at all is read as empty here.\<close>

definition getTrie :: "Database \<Rightarrow> stateObject \<Rightarrow> trie \<times> stateObject" where
  "getTrie db ob =
     (case so_trie ob of
        Some t \<Rightarrow> (t, ob)
      | None \<Rightarrow>
          (case OpenStorageTrie db (addrHash (so_address ob)) (Root (so_data ob)) of
             Inr t \<Rightarrow> (t, ob\<lparr>so_trie := Some t\<rparr>)
           | Inl err \<Rightarrow>
               (let t = (case OpenStorageTrie db (addrHash (so_address ob)) 0 of Inr t \<Rightarrow> t | Inl _ \<Rightarrow> (\<lambda>_. Inr []))
                in (t, so_setError (Some (''can't create storage trie: '' @ err)) (ob\<lparr>so_trie := Some t\<rparr>)))))"

definition so_GetCommittedState :: "Database \<Rightarrow> stateObject \<Rightarrow> hash \<Rightarrow> hash \<times> stateObject" where
  "so_GetCommittedState db ob key =
     (case originStorage ob key of
        Some v \<Rightarrow> (v, ob)
      | None \<Rightarrow>
          (case getTrie db ob of (t, o1) \<Rightarrow>
             (case t (hash_bytes key) of
                Inl err \<Rightarrow> (0, so_setError (Some err) o1)
              | Inr enc \<Rightarrow>
                  (let (v, o2) =
                     (if enc = [] then (0, o1)
                      else (case Split enc of
                              Inl err \<Rightarrow> (0, so_setError (Some ''rlp'') o1)
                            | Inr (k, content, rest) \<Rightarrow> (BytesToHash content, o1)))
                   in (v, o2\<lparr>originStorage := (originStorage o2)(key \<mapsto> v)\<rparr>)))))"

definition so_GetState :: "Database \<Rightarrow> stateObject \<Rightarrow> hash \<Rightarrow> hash \<times> stateObject" where
  "so_GetState db ob key =
     (case dirtyStorage ob key of Some v \<Rightarrow> (v, ob) | None \<Rightarrow> so_GetCommittedState db ob key)"

definition setState :: "hash \<Rightarrow> hash \<Rightarrow> stateObject \<Rightarrow> stateObject" where
  "setState key v ob = ob\<lparr>dirtyStorage := (dirtyStorage ob)(key \<mapsto> v)\<rparr>"

text \<open>\<open>updateTrie\<close> visits the dirty slots in the order of the Go map, the argument \<open>keys\<close>. A slot is skipped
  if it has its original value, where a missing original value reads as the zero hash.\<close>

definition trim_left :: "byte list \<Rightarrow> byte list" where
  "trim_left b = dropWhile (\<lambda>x. x = 0) b"

fun updateTrie_loop :: "hash list \<Rightarrow> trie \<Rightarrow> stateObject \<Rightarrow> trie \<times> stateObject" where
  "updateTrie_loop [] tr ob = (tr, ob)"
| "updateTrie_loop (key # keys) tr ob =
     (case dirtyStorage ob key of
        None \<Rightarrow> updateTrie_loop keys tr ob
      | Some v \<Rightarrow>
          (let ob1 = ob\<lparr>dirtyStorage := (dirtyStorage ob)(key := None)\<rparr> in
           if v = (case originStorage ob1 key of None \<Rightarrow> 0 | Some x \<Rightarrow> x) then updateTrie_loop keys tr ob1
           else
             (let ob2 = ob1\<lparr>originStorage := (originStorage ob1)(key \<mapsto> v)\<rparr>;
                  (err, tr1) = (if v = 0 then TryDelete tr (hash_bytes key)
                                else TryUpdate tr (hash_bytes key)
                                       (case EncodeToBytes (VBytes (trim_left (hash_bytes v))) of
                                          Inl _ \<Rightarrow> [] | Inr enc \<Rightarrow> enc))
              in updateTrie_loop keys tr1 (so_setError err ob2))))"

definition updateTrie :: "Database \<Rightarrow> hash list \<Rightarrow> stateObject \<Rightarrow> trie \<times> stateObject" where
  "updateTrie db keys ob =
     (case getTrie db ob of (tr, ob1) \<Rightarrow>
        (case updateTrie_loop keys tr ob1 of (tr1, ob2) \<Rightarrow> (tr1, ob2\<lparr>so_trie := Some tr1\<rparr>)))"

definition updateRoot :: "Database \<Rightarrow> hash list \<Rightarrow> stateObject \<Rightarrow> stateObject" where
  "updateRoot db keys ob =
     (case updateTrie db keys ob of (tr, ob1) \<Rightarrow> ob1\<lparr>so_data := (so_data ob1)\<lparr>Root := TrieHash db tr\<rparr>\<rparr>)"

text \<open>The node database behind \<open>Trie.Commit\<close> is not modelled: committing a trie returns its root.\<close>

definition CommitTrie :: "Database \<Rightarrow> hash list \<Rightarrow> stateObject \<Rightarrow> string option \<times> stateObject" where
  "CommitTrie db keys ob =
     (case updateTrie db keys ob of (tr, ob1) \<Rightarrow>
        (case so_dbErr ob1 of
           Some err \<Rightarrow> (Some err, ob1)
         | None \<Rightarrow> (None, ob1\<lparr>so_data := (so_data ob1)\<lparr>Root := TrieHash db tr\<rparr>\<rparr>)))"

definition so_Code :: "Database \<Rightarrow> stateObject \<Rightarrow> byte list option \<times> stateObject" where
  "so_Code db ob =
     (case so_code ob of
        Some c \<Rightarrow> (Some c, ob)
      | None \<Rightarrow>
          if CodeHash (so_data ob) = emptyCodeHash then (None, ob)
          else (case ContractCode db (addrHash (so_address ob)) (BytesToHash (CodeHash (so_data ob))) of
                  Inl err \<Rightarrow> (None, so_setError (Some (''can't load code hash: '' @ err)) ob)
                | Inr c \<Rightarrow> (Some c, ob\<lparr>so_code := Some c\<rparr>)))"

definition setCode :: "hash \<Rightarrow> byte list option \<Rightarrow> stateObject \<Rightarrow> stateObject" where
  "setCode codeHash c ob =
     ob\<lparr>so_code := c, so_data := (so_data ob)\<lparr>CodeHash := hash_bytes codeHash\<rparr>, dirtyCode := True\<rparr>"

definition setBalance :: "int \<Rightarrow> stateObject \<Rightarrow> stateObject" where
  "setBalance amount ob = ob\<lparr>so_data := (so_data ob)\<lparr>Balance := amount\<rparr>\<rparr>"

definition setNonce :: "u64 \<Rightarrow> stateObject \<Rightarrow> stateObject" where
  "setNonce n ob = ob\<lparr>so_data := (so_data ob)\<lparr>Nonce := n\<rparr>\<rparr>"

definition setStaking :: "int \<Rightarrow> int \<Rightarrow> stateObject \<Rightarrow> stateObject" where
  "setStaking amount blockNumber ob =
     ob\<lparr>so_data := (so_data ob)\<lparr>StakeBalance := amount, StakeUpdated := blockNumber\<rparr>\<rparr>"

definition setBehind :: "Behind list \<Rightarrow> stateObject \<Rightarrow> stateObject" where
  "setBehind behind ob = ob\<lparr>so_data := (so_data ob)\<lparr>BehindBalance := behind\<rparr>\<rparr>"

definition setPoint :: "int \<Rightarrow> stateObject \<Rightarrow> stateObject" where
  "setPoint amount ob = ob\<lparr>so_data := (so_data ob)\<lparr>Point := amount\<rparr>\<rparr>"

definition setPenalty :: "u64 \<Rightarrow> int \<Rightarrow> stateObject \<Rightarrow> stateObject" where
  "setPenalty amount blockNumber ob =
     ob\<lparr>so_data := (so_data ob)\<lparr>Penalty := amount, PenlatyUpdated := blockNumber\<rparr>\<rparr>"

definition markSuicided :: "stateObject \<Rightarrow> stateObject" where
  "markSuicided ob = ob\<lparr>suicided := True\<rparr>"

definition so_GetFirstBehindBalance :: "stateObject \<Rightarrow> string + Behind" where
  "so_GetFirstBehindBalance ob =
     (case BehindBalance (so_data ob) of [] \<Rightarrow> Inl ''nil behind'' | b # _ \<Rightarrow> Inr b)"

definition so_RemoveFirstBehindBalance :: "stateObject \<Rightarrow> stateObject run" where
  "so_RemoveFirstBehindBalance ob =
     (case BehindBalance (so_data ob) of
        [] \<Rightarrow> Inl (Panicked ''slice bounds out of range'')
      | _ # bs \<Rightarrow> Inr (setBehind bs ob))"

text \<open>A deep copy keeps everything but the remembered error.\<close>

definition deepCopy :: "stateObject \<Rightarrow> stateObject" where
  "deepCopy ob =
     (newObject (so_address ob) (raw_of (so_data ob)))\<lparr>so_trie := so_trie ob, so_code := so_code ob,
        dirtyStorage := dirtyStorage ob, originStorage := originStorage ob, suicided := suicided ob,
        dirtyCode := dirtyCode ob, deleted := deleted ob\<rparr>"

subsection \<open>The account codec\<close>

lemma newObject_raw_of: "so_data (newObject a (raw_of d)) = d"
  by (simp add: newObject_def raw_of_def Let_def)

lemma deepCopy_eq: "deepCopy ob = ob\<lparr>so_dbErr := None\<rparr>"
  by (simp add: deepCopy_def newObject_def raw_of_def Let_def)

lemma hash_of_hash_bytes [simp]: "BytesToHash (hash_bytes h) = h"
proof -
  have "unat h < 2 ^ LENGTH(256)" by (rule unsigned_less)
  then show ?thesis by (simp add: BytesToHash_def hash_bytes_def be_value_be_bytes)
qed

lemma hash_bytes_BytesToHash: "length b = 32 \<Longrightarrow> hash_bytes (BytesToHash b) = b"
proof -
  assume l: "length b = 32"
  have "be_value b < 2 ^ 256" using be_value_less [of b] l by simp
  then have "unat (BytesToHash b) = be_value b" by (simp add: BytesToHash_def unat_of_nat)
  then show ?thesis using be_bytes_be_value [of b] l by (simp add: hash_bytes_def)
qed

lemma length_hash_bytes [simp]: "length (hash_bytes h) = 32"
  by (simp add: hash_bytes_def)

lemma map_decode_simps [simp]:
  "map_decode f r = (Inr y, s) \<longleftrightarrow> (\<exists>x. r = (Inr x, s) \<and> y = f x)"
  "map_decode f r = (Inl e, s) \<longleftrightarrow> r = (Inl e, s)"
  by (cases r; cases "fst r"; force simp: map_decode_def)+

abbreviation enc_int :: "int \<Rightarrow> byte list" where
  "enc_int i \<equiv> spec_string (nat_bytes (nat i))"

abbreviation enc_uint :: "u64 \<Rightarrow> byte list" where
  "enc_uint w \<equiv> spec_string (nat_bytes (unat w))"

lemma struct_decoder:
  assumes f: "fields_decoder f enc ok" and hg: "\<And>y. h (g y) = y" and gh: "\<And>x. ok x \<Longrightarrow> g (h x) = x"
  shows "element_decoder (\<lambda>s. map_decode h (decodeStruct f s)) (\<lambda>y. spec_list (enc (g y)))
    (\<lambda>y. ok (g y) \<and> length (enc (g y)) < 2 ^ 64)"
proof -
  have "element_decoder (\<lambda>s. map_decode h (decodeStruct f s)) (\<lambda>y. fields_decoder.enc_struct enc (g y))
      (\<lambda>y. True \<and> fields_decoder.ok_struct enc ok (g y))"
  proof (rule element_decoder_map [OF fields_decoder.struct_contract [OF f]])
    fix s s' y assume "good s" "skind s = None"
    have "g (h x) = x" if "decodeStruct f s = (Inr x, s')" for x
      using fields_decoder.struct_sound [OF f \<open>good s\<close> \<open>skind s = None\<close> that] gh
      by (simp add: fields_decoder.ok_struct_def [OF f])
    then show "map_decode h (decodeStruct f s) = (Inr y, s') \<longleftrightarrow> True \<and> decodeStruct f s = (Inr (g y), s')"
      using hg by auto
  qed simp
  then show ?thesis by (simp add: fields_decoder.enc_struct_def [OF f] fields_decoder.ok_struct_def [OF f])
qed

definition behind_enc :: "Behind \<Rightarrow> byte list" where
  "behind_enc b = spec_list (enc_int (bhNumber b) @ enc_int (bhBalance b))"

definition behind_ok :: "Behind \<Rightarrow> bool" where
  "behind_ok b \<longleftrightarrow> 0 \<le> bhNumber b \<and> 0 \<le> bhBalance b \<and> length (enc_int (bhNumber b) @ enc_int (bhBalance b)) < 2 ^ 64"

lemma length_le_spec_string: "length b \<le> length (spec_string b)"
  by (simp add: spec_string_def)

interpretation behind_fields: fields_decoder "decodeField decodeBigInt (decodeField decodeBigInt decodeFieldsEnd)"
  "\<lambda>(n, b, _). enc_int n @ enc_int b @ []"
  "\<lambda>(n, b, _). (0 \<le> n \<and> length (nat_bytes (nat n)) < 2 ^ 64) \<and> (0 \<le> b \<and> length (nat_bytes (nat b)) < 2 ^ 64) \<and> True"
  using field_contract [OF bigint.element_decoder_axioms
      field_contract [OF bigint.element_decoder_axioms fields_end.fields_decoder_axioms]]
  by (simp add: case_prod_unfold)

interpretation behind: element_decoder decodeBehind behind_enc behind_ok
proof -
  note c = struct_decoder [OF behind_fields.fields_decoder_axioms,
      where h = "\<lambda>(n, b, _). \<lparr>bhNumber = n, bhBalance = b\<rparr>" and g = "\<lambda>b. (bhNumber b, bhBalance b, ())"]
  have ok: "(0 \<le> n \<and> length (nat_bytes (nat n)) < 2 ^ 64 \<and> 0 \<le> m \<and> length (nat_bytes (nat m)) < 2 ^ 64)
      \<and> length (enc_int n @ enc_int m) < 2 ^ 64 \<longleftrightarrow> 0 \<le> n \<and> 0 \<le> m \<and> length (enc_int n @ enc_int m) < 2 ^ 64" for n m
    using length_le_spec_string [of "nat_bytes (nat n)"] length_le_spec_string [of "nat_bytes (nat m)"] by auto
  have "element_decoder (\<lambda>s. map_decode (\<lambda>(n, b, _). \<lparr>bhNumber = n, bhBalance = b\<rparr>)
      (decodeStruct (decodeField decodeBigInt (decodeField decodeBigInt decodeFieldsEnd)) s))
      (\<lambda>b. spec_list (enc_int (bhNumber b) @ enc_int (bhBalance b) @ []))
      (\<lambda>b. ((0 \<le> bhNumber b \<and> length (nat_bytes (nat (bhNumber b))) < 2 ^ 64)
        \<and> (0 \<le> bhBalance b \<and> length (nat_bytes (nat (bhBalance b))) < 2 ^ 64) \<and> True)
        \<and> length (enc_int (bhNumber b) @ enc_int (bhBalance b) @ []) < 2 ^ 64)"
    using c by (simp only: prod.case) auto
  then show "element_decoder decodeBehind behind_enc behind_ok"
    unfolding decodeBehind_def [abs_def] behind_enc_def [abs_def] behind_ok_def [abs_def]
    by (simp only: append_Nil2 simp_thms conj_assoc ok [simplified conj_assoc])
qed

interpretation behinds: element_decoder "decodeListSlice decodeBehind" behind.enc_list behind.ok_list
  by (rule behind.list_contract)

definition account_content :: "account \<Rightarrow> byte list" where
  "account_content d =
     enc_uint (Nonce d) @ enc_int (Balance d) @ spec_string (hash_bytes (Root d)) @ spec_string (CodeHash d)
     @ enc_int (StakeBalance d) @ enc_int (StakeUpdated d) @ enc_int (Point d)
     @ behind.enc_list (BehindBalance d) @ enc_uint (Penalty d) @ enc_int (PenlatyUpdated d)"

definition account_ok :: "account \<Rightarrow> bool" where
  "account_ok d \<longleftrightarrow> 0 \<le> Balance d \<and> 0 \<le> StakeBalance d \<and> 0 \<le> StakeUpdated d \<and> 0 \<le> Point d
     \<and> 0 \<le> PenlatyUpdated d \<and> (\<forall>b\<in>set (BehindBalance d). 0 \<le> bhNumber b \<and> 0 \<le> bhBalance b)
     \<and> length (account_content d) < 2 ^ 64"

definition account_tuple where
  "account_tuple d = (Nonce d, Balance d, hash_bytes (Root d), CodeHash d, StakeBalance d, StakeUpdated d,
     Point d, BehindBalance d, Penalty d, PenlatyUpdated d, ())"

lemmas account_fields =
  field_contract [OF uint64.element_decoder_axioms field_contract [OF bigint.element_decoder_axioms
  field_contract [OF hash_array.element_decoder_axioms field_contract [OF bytes_field.element_decoder_axioms
  field_contract [OF bigint.element_decoder_axioms field_contract [OF bigint.element_decoder_axioms
  field_contract [OF bigint.element_decoder_axioms field_contract [OF behinds.element_decoder_axioms
  field_contract [OF uint64.element_decoder_axioms field_contract [OF bigint.element_decoder_axioms
  fields_end.fields_decoder_axioms]]]]]]]]]]

lemma behind_list_parts:
  assumes "length (behind.enc_list bs) < 2 ^ 64"
  shows "behind.ok_list bs \<longleftrightarrow> (\<forall>b\<in>set bs. 0 \<le> bhNumber b \<and> 0 \<le> bhBalance b)"
proof -
  have l: "length (concat (map behind_enc bs)) < 2 ^ 64"
    using assms by (simp add: behind.enc_list_def spec_list_def)
  have "length (behind_enc b) \<le> length (concat (map behind_enc bs))" if "b \<in> set bs" for b
    using that by (auto simp: length_concat comp_def intro: member_le_sum_list)
  then have "length (enc_int (bhNumber b) @ enc_int (bhBalance b)) < 2 ^ 64" if "b \<in> set bs" for b
    using that l by (fastforce simp: behind_enc_def spec_list_def)
  then show ?thesis using l by (auto simp: behind.ok_list_def behind_ok_def)
qed

lemma account_ok_parts:
  "account_ok d \<longleftrightarrow> (True \<and> (0 \<le> Balance d \<and> length (nat_bytes (nat (Balance d))) < 2 ^ 64)
     \<and> length (hash_bytes (Root d)) = 32 \<and> (True \<and> length (CodeHash d) < 2 ^ 64)
     \<and> (0 \<le> StakeBalance d \<and> length (nat_bytes (nat (StakeBalance d))) < 2 ^ 64)
     \<and> (0 \<le> StakeUpdated d \<and> length (nat_bytes (nat (StakeUpdated d))) < 2 ^ 64)
     \<and> (0 \<le> Point d \<and> length (nat_bytes (nat (Point d))) < 2 ^ 64)
     \<and> behind.ok_list (BehindBalance d) \<and> True
     \<and> (0 \<le> PenlatyUpdated d \<and> length (nat_bytes (nat (PenlatyUpdated d))) < 2 ^ 64) \<and> True)
     \<and> length (account_content d) < 2 ^ 64"
proof (cases "length (account_content d) < 2 ^ 64")
  case True
  then have l: "length (spec_string (CodeHash d)) < 2 ^ 64" "length (enc_int (Balance d)) < 2 ^ 64"
    "length (enc_int (StakeBalance d)) < 2 ^ 64" "length (enc_int (StakeUpdated d)) < 2 ^ 64"
    "length (enc_int (Point d)) < 2 ^ 64" "length (enc_int (PenlatyUpdated d)) < 2 ^ 64"
    "length (behind.enc_list (BehindBalance d)) < 2 ^ 64"
    by (simp_all add: account_content_def)
  note le = le_less_trans [OF length_le_spec_string]
  from l(1-6) [THEN le] behind_list_parts [OF l(7)] show ?thesis
    unfolding account_ok_def by (simp only: True length_hash_bytes) blast
qed (simp add: account_ok_def)

interpretation account: element_decoder decodeAccount "\<lambda>d. spec_list (account_content d)" account_ok
proof -
  let ?h = "\<lambda>(nonce, bal, root, code, stake, upd, pnt, behind, pen, penupd, _).
     \<lparr>Nonce = nonce, Balance = bal, Root = BytesToHash root, CodeHash = code, StakeBalance = stake,
      StakeUpdated = upd, Point = pnt, BehindBalance = behind, Penalty = pen, PenlatyUpdated = penupd\<rparr>"
  have hg: "?h (account_tuple d) = d" for d by (simp add: account_tuple_def)
  show "element_decoder decodeAccount (\<lambda>d. spec_list (account_content d)) account_ok"
    using struct_decoder [OF account_fields, where h = ?h and g = account_tuple, OF hg]
    unfolding decodeAccount_def [abs_def] account_ok_parts [abs_def] account_content_def [abs_def]
    by (simp only: account_tuple_def prod.case append_Nil2) (auto simp: hash_bytes_BytesToHash)
qed

lemma rlp_specs_behinds:
  "\<forall>b\<in>set bs. 0 \<le> bhNumber b \<and> 0 \<le> bhBalance b \<Longrightarrow>
    rlp_specs (map behind_rlp bs) = Inr (concat (map behind_enc bs))"
  by (induction bs) (auto simp: behind_rlp_def behind_enc_def)

lemma account_rlp_spec:
  "account_ok d \<Longrightarrow> rlp_spec (account_rlp d) = Inr (spec_list (account_content d))"
  by (simp add: account_ok_def account_rlp_def rlp_specs_behinds account_content_def behind.enc_list_def)

lemma account_encode:
  assumes "account_ok d" "length (spec_list (account_content d)) < 2 ^ 64"
  shows "EncodeToBytes (account_rlp d) = Inr (spec_list (account_content d))"
  by (rule EncodeToBytes_Inr [OF account_rlp_spec [OF assms(1)] assms(2)])

lemma account_decode:
  "length b < 2 ^ 64 \<Longrightarrow>
    DecodeBytes decodeAccount b = Inr d \<longleftrightarrow> account_ok d \<and> spec_list (account_content d) = b"
  by (rule DecodeBytes_contract [OF account.element_decoder_axioms])

lemma be_bytes_zeros: "be_bytes k 0 = replicate k 0"
  by (induction k) (auto simp: replicate_append_same)

text \<open>C32: An account survives the trip through the state trie: an input shorter than 2^64 bytes decodes to an
  account exactly if the amounts of the account are not negative and the input is the specified
  encoding of the account, and then the encoder writes this input again.\<close>

theorem account_codec:
  assumes "length b < 2 ^ 64"
  shows "(DecodeBytes decodeAccount b = Inr d \<longleftrightarrow> account_ok d \<and> rlp_spec (account_rlp d) = Inr b)
    \<and> (DecodeBytes decodeAccount b = Inr d \<longrightarrow> EncodeToBytes (account_rlp d) = Inr b)"
proof -
  have "DecodeBytes decodeAccount b = Inr d \<longleftrightarrow> account_ok d \<and> rlp_spec (account_rlp d) = Inr b"
    unfolding account_decode [OF assms] by (rule conj_cong [OF refl]) (simp add: account_rlp_spec)
  moreover have "rlp_spec (account_rlp d) = Inr b \<Longrightarrow> EncodeToBytes (account_rlp d) = Inr b"
    by (rule EncodeToBytes_Inr [OF _ assms])
  ultimately show ?thesis by simp
qed

theorem account_codec_witness:
  "let d = \<lparr>Nonce = 7, Balance = 1000, Root = 0, CodeHash = [1], StakeBalance = 5, StakeUpdated = 3, Point = 9,
         BehindBalance = [\<lparr>bhNumber = 4, bhBalance = 2\<rparr>], Penalty = 0, PenlatyUpdated = 0\<rparr>;
       b = [0xEF, 7, 0x82, 3, 0xE8, 0xA0] @ replicate 32 0 @ [1, 5, 3, 9, 0xC3, 0xC2, 4, 2, 0x80, 0x80]
   in DecodeBytes decodeAccount b = Inr d \<and> EncodeToBytes (account_rlp d) = Inr b"
proof -
  let ?d = "\<lparr>Nonce = 7, Balance = 1000, Root = 0, CodeHash = [1], StakeBalance = 5, StakeUpdated = 3, Point = 9,
         BehindBalance = [\<lparr>bhNumber = 4, bhBalance = 2\<rparr>], Penalty = 0, PenlatyUpdated = 0\<rparr> :: account"
  let ?b = "[0xEF, 7, 0x82, 3, 0xE8, 0xA0] @ replicate 32 0 @ [1, 5, 3, 9, 0xC3, 0xC2, 4, 2, 0x80, 0x80]"
  note n = nat_bytes.simps [of 1000] nat_bytes.simps [of 3] nat_bytes.simps [of 7] nat_bytes.simps [of 5]
    nat_bytes.simps [of 9] nat_bytes.simps [of 4] nat_bytes.simps [of 2] nat_bytes.simps [of 0]
  have h: "hash_bytes 0 = replicate 32 0" by (simp add: hash_bytes_def be_bytes_zeros)
  have c: "spec_list (account_content ?d) = ?b"
    by (simp add: account_content_def behind.enc_list_def behind_enc_def spec_list_def spec_string_def
        spec_head_def n h)
  have "account_ok ?d"
    using arg_cong [OF c, of length] by (simp add: account_ok_def spec_list_def)
  with c account_rlp_spec have "account_ok ?d \<and> rlp_spec (account_rlp ?d) = Inr ?b" by simp
  with account_codec [of ?b ?d] show ?thesis unfolding Let_def by simp
qed

end
