(* ===== verification/State_DB.thy ===== *)
theory State_DB
  imports State_Object
begin

text \<open>
  The state database of \<open>core/state/statedb.go\<close> and its journal, \<open>core/state/journal.go\<close>.

  A \<open>*stateObject\<close> that the code holds is the live object of its address, so a change through the pointer
  is \<open>write_object\<close>. The getters return their result and the state, because they load objects into the
  live set and remember errors. A panic is \<open>Inl\<close>. Go maps that the code iterates over have no order:
  the order is an argument.
\<close>

record Log =
  log_Address :: address
  log_Topics :: "hash list"
  log_Data :: "byte list"
  log_BlockNumber :: u64
  log_TxHash :: hash
  log_TxIndex :: u64
  log_BlockHash :: hash
  log_Index :: u64
  log_Removed :: bool

datatype journalEntry =
    CreateObjectChange address
  | ResetObjectChange stateObject
  | SuicideChange address bool int
  | BalanceChange address int
  | NonceChange address u64
  | StorageChange address hash hash
  | CodeChange address "byte list option" "byte list"
  | RefundChange u64
  | AddLogChange hash
  | AddPreimageChange hash
  | TouchChange address
  | StakingChange address int int
  | PointChange address int
  | BehindChange address "Behind list"
  | PenaltyChange address u64 int

record journal =
  entries :: "journalEntry list"
  dirties :: "address \<rightharpoonup> int"

definition newJournal :: journal where
  "newJournal = \<lparr>entries = [], dirties = Map.empty\<rparr>"

record StateDB =
  sdb :: Database
  strie :: trie
  stateObjects :: "address \<rightharpoonup> stateObject"
  stateObjectsDirty :: "address set"
  dbErr :: "string option"
  refund :: u64
  thash :: hash
  bhash :: hash
  txIndex :: int
  logs :: "hash \<rightharpoonup> Log list"
  logSize :: u64
  preimages :: "hash \<rightharpoonup> byte list"
  jrnl :: journal
  validRevisions :: "(int \<times> nat) list"
  nextRevisionId :: int

subsection \<open>The journal\<close>

fun dirtied :: "journalEntry \<Rightarrow> address option" where
  "dirtied (CreateObjectChange a) = Some a"
| "dirtied (ResetObjectChange prev) = None"
| "dirtied (SuicideChange a prev prevbalance) = Some a"
| "dirtied (BalanceChange a prev) = Some a"
| "dirtied (NonceChange a prev) = Some a"
| "dirtied (StorageChange a key prevalue) = Some a"
| "dirtied (CodeChange a prevcode prevhash) = Some a"
| "dirtied (RefundChange prev) = None"
| "dirtied (AddLogChange txhash) = None"
| "dirtied (AddPreimageChange h) = None"
| "dirtied (TouchChange a) = Some a"
| "dirtied (StakingChange a prevBalance prevBlock) = Some a"
| "dirtied (PointChange a prev) = Some a"
| "dirtied (BehindChange a prev) = Some a"
| "dirtied (PenaltyChange a prevPenalty prevBlock) = Some a"

definition dirty_count :: "(address \<rightharpoonup> int) \<Rightarrow> address \<Rightarrow> int" where
  "dirty_count d a = (case d a of None \<Rightarrow> 0 | Some n \<Rightarrow> n)"

definition journal_dirty :: "address \<Rightarrow> journal \<Rightarrow> journal" where
  "journal_dirty a j = j\<lparr>dirties := (dirties j)(a \<mapsto> dirty_count (dirties j) a + 1)\<rparr>"

definition journal_append :: "journalEntry \<Rightarrow> journal \<Rightarrow> journal" where
  "journal_append e j =
     (let j1 = j\<lparr>entries := entries j @ [e]\<rparr> in
      case dirtied e of None \<Rightarrow> j1 | Some a \<Rightarrow> journal_dirty a j1)"

definition journal_undirty :: "journalEntry \<Rightarrow> journal \<Rightarrow> journal" where
  "journal_undirty e j =
     (case dirtied e of
        None \<Rightarrow> j
      | Some a \<Rightarrow>
          (let n = dirty_count (dirties j) a - 1
           in j\<lparr>dirties := (dirties j)(a := if n = 0 then None else Some n)\<rparr>))"

definition add_journal :: "journalEntry \<Rightarrow> StateDB \<Rightarrow> StateDB" where
  "add_journal e s = s\<lparr>jrnl := journal_append e (jrnl s)\<rparr>"

subsection \<open>Objects of the state\<close>

definition state_New :: "hash \<Rightarrow> Database \<Rightarrow> string + StateDB" where
  "state_New rt db =
     (case OpenTrie db rt of
        Inl err \<Rightarrow> Inl err
      | Inr tr \<Rightarrow> Inr \<lparr>sdb = db, strie = tr, stateObjects = Map.empty, stateObjectsDirty = {}, dbErr = None,
          refund = 0, thash = 0, bhash = 0, txIndex = 0, logs = Map.empty, logSize = 0,
          preimages = Map.empty, jrnl = newJournal, validRevisions = [], nextRevisionId = 0\<rparr>)"

definition setError :: "string option \<Rightarrow> StateDB \<Rightarrow> StateDB" where
  "setError err s = (if dbErr s = None then s\<lparr>dbErr := err\<rparr> else s)"

definition clearJournalAndRefund :: "StateDB \<Rightarrow> StateDB" where
  "clearJournalAndRefund s = s\<lparr>jrnl := newJournal, validRevisions := [], refund := 0\<rparr>"

definition state_Reset :: "hash \<Rightarrow> StateDB \<Rightarrow> string + StateDB" where
  "state_Reset rt s =
     (case OpenTrie (sdb s) rt of
        Inl err \<Rightarrow> Inl err
      | Inr tr \<Rightarrow> Inr (clearJournalAndRefund (s\<lparr>strie := tr, stateObjects := Map.empty, stateObjectsDirty := {},
          thash := 0, bhash := 0, txIndex := 0, logs := Map.empty, logSize := 0, preimages := Map.empty\<rparr>)))"

definition setStateObject :: "stateObject \<Rightarrow> StateDB \<Rightarrow> StateDB" where
  "setStateObject ob s = s\<lparr>stateObjects := (stateObjects s)(so_address ob \<mapsto> ob)\<rparr>"

abbreviation write_object :: "stateObject \<Rightarrow> StateDB \<Rightarrow> StateDB" where
  "write_object \<equiv> setStateObject"

definition getStateObject :: "StateDB \<Rightarrow> address \<Rightarrow> stateObject option \<times> StateDB" where
  "getStateObject s addr =
     (case stateObjects s addr of
        Some ob \<Rightarrow> (if deleted ob then None else Some ob, s)
      | None \<Rightarrow>
          (case strie s (addr_bytes addr) of
             Inl err \<Rightarrow> (None, setError (Some err) s)
           | Inr enc \<Rightarrow>
               if enc = [] then (None, s)
               else (case DecodeBytes decodeAccount enc of
                       Inl err \<Rightarrow> (None, s)
                     | Inr d \<Rightarrow>
                         (let ob = newObject addr (raw_of d) in (Some ob, setStateObject ob s)))))"

definition createObject :: "StateDB \<Rightarrow> address \<Rightarrow> (stateObject \<times> stateObject option) \<times> StateDB" where
  "createObject s addr =
     (case getStateObject s addr of (prev, s1) \<Rightarrow>
        (let newobj = setNonce 0 (newObject addr zero_Account);
             s2 = (case prev of
                     None \<Rightarrow> add_journal (CreateObjectChange addr) s1
                   | Some p \<Rightarrow> add_journal (ResetObjectChange p) s1)
         in ((newobj, prev), setStateObject newobj s2)))"

definition GetOrNewStateObject :: "StateDB \<Rightarrow> address \<Rightarrow> stateObject \<times> StateDB" where
  "GetOrNewStateObject s addr =
     (case getStateObject s addr of
        (Some ob, s1) \<Rightarrow> if deleted ob then (case createObject s1 addr of ((nob, _), s2) \<Rightarrow> (nob, s2)) else (ob, s1)
      | (None, s1) \<Rightarrow> (case createObject s1 addr of ((nob, _), s2) \<Rightarrow> (nob, s2)))"

definition CreateAccount :: "StateDB \<Rightarrow> address \<Rightarrow> StateDB" where
  "CreateAccount s addr =
     (case createObject s addr of
        ((newObj, None), s1) \<Rightarrow> s1
      | ((newObj, Some prev), s1) \<Rightarrow> write_object (setBalance (Balance (so_data prev)) newObj) s1)"

subsection \<open>Journaled changes of an object\<close>

definition ripemd :: address where "ripemd = 3"

definition touch :: "stateObject \<Rightarrow> StateDB \<Rightarrow> StateDB" where
  "touch ob s =
     (let s1 = add_journal (TouchChange (so_address ob)) s in
      if so_address ob = ripemd then s1\<lparr>jrnl := journal_dirty (so_address ob) (jrnl s1)\<rparr> else s1)"

definition so_SetBalance :: "stateObject \<Rightarrow> int \<Rightarrow> StateDB \<Rightarrow> StateDB" where
  "so_SetBalance ob amount s =
     write_object (setBalance amount ob) (add_journal (BalanceChange (so_address ob) (Balance (so_data ob))) s)"

definition so_AddBalance :: "stateObject \<Rightarrow> int \<Rightarrow> StateDB \<Rightarrow> StateDB" where
  "so_AddBalance ob amount s =
     (if amount = 0 then (if so_empty ob then touch ob s else s)
      else so_SetBalance ob (Balance (so_data ob) + amount) s)"

definition so_SubBalance :: "stateObject \<Rightarrow> int \<Rightarrow> StateDB \<Rightarrow> StateDB" where
  "so_SubBalance ob amount s =
     (if amount = 0 then s else so_SetBalance ob (Balance (so_data ob) - amount) s)"

definition so_SetNonce :: "stateObject \<Rightarrow> u64 \<Rightarrow> StateDB \<Rightarrow> StateDB" where
  "so_SetNonce ob n s =
     write_object (setNonce n ob) (add_journal (NonceChange (so_address ob) (Nonce (so_data ob))) s)"

definition so_SetCode :: "stateObject \<Rightarrow> hash \<Rightarrow> byte list option \<Rightarrow> StateDB \<Rightarrow> StateDB" where
  "so_SetCode ob codeHash c s =
     (case so_Code (sdb s) ob of (prevcode, ob1) \<Rightarrow>
        write_object (setCode codeHash c ob1)
          (add_journal (CodeChange (so_address ob) prevcode (CodeHash (so_data ob))) s))"

definition so_SetState :: "stateObject \<Rightarrow> hash \<Rightarrow> hash \<Rightarrow> StateDB \<Rightarrow> StateDB" where
  "so_SetState ob key v s =
     (case so_GetState (sdb s) ob key of (prev, ob1) \<Rightarrow>
        if prev = v then write_object ob1 s
        else write_object (setState key v ob1) (add_journal (StorageChange (so_address ob) key prev) s))"

definition so_SetStaking :: "stateObject \<Rightarrow> int \<Rightarrow> int \<Rightarrow> StateDB \<Rightarrow> StateDB" where
  "so_SetStaking ob amount blockNumber s =
     write_object (setStaking amount blockNumber ob)
       (add_journal (StakingChange (so_address ob) (StakeBalance (so_data ob)) (StakeUpdated (so_data ob))) s)"

definition so_RemoveStakeBalance :: "stateObject \<Rightarrow> StateDB \<Rightarrow> StateDB" where
  "so_RemoveStakeBalance ob s =
     (let stakeBalance = StakeBalance (so_data ob) in
      if stakeBalance = 0 then s
      else so_AddBalance (setStaking 0 (StakeUpdated (so_data ob)) ob) stakeBalance
             (so_SetStaking ob 0 (StakeUpdated (so_data ob)) s))"

definition so_AddStakeBalance :: "stateObject \<Rightarrow> int \<Rightarrow> int \<Rightarrow> StateDB \<Rightarrow> StateDB" where
  "so_AddStakeBalance ob amount blockNumber s =
     (if amount = 0 then (if so_empty ob then touch ob s else s)
      else so_SetStaking ob (StakeBalance (so_data ob) + amount) blockNumber s)"

definition so_SetBehind :: "stateObject \<Rightarrow> int \<Rightarrow> int \<Rightarrow> StateDB \<Rightarrow> StateDB" where
  "so_SetBehind ob number amount s =
     (let behind = \<lparr>bhNumber = number, bhBalance = amount\<rparr> in
      write_object (setBehind (BehindBalance (so_data ob) @ [behind]) ob)
        (add_journal (BehindChange (so_address ob) [behind]) s))"

definition so_AddBehindBalance :: "stateObject \<Rightarrow> int \<Rightarrow> int \<Rightarrow> StateDB \<Rightarrow> StateDB" where
  "so_AddBehindBalance ob number amount s =
     (if amount = 0 then (if so_empty ob then touch ob s else s) else so_SetBehind ob number amount s)"

definition so_SetPoint :: "stateObject \<Rightarrow> int \<Rightarrow> StateDB \<Rightarrow> StateDB" where
  "so_SetPoint ob amount s =
     write_object (setPoint amount ob) (add_journal (PointChange (so_address ob) (Point (so_data ob))) s)"

definition so_AddPoint :: "stateObject \<Rightarrow> int \<Rightarrow> StateDB \<Rightarrow> StateDB" where
  "so_AddPoint ob amount s =
     (if amount = 0 then (if so_empty ob then touch ob s else s)
      else so_SetPoint ob (Point (so_data ob) + amount) s)"

definition so_AddPenalty :: "stateObject \<Rightarrow> int \<Rightarrow> StateDB \<Rightarrow> StateDB" where
  "so_AddPenalty ob blockNumber s =
     write_object (setPenalty (Penalty (so_data ob) + 1) blockNumber ob)
       (add_journal (PenaltyChange (so_address ob) (Penalty (so_data ob)) (PenlatyUpdated (so_data ob))) s)"

definition so_RemovePenalty :: "stateObject \<Rightarrow> int \<Rightarrow> StateDB \<Rightarrow> StateDB" where
  "so_RemovePenalty ob blockNumber s =
     write_object (setPenalty 0 blockNumber ob)
       (add_journal (PenaltyChange (so_address ob) (Penalty (so_data ob)) (PenlatyUpdated (so_data ob))) s)"

subsection \<open>Reading the state\<close>

text \<open>A getter returns a default for an account that does not exist.\<close>

definition read_object :: "(stateObject \<Rightarrow> 'a) \<Rightarrow> 'a \<Rightarrow> StateDB \<Rightarrow> address \<Rightarrow> 'a \<times> StateDB" where
  "read_object f d s addr =
     (case getStateObject s addr of (None, s1) \<Rightarrow> (d, s1) | (Some ob, s1) \<Rightarrow> (f ob, s1))"

definition Exist :: "StateDB \<Rightarrow> address \<Rightarrow> bool \<times> StateDB" where
  "Exist = read_object (\<lambda>ob. True) False"

definition state_Empty :: "StateDB \<Rightarrow> address \<Rightarrow> bool \<times> StateDB" where
  "state_Empty = read_object so_empty True"

definition GetBalance :: "StateDB \<Rightarrow> address \<Rightarrow> int \<times> StateDB" where
  "GetBalance = read_object (\<lambda>ob. Balance (so_data ob)) 0"

definition GetNonce :: "StateDB \<Rightarrow> address \<Rightarrow> u64 \<times> StateDB" where
  "GetNonce = read_object (\<lambda>ob. Nonce (so_data ob)) 0"

definition GetCode :: "StateDB \<Rightarrow> address \<Rightarrow> byte list option \<times> StateDB" where
  "GetCode s addr =
     (case getStateObject s addr of
        (None, s1) \<Rightarrow> (None, s1)
      | (Some ob, s1) \<Rightarrow> (case so_Code (sdb s1) ob of (c, ob1) \<Rightarrow> (c, write_object ob1 s1)))"

definition GetCodeSize :: "StateDB \<Rightarrow> address \<Rightarrow> int \<times> StateDB" where
  "GetCodeSize s addr =
     (case getStateObject s addr of
        (None, s1) \<Rightarrow> (0, s1)
      | (Some ob, s1) \<Rightarrow>
          (case so_code ob of
             Some c \<Rightarrow> (int (length c), s1)
           | None \<Rightarrow>
               (case ContractCodeSize (sdb s1) (addrHash addr) (BytesToHash (CodeHash (so_data ob))) of
                  Inl err \<Rightarrow> (0, setError (Some err) s1)
                | Inr n \<Rightarrow> (n, s1))))"

definition GetCodeHash :: "StateDB \<Rightarrow> address \<Rightarrow> hash \<times> StateDB" where
  "GetCodeHash = read_object (\<lambda>ob. BytesToHash (CodeHash (so_data ob))) 0"

definition GetState :: "StateDB \<Rightarrow> address \<Rightarrow> hash \<Rightarrow> hash \<times> StateDB" where
  "GetState s addr key =
     (case getStateObject s addr of
        (None, s1) \<Rightarrow> (0, s1)
      | (Some ob, s1) \<Rightarrow> (case so_GetState (sdb s1) ob key of (v, ob1) \<Rightarrow> (v, write_object ob1 s1)))"

definition GetCommittedState :: "StateDB \<Rightarrow> address \<Rightarrow> hash \<Rightarrow> hash \<times> StateDB" where
  "GetCommittedState s addr key =
     (case getStateObject s addr of
        (None, s1) \<Rightarrow> (0, s1)
      | (Some ob, s1) \<Rightarrow> (case so_GetCommittedState (sdb s1) ob key of (v, ob1) \<Rightarrow> (v, write_object ob1 s1)))"

definition HasSuicided :: "StateDB \<Rightarrow> address \<Rightarrow> bool \<times> StateDB" where
  "HasSuicided = read_object suicided False"

definition GetStakeBalance :: "StateDB \<Rightarrow> address \<Rightarrow> int \<times> StateDB" where
  "GetStakeBalance = read_object (\<lambda>ob. StakeBalance (so_data ob)) 0"

definition GetStakeUpdated :: "StateDB \<Rightarrow> address \<Rightarrow> int \<times> StateDB" where
  "GetStakeUpdated = read_object (\<lambda>ob. StakeUpdated (so_data ob)) 0"

definition GetAccountInfo :: "StateDB \<Rightarrow> address \<Rightarrow> raw_account \<times> StateDB" where
  "GetAccountInfo =
     read_object (\<lambda>ob. raw_of (so_data ob))
       (zero_Account\<lparr>Balance := Some 0, Root := BytesToHash (keccak256 [])\<rparr>)"

definition GetPoint :: "StateDB \<Rightarrow> address \<Rightarrow> int \<times> StateDB" where
  "GetPoint = read_object (\<lambda>ob. Point (so_data ob)) 0"

definition GetFirstBehindBalance :: "StateDB \<Rightarrow> address \<Rightarrow> (string + Behind) \<times> StateDB" where
  "GetFirstBehindBalance =
     read_object (\<lambda>ob. case so_GetFirstBehindBalance ob of Inl _ \<Rightarrow> Inl ''empty behind'' | Inr b \<Rightarrow> Inr b)
       (Inl ''empty behind'')"

definition GetBehindBalance :: "StateDB \<Rightarrow> address \<Rightarrow> Behind list \<times> StateDB" where
  "GetBehindBalance = read_object (\<lambda>ob. BehindBalance (so_data ob)) []"

definition GetPenalty :: "StateDB \<Rightarrow> address \<Rightarrow> u64 \<times> StateDB" where
  "GetPenalty = read_object (\<lambda>ob. Penalty (so_data ob)) 0"

definition GetPenaltyUpdated :: "StateDB \<Rightarrow> address \<Rightarrow> int \<times> StateDB" where
  "GetPenaltyUpdated = read_object (\<lambda>ob. PenlatyUpdated (so_data ob)) 0"

subsection \<open>Changing the state\<close>

definition update_object :: "(stateObject \<Rightarrow> StateDB \<Rightarrow> StateDB) \<Rightarrow> StateDB \<Rightarrow> address \<Rightarrow> StateDB" where
  "update_object f s addr = (case GetOrNewStateObject s addr of (ob, s1) \<Rightarrow> f ob s1)"

definition update_existing :: "(stateObject \<Rightarrow> StateDB \<Rightarrow> StateDB) \<Rightarrow> StateDB \<Rightarrow> address \<Rightarrow> StateDB" where
  "update_existing f s addr =
     (case getStateObject s addr of (None, s1) \<Rightarrow> s1 | (Some ob, s1) \<Rightarrow> f ob s1)"

definition AddBalance :: "StateDB \<Rightarrow> address \<Rightarrow> int \<Rightarrow> StateDB" where
  "AddBalance s addr amount = update_object (\<lambda>ob. so_AddBalance ob amount) s addr"

definition SubBalance :: "StateDB \<Rightarrow> address \<Rightarrow> int \<Rightarrow> StateDB" where
  "SubBalance s addr amount = update_object (\<lambda>ob. so_SubBalance ob amount) s addr"

definition SetBalance :: "StateDB \<Rightarrow> address \<Rightarrow> int \<Rightarrow> StateDB" where
  "SetBalance s addr amount = update_object (\<lambda>ob. so_SetBalance ob amount) s addr"

definition SetNonce :: "StateDB \<Rightarrow> address \<Rightarrow> u64 \<Rightarrow> StateDB" where
  "SetNonce s addr n = update_object (\<lambda>ob. so_SetNonce ob n) s addr"

definition SetCode :: "StateDB \<Rightarrow> address \<Rightarrow> byte list \<Rightarrow> StateDB" where
  "SetCode s addr c = update_object (\<lambda>ob. so_SetCode ob (BytesToHash (keccak256 c)) (Some c)) s addr"

definition SetState :: "StateDB \<Rightarrow> address \<Rightarrow> hash \<Rightarrow> hash \<Rightarrow> StateDB" where
  "SetState s addr key v = update_object (\<lambda>ob. so_SetState ob key v) s addr"

definition SetStaking :: "StateDB \<Rightarrow> address \<Rightarrow> int \<Rightarrow> int \<Rightarrow> StateDB" where
  "SetStaking s addr amount blockNumber = update_object (\<lambda>ob. so_SetStaking ob amount blockNumber) s addr"

definition RemoveStakeBalance :: "StateDB \<Rightarrow> address \<Rightarrow> StateDB" where
  "RemoveStakeBalance s addr = update_object so_RemoveStakeBalance s addr"

definition AddStakeBalance :: "StateDB \<Rightarrow> address \<Rightarrow> int \<Rightarrow> int \<Rightarrow> StateDB" where
  "AddStakeBalance s addr amount blockNumber = update_object (\<lambda>ob. so_AddStakeBalance ob amount blockNumber) s addr"

definition SetPoint :: "StateDB \<Rightarrow> address \<Rightarrow> int \<Rightarrow> StateDB" where
  "SetPoint s addr amount = update_object (\<lambda>ob. so_SetPoint ob amount) s addr"

definition AddPoint :: "StateDB \<Rightarrow> address \<Rightarrow> int \<Rightarrow> StateDB" where
  "AddPoint s addr amount = update_object (\<lambda>ob. so_AddPoint ob amount) s addr"

definition AddBehindBalance :: "StateDB \<Rightarrow> address \<Rightarrow> int \<Rightarrow> int \<Rightarrow> StateDB" where
  "AddBehindBalance s addr number amount = update_object (\<lambda>ob. so_AddBehindBalance ob number amount) s addr"

definition RemoveFirstBehindBalance :: "StateDB \<Rightarrow> address \<Rightarrow> StateDB run" where
  "RemoveFirstBehindBalance s addr =
     (case getStateObject s addr of
        (None, s1) \<Rightarrow> Inr s1
      | (Some ob, s1) \<Rightarrow> bind_run (so_RemoveFirstBehindBalance ob) (\<lambda>ob1. Inr (write_object ob1 s1)))"

definition AddPenalty :: "StateDB \<Rightarrow> address \<Rightarrow> int \<Rightarrow> StateDB" where
  "AddPenalty s addr blockNumber = update_existing (\<lambda>ob. so_AddPenalty ob blockNumber) s addr"

definition RemovePenalty :: "StateDB \<Rightarrow> address \<Rightarrow> int \<Rightarrow> StateDB" where
  "RemovePenalty s addr blockNumber = update_existing (\<lambda>ob. so_RemovePenalty ob blockNumber) s addr"

definition Suicide :: "StateDB \<Rightarrow> address \<Rightarrow> bool \<times> StateDB" where
  "Suicide s addr =
     (case getStateObject s addr of
        (None, s1) \<Rightarrow> (False, s1)
      | (Some ob, s1) \<Rightarrow>
          (True, write_object (setBalance 0 (markSuicided ob))
                   (add_journal (SuicideChange addr (suicided ob) (Balance (so_data ob))) s1)))"

definition AddLog :: "StateDB \<Rightarrow> Log \<Rightarrow> StateDB" where
  "AddLog s l =
     (let s1 = add_journal (AddLogChange (thash s)) s;
          l1 = l\<lparr>log_TxHash := thash s, log_BlockHash := bhash s, log_TxIndex := word_of_int (txIndex s),
                 log_Index := logSize s\<rparr>
      in s1\<lparr>logs := (logs s1)(thash s \<mapsto> (case logs s1 (thash s) of None \<Rightarrow> [] | Some ls \<Rightarrow> ls) @ [l1]),
            logSize := logSize s1 + 1\<rparr>)"

definition AddPreimage :: "StateDB \<Rightarrow> hash \<Rightarrow> byte list \<Rightarrow> StateDB" where
  "AddPreimage s h preimage =
     (if preimages s h = None
      then (add_journal (AddPreimageChange h) s)\<lparr>preimages := (preimages s)(h \<mapsto> preimage)\<rparr>
      else s)"

definition AddRefund :: "StateDB \<Rightarrow> u64 \<Rightarrow> StateDB" where
  "AddRefund s gas = (add_journal (RefundChange (refund s)) s)\<lparr>refund := refund s + gas\<rparr>"

definition SubRefund :: "StateDB \<Rightarrow> u64 \<Rightarrow> StateDB run" where
  "SubRefund s gas =
     (if refund s < gas then Inl (Panicked ''Refund counter below zero'')
      else Inr ((add_journal (RefundChange (refund s)) s)\<lparr>refund := refund s - gas\<rparr>))"

subsection \<open>Snapshots\<close>

definition Snapshot :: "StateDB \<Rightarrow> int \<times> StateDB" where
  "Snapshot s =
     (nextRevisionId s,
      s\<lparr>nextRevisionId := nextRevisionId s + 1,
        validRevisions := validRevisions s @ [(nextRevisionId s, length (entries (jrnl s)))]\<rparr>)"

text \<open>Undoing an entry calls a setter on the object of the address: a missing object is a nil pointer.\<close>

definition on_object :: "address \<Rightarrow> (stateObject \<Rightarrow> stateObject) \<Rightarrow> StateDB \<Rightarrow> StateDB run" where
  "on_object a f s =
     (case getStateObject s a of
        (None, s1) \<Rightarrow> Inl NilDereference
      | (Some ob, s1) \<Rightarrow> Inr (write_object (f ob) s1))"

fun revert_entry :: "journalEntry \<Rightarrow> StateDB \<Rightarrow> StateDB run" where
  "revert_entry (CreateObjectChange a) s =
     Inr (s\<lparr>stateObjects := (stateObjects s)(a := None), stateObjectsDirty := stateObjectsDirty s - {a}\<rparr>)"
| "revert_entry (ResetObjectChange prev) s = Inr (setStateObject prev s)"
| "revert_entry (SuicideChange a prev prevbalance) s =
     (case getStateObject s a of
        (None, s1) \<Rightarrow> Inr s1
      | (Some ob, s1) \<Rightarrow> Inr (write_object (setBalance prevbalance (ob\<lparr>suicided := prev\<rparr>)) s1))"
| "revert_entry (TouchChange a) s = Inr s"
| "revert_entry (BalanceChange a prev) s = on_object a (setBalance prev) s"
| "revert_entry (NonceChange a prev) s = on_object a (setNonce prev) s"
| "revert_entry (CodeChange a prevcode prevhash) s = on_object a (setCode (BytesToHash prevhash) prevcode) s"
| "revert_entry (StorageChange a key prevalue) s = on_object a (setState key prevalue) s"
| "revert_entry (RefundChange prev) s = Inr (s\<lparr>refund := prev\<rparr>)"
| "revert_entry (AddLogChange txhash) s =
     (case logs s txhash of
        None \<Rightarrow> Inl (Panicked ''slice bounds out of range'')
      | Some [] \<Rightarrow> Inl (Panicked ''slice bounds out of range'')
      | Some ls \<Rightarrow>
          Inr (s\<lparr>logs := (logs s)(txhash := if length ls = 1 then None else Some (butlast ls)),
                 logSize := logSize s - 1\<rparr>))"
| "revert_entry (AddPreimageChange h) s = Inr (s\<lparr>preimages := (preimages s)(h := None)\<rparr>)"
| "revert_entry (StakingChange a prevBalance prevBlock) s = on_object a (setStaking prevBalance prevBlock) s"
| "revert_entry (PointChange a prev) s = on_object a (setPoint prev) s"
| "revert_entry (BehindChange a prev) s = on_object a (setBehind prev) s"
| "revert_entry (PenaltyChange a prevPenalty prevBlock) s = on_object a (setPenalty prevPenalty prevBlock) s"

text \<open>The entries to undo, the latest first.\<close>

fun revert_loop :: "journalEntry list \<Rightarrow> StateDB \<Rightarrow> StateDB run" where
  "revert_loop [] s = Inr s"
| "revert_loop (e # es) s =
     bind_run (revert_entry e s) (\<lambda>s1. revert_loop es (s1\<lparr>jrnl := journal_undirty e (jrnl s1)\<rparr>))"

definition journal_revert :: "StateDB \<Rightarrow> nat \<Rightarrow> StateDB run" where
  "journal_revert s snapshot =
     (if length (entries (jrnl s)) < snapshot then Inl (Panicked ''slice bounds out of range'')
      else bind_run (revert_loop (rev (drop snapshot (entries (jrnl s)))) s) (\<lambda>s1.
             Inr (s1\<lparr>jrnl := (jrnl s1)\<lparr>entries := take snapshot (entries (jrnl s1))\<rparr>\<rparr>)))"

text \<open>\<open>sort.Search\<close>: the binary search for the first index at which a predicate holds.\<close>

function sort_Search :: "(nat \<Rightarrow> bool) \<Rightarrow> nat \<Rightarrow> nat \<Rightarrow> nat" where
  "sort_Search f i j =
     (if i < j then
        (let h = (i + j) div 2 in if \<not> f h then sort_Search f (h + 1) j else sort_Search f i h)
      else i)"
  by pat_completeness auto
termination by (relation "measure (\<lambda>(f, i, j). j - i)") auto

declare sort_Search.simps [simp del]

definition RevertToSnapshot :: "StateDB \<Rightarrow> int \<Rightarrow> StateDB run" where
  "RevertToSnapshot s revid =
     (let rs = validRevisions s;
          idx = sort_Search (\<lambda>i. revid \<le> fst (rs ! i)) 0 (length rs)
      in if idx = length rs \<or> fst (rs ! idx) \<noteq> revid then Inl (Panicked ''revision id cannot be reverted'')
         else bind_run (journal_revert s (snd (rs ! idx))) (\<lambda>s1.
                Inr (s1\<lparr>validRevisions := take idx (validRevisions s1)\<rparr>)))"

subsection \<open>Finalising and committing\<close>

definition updateStateObject :: "StateDB \<Rightarrow> stateObject \<Rightarrow> StateDB run" where
  "updateStateObject s ob =
     (case EncodeToBytes (account_rlp (so_data ob)) of
        Inl err \<Rightarrow> Inl (Panicked ''can't encode object'')
      | Inr d \<Rightarrow>
          (case TryUpdate (strie s) (addr_bytes (so_address ob)) d of (err, tr) \<Rightarrow>
             Inr (setError err (s\<lparr>strie := tr\<rparr>))))"

definition deleteStateObject :: "StateDB \<Rightarrow> stateObject \<Rightarrow> StateDB" where
  "deleteStateObject s ob =
     (let s1 = write_object (ob\<lparr>deleted := True\<rparr>) s in
      case TryDelete (strie s1) (addr_bytes (so_address ob)) of (err, tr) \<Rightarrow> setError err (s1\<lparr>strie := tr\<rparr>))"

text \<open>The log line of \<open>Finalise\<close> reads the balance of the object before the check whether it exists.\<close>

fun Finalise_loop :: "(address \<Rightarrow> hash list) \<Rightarrow> bool \<Rightarrow> address list \<Rightarrow> StateDB \<Rightarrow> StateDB run" where
  "Finalise_loop keys deleteEmptyObjects [] s = Inr s"
| "Finalise_loop keys deleteEmptyObjects (addr # rest) s =
     (case stateObjects s addr of
        None \<Rightarrow> Inl NilDereference
      | Some ob \<Rightarrow>
          bind_run
            (if suicided ob \<or> (deleteEmptyObjects \<and> so_empty ob) then Inr (deleteStateObject s ob)
             else (let ob1 = updateRoot (sdb s) (keys addr) ob in updateStateObject (write_object ob1 s) ob1))
            (\<lambda>s1. Finalise_loop keys deleteEmptyObjects rest
                    (s1\<lparr>stateObjectsDirty := insert addr (stateObjectsDirty s1)\<rparr>)))"

definition Finalise :: "(address \<Rightarrow> hash list) \<Rightarrow> address list \<Rightarrow> bool \<Rightarrow> StateDB \<Rightarrow> StateDB run" where
  "Finalise keys ord deleteEmptyObjects s =
     bind_run (Finalise_loop keys deleteEmptyObjects ord s) (\<lambda>s1. Inr (clearJournalAndRefund s1))"

definition IntermediateRoot ::
  "(address \<Rightarrow> hash list) \<Rightarrow> address list \<Rightarrow> bool \<Rightarrow> StateDB \<Rightarrow> (hash \<times> StateDB) run" where
  "IntermediateRoot keys ord deleteEmptyObjects s =
     bind_run (Finalise keys ord deleteEmptyObjects s) (\<lambda>s1. Inr (TrieHash (sdb s1) (strie s1), s1))"

definition state_Prepare :: "StateDB \<Rightarrow> hash \<Rightarrow> hash \<Rightarrow> int \<Rightarrow> StateDB" where
  "state_Prepare s th bh ti = s\<lparr>thash := th, bhash := bh, txIndex := ti\<rparr>"

definition InsertBlob :: "hash \<Rightarrow> byte list \<Rightarrow> Database \<Rightarrow> Database" where
  "InsertBlob h c db = db\<lparr>ContractCode := (\<lambda>ah. (ContractCode db ah)(h := Inr c))\<rparr>"

fun Commit_loop ::
  "(address \<Rightarrow> hash list) \<Rightarrow> bool \<Rightarrow> address list \<Rightarrow> StateDB \<Rightarrow> (string option \<times> StateDB) run" where
  "Commit_loop keys deleteEmptyObjects [] s = Inr (None, s)"
| "Commit_loop keys deleteEmptyObjects (addr # rest) s =
     (case stateObjects s addr of
        None \<Rightarrow> Commit_loop keys deleteEmptyObjects rest s
      | Some ob \<Rightarrow>
          (let isDirty = addr \<in> stateObjectsDirty s;
               undirty = (\<lambda>s. s\<lparr>stateObjectsDirty := stateObjectsDirty s - {addr}\<rparr>) in
           if suicided ob \<or> (isDirty \<and> deleteEmptyObjects \<and> so_empty ob)
           then Commit_loop keys deleteEmptyObjects rest (undirty (deleteStateObject s ob))
           else if isDirty then
             (let (s1, ob1) = (if so_code ob \<noteq> None \<and> dirtyCode ob
                     then (s\<lparr>sdb := InsertBlob (BytesToHash (CodeHash (so_data ob))) (the (so_code ob)) (sdb s)\<rparr>,
                           ob\<lparr>dirtyCode := False\<rparr>)
                     else (s, ob))
              in case CommitTrie (sdb s1) (keys addr) ob1 of
                   (Some err, ob2) \<Rightarrow> Inr (Some err, write_object ob2 s1)
                 | (None, ob2) \<Rightarrow>
                     bind_run (updateStateObject (write_object ob2 s1) ob2) (\<lambda>s2.
                       Commit_loop keys deleteEmptyObjects rest (undirty s2)))
           else Commit_loop keys deleteEmptyObjects rest (undirty s)))"

definition Commit ::
  "(address \<Rightarrow> hash list) \<Rightarrow> address list \<Rightarrow> bool \<Rightarrow> StateDB \<Rightarrow> ((string + hash) \<times> StateDB) run" where
  "Commit keys ord deleteEmptyObjects s =
     bind_run
       (Commit_loop keys deleteEmptyObjects ord
          (s\<lparr>stateObjectsDirty := stateObjectsDirty s \<union> dom (dirties (jrnl s))\<rparr>))
       (\<lambda>(err, s1).
          (case err of
             Some e \<Rightarrow> Inr (Inl e, clearJournalAndRefund s1)
           | None \<Rightarrow> Inr (Inr (TrieHash (sdb s1) (strie s1)), clearJournalAndRefund s1)))"

text \<open>A copy holds the objects that are dirty in the journal or since the last commit; it has an empty
  journal and no snapshots, and starts without an error and a transaction. An address that is dirty
  since the last commit must have an object.\<close>

definition state_Copy :: "StateDB \<Rightarrow> StateDB run" where
  "state_Copy s =
     (if \<exists>a\<in>stateObjectsDirty s. stateObjects s a = None then Inl NilDereference
      else Inr
        \<lparr>sdb = sdb s, strie = strie s,
         stateObjects = (\<lambda>a. if a \<in> dom (dirties (jrnl s)) \<union> stateObjectsDirty s
                              then map_option deepCopy (stateObjects s a) else None),
         stateObjectsDirty = {a \<in> dom (dirties (jrnl s)) \<union> stateObjectsDirty s. stateObjects s a \<noteq> None},
         dbErr = None, refund = refund s, thash = 0, bhash = 0, txIndex = 0, logs = logs s, logSize = logSize s,
         preimages = preimages s, jrnl = newJournal, validRevisions = [], nextRevisionId = 0\<rparr>)"

end
