(* ===== verification/State_Revert.thy ===== *)
theory State_Revert
  imports State_DB
begin

text \<open>
  What a client sees of the state database, and that a snapshot restores it.

  \<open>abs_state\<close> is the abstract state: for every address what the getters return of the account, and the
  refund counter, the logs and the preimages. Caches, loaded objects and remembered errors are not in
  it. Undoing a journal entry refines an abstract undo, \<open>arevert\<close>, and every journaled operation writes
  entries whose abstract undo leads back.
\<close>

subsection \<open>The abstract state\<close>

primrec opt_or :: "'a option \<Rightarrow> 'a \<Rightarrow> 'a" where
  "opt_or None d = d"
| "opt_or (Some v) d = v"

primrec opt_alt :: "'a option \<Rightarrow> 'a option \<Rightarrow> 'a option" where
  "opt_alt None d = d"
| "opt_alt (Some v) d = Some v"

record oview =
  ov_data :: account
  ov_code :: "byte list option"
  ov_state :: "hash \<Rightarrow> hash"
  ov_committed :: "hash \<Rightarrow> hash"
  ov_suicided :: bool

record astate =
  av :: "address \<Rightarrow> oview option"
  a_refund :: u64
  a_logs :: "hash \<Rightarrow> Log list"
  a_logSize :: u64
  a_preimages :: "hash \<rightharpoonup> byte list"

definition objview :: "Database \<Rightarrow> stateObject \<Rightarrow> oview" where
  "objview db ob =
     \<lparr>ov_data = so_data ob, ov_code = fst (so_Code db ob), ov_state = (\<lambda>k. fst (so_GetState db ob k)),
      ov_committed = (\<lambda>k. fst (so_GetCommittedState db ob k)), ov_suicided = suicided ob\<rparr>"

definition load :: "trie \<Rightarrow> address \<Rightarrow> stateObject option" where
  "load tr a =
     (case tr (addr_bytes a) of
        Inl err \<Rightarrow> None
      | Inr enc \<Rightarrow>
          if enc = [] then None
          else (case DecodeBytes decodeAccount enc of Inl err \<Rightarrow> None | Inr d \<Rightarrow> Some (newObject a (raw_of d))))"

definition lookup :: "StateDB \<Rightarrow> address \<Rightarrow> stateObject option" where
  "lookup s a =
     (case stateObjects s a of Some ob \<Rightarrow> if deleted ob then None else Some ob | None \<Rightarrow> load (strie s) a)"

definition abs_state :: "StateDB \<Rightarrow> astate" where
  "abs_state s =
     \<lparr>av = (\<lambda>a. map_option (objview (sdb s)) (lookup s a)), a_refund = refund s, a_logs = (\<lambda>h. opt_or (logs s h) []),
      a_logSize = logSize s, a_preimages = preimages s\<rparr>"

text \<open>The invariant: an object is stored under its address, a deleted one is gone from the trie as well,
  and the code hashes have 32 bytes.\<close>

definition object_ok :: "stateObject \<Rightarrow> bool" where
  "object_ok ob \<longleftrightarrow> length (CodeHash (so_data ob)) = 32"

definition state_inv :: "StateDB \<Rightarrow> bool" where
  "state_inv s \<longleftrightarrow>
     (\<forall>a ob. stateObjects s a = Some ob \<longrightarrow> so_address ob = a \<and> object_ok ob \<and> (deleted ob \<longrightarrow> load (strie s) a = None))
     \<and> (\<forall>a ob. load (strie s) a = Some ob \<longrightarrow> object_ok ob)"

lemma newObject_simps [simp]:
  "so_address (newObject a d) = a" "deleted (newObject a d) = False"
  by (simp_all add: newObject_def Let_def)

lemma load_simps: "load tr a = Some ob \<Longrightarrow> so_address ob = a \<and> \<not> deleted ob"
  by (auto simp: load_def split: sum.splits if_splits)

lemma lookup_simps:
  "state_inv s \<Longrightarrow> lookup s a = Some ob \<Longrightarrow> so_address ob = a \<and> \<not> deleted ob \<and> object_ok ob"
  by (auto simp: lookup_def state_inv_def load_simps split: option.splits if_splits)

subsection \<open>Loading changes nothing\<close>

definition unseen :: "StateDB \<Rightarrow> StateDB \<Rightarrow> bool" where
  "unseen s t \<longleftrightarrow> sdb t = sdb s \<and> strie t = strie s \<and> abs_state t = abs_state s \<and> jrnl t = jrnl s
     \<and> validRevisions t = validRevisions s \<and> nextRevisionId t = nextRevisionId s \<and> state_inv t
     \<and> thash t = thash s \<and> bhash t = bhash s \<and> txIndex t = txIndex s"

lemma getStateObject_lookup:
  assumes "state_inv s"
  obtains t where "getStateObject s a = (lookup s a, t)" "unseen s t" "lookup t = lookup s"
    "\<And>ob. lookup s a = Some ob \<Longrightarrow> stateObjects t a = Some ob" "lookup s a = None \<Longrightarrow> stateObjects t = stateObjects s"
proof (cases "stateObjects s a = None \<and> load (strie s) a \<noteq> None")
  case True
  then obtain ob where ob: "load (strie s) a = Some ob" by blast
  have g: "getStateObject s a = (Some ob, setStateObject ob s)"
    using True ob by (auto simp: getStateObject_def load_def Let_def split: sum.splits if_splits)
  have l: "lookup (setStateObject ob s) = lookup s"
    using True ob load_simps [OF ob] by (auto simp: lookup_def setStateObject_def fun_eq_iff split: option.split)
  have "state_inv (setStateObject ob s)"
    using assms ob load_simps [OF ob] by (auto simp: state_inv_def setStateObject_def)
  then have "unseen s (setStateObject ob s)"
    using l by (simp add: unseen_def abs_state_def) (simp add: setStateObject_def)
  moreover have "lookup s a = Some ob" using True ob by (simp add: lookup_def)
  ultimately show ?thesis
    using that [OF _ \<open>unseen s (setStateObject ob s)\<close> l] g load_simps [OF ob] by (simp add: setStateObject_def)
next
  case False
  define t where "t = snd (getStateObject s a)"
  have t: "t = s \<or> (\<exists>e. t = setError e s)" and f: "fst (getStateObject s a) = lookup s a"
    using False unfolding t_def
    by (auto simp: getStateObject_def lookup_def load_def Let_def split: option.splits sum.splits if_splits)
  have e: "unseen s (setError e s)" "lookup (setError e s) = lookup s" "stateObjects (setError e s) = stateObjects s" for e
    using assms by (auto simp: unseen_def abs_state_def setError_def lookup_def state_inv_def fun_eq_iff split: option.split)
  have "unseen s s" using assms by (simp add: unseen_def)
  then have u: "unseen s t" "lookup t = lookup s" "stateObjects t = stateObjects s" using t e by metis+
  have "\<And>ob. lookup s a = Some ob \<Longrightarrow> stateObjects t a = Some ob"
    using False u(3) by (auto simp: lookup_def split: option.splits if_splits)
  with that u f show ?thesis unfolding t_def by (metis prod.collapse)
qed

subsection \<open>The observation of an object\<close>

definition code_load :: "Database \<Rightarrow> address \<Rightarrow> byte list \<Rightarrow> byte list option" where
  "code_load db a h =
     (if h = emptyCodeHash then None
      else (case ContractCode db (addrHash a) (BytesToHash h) of Inl err \<Rightarrow> None | Inr c \<Rightarrow> Some c))"

definition storage_trie :: "Database \<Rightarrow> address \<Rightarrow> hash \<Rightarrow> trie option \<Rightarrow> trie" where
  "storage_trie db a rt cache =
     opt_or cache
       (case OpenStorageTrie db (addrHash a) rt of
          Inr t \<Rightarrow> t
        | Inl err \<Rightarrow> (case OpenStorageTrie db (addrHash a) 0 of Inr t \<Rightarrow> t | Inl _ \<Rightarrow> (\<lambda>_. Inr [])))"

definition slot_value :: "trie \<Rightarrow> hash \<Rightarrow> hash" where
  "slot_value t key =
     (case t (hash_bytes key) of
        Inl err \<Rightarrow> 0
      | Inr enc \<Rightarrow> if enc = [] then 0 else (case Split enc of Inl err \<Rightarrow> 0 | Inr (k, content, rest) \<Rightarrow> BytesToHash content))"

lemma so_setError_simps [simp]:
  "so_address (so_setError e ob) = so_address ob" "so_data (so_setError e ob) = so_data ob"
  "so_trie (so_setError e ob) = so_trie ob" "so_code (so_setError e ob) = so_code ob"
  "originStorage (so_setError e ob) = originStorage ob" "dirtyStorage (so_setError e ob) = dirtyStorage ob"
  "suicided (so_setError e ob) = suicided ob" "deleted (so_setError e ob) = deleted ob"
  by (simp_all add: so_setError_def)

lemma getTrie_view:
  "fst (getTrie db ob) = storage_trie db (so_address ob) (Root (so_data ob)) (so_trie ob)"
  by (simp add: getTrie_def storage_trie_def Let_def split: option.split sum.split)

lemma getTrie_kept:
  "\<exists>e. snd (getTrie db ob) = ob \<or> snd (getTrie db ob) = so_setError e (ob\<lparr>so_trie := Some (fst (getTrie db ob))\<rparr>)"
proof -
  have "so_setError None ob' = ob'" for ob' by (simp add: so_setError_def)
  then show ?thesis unfolding getTrie_def Let_def by (auto split: option.split sum.split) metis+
qed

lemma committed_view:
  "fst (so_GetCommittedState db ob key) =
     opt_or (originStorage ob key) (slot_value (storage_trie db (so_address ob) (Root (so_data ob)) (so_trie ob)) key)"
  using getTrie_view [of db ob]
  by (auto simp: so_GetCommittedState_def slot_value_def Let_def split: option.split sum.split prod.split if_split)

lemma state_view:
  "fst (so_GetState db ob key) = opt_or (dirtyStorage ob key) (fst (so_GetCommittedState db ob key))"
  by (simp add: so_GetState_def split: option.split)

lemma code_view:
  "fst (so_Code db ob) = opt_alt (so_code ob) (code_load db (so_address ob) (CodeHash (so_data ob)))"
  by (simp add: so_Code_def code_load_def split: option.split sum.split)

lemmas objview_unfold = objview_def committed_view state_view code_view

lemma objview_setters [simp]:
  "objview db (setBalance x ob) = (objview db ob)\<lparr>ov_data := (so_data ob)\<lparr>Balance := x\<rparr>\<rparr>"
  "objview db (setNonce n ob) = (objview db ob)\<lparr>ov_data := (so_data ob)\<lparr>Nonce := n\<rparr>\<rparr>"
  "objview db (setStaking x y ob) = (objview db ob)\<lparr>ov_data := (so_data ob)\<lparr>StakeBalance := x, StakeUpdated := y\<rparr>\<rparr>"
  "objview db (setPoint x ob) = (objview db ob)\<lparr>ov_data := (so_data ob)\<lparr>Point := x\<rparr>\<rparr>"
  "objview db (setBehind bs ob) = (objview db ob)\<lparr>ov_data := (so_data ob)\<lparr>BehindBalance := bs\<rparr>\<rparr>"
  "objview db (setPenalty n x ob) = (objview db ob)\<lparr>ov_data := (so_data ob)\<lparr>Penalty := n, PenlatyUpdated := x\<rparr>\<rparr>"
  "objview db (ob\<lparr>suicided := b\<rparr>) = (objview db ob)\<lparr>ov_suicided := b\<rparr>"
  by (simp_all add: objview_unfold setBalance_def setNonce_def setStaking_def setPoint_def setBehind_def setPenalty_def)

lemma objview_setState [simp]:
  "objview db (setState k v ob) = (objview db ob)\<lparr>ov_state := (ov_state (objview db ob))(k := v)\<rparr>"
  by (auto simp: objview_unfold setState_def fun_eq_iff)

lemma objview_setCode [simp]:
  "objview db (setCode h c ob) = (objview db ob)\<lparr>ov_data := (so_data ob)\<lparr>CodeHash := hash_bytes h\<rparr>,
     ov_code := opt_alt c (code_load db (so_address ob) (hash_bytes h))\<rparr>"
  by (simp add: objview_unfold setCode_def)

lemma objview_data [simp]:
  "ov_data (objview db ob) = so_data ob" "(objview db ob)\<lparr>ov_data := so_data ob\<rparr> = objview db ob"
  by (simp_all add: objview_def)

lemma object_setters [simp]:
  "so_address (setBalance x ob) = so_address ob" "so_address (setNonce n ob) = so_address ob"
  "so_address (setStaking x y ob) = so_address ob" "so_address (setPoint x ob) = so_address ob"
  "so_address (setBehind bs ob) = so_address ob" "so_address (setPenalty n x ob) = so_address ob"
  "so_address (setState k v ob) = so_address ob" "so_address (setCode h c ob) = so_address ob"
  "deleted (setBalance x ob) = deleted ob" "deleted (setNonce n ob) = deleted ob"
  "deleted (setStaking x y ob) = deleted ob" "deleted (setPoint x ob) = deleted ob"
  "deleted (setBehind bs ob) = deleted ob" "deleted (setPenalty n x ob) = deleted ob"
  "deleted (setState k v ob) = deleted ob" "deleted (setCode h c ob) = deleted ob"
  "object_ok (setBalance x ob) = object_ok ob" "object_ok (setNonce n ob) = object_ok ob"
  "object_ok (setStaking x y ob) = object_ok ob" "object_ok (setPoint x ob) = object_ok ob"
  "object_ok (setBehind bs ob) = object_ok ob" "object_ok (setPenalty n x ob) = object_ok ob"
  "object_ok (setState k v ob) = object_ok ob" "object_ok (setCode h c ob)"
  "object_ok (ob\<lparr>suicided := b\<rparr>) = object_ok ob"
  by (simp_all add: setBalance_def setNonce_def setStaking_def setPoint_def setBehind_def setPenalty_def
      setState_def setCode_def object_ok_def)

text \<open>Reading code and storage fills caches, which no observation sees.\<close>

definition cached :: "Database \<Rightarrow> stateObject \<Rightarrow> stateObject \<Rightarrow> bool" where
  "cached db ob ob1 \<longleftrightarrow> objview db ob1 = objview db ob \<and> so_data ob1 = so_data ob \<and> so_address ob1 = so_address ob
     \<and> deleted ob1 = deleted ob"

lemma so_Code_cached: "cached db ob (snd (so_Code db ob))"
  by (auto simp: cached_def so_Code_def objview_unfold code_load_def split: option.split sum.split)

lemma storage_trie_Some [simp]: "storage_trie db a rt (Some t) = t"
  by (simp add: storage_trie_def)

lemma cached_refl [simp]: "cached db ob ob"
  by (simp add: cached_def)

lemma cached_trans: "cached db ob ob1 \<Longrightarrow> cached db ob1 ob2 \<Longrightarrow> cached db ob ob2"
  by (simp add: cached_def)

lemma cached_setError: "cached db ob (so_setError e ob)"
  by (simp add: cached_def objview_unfold)

lemma cached_trie: "cached db ob (ob\<lparr>so_trie := Some (fst (getTrie db ob))\<rparr>)"
  by (simp add: cached_def objview_unfold getTrie_view)

lemma cached_origin:
  "cached db ob (ob\<lparr>originStorage := (originStorage ob)(key \<mapsto> fst (so_GetCommittedState db ob key))\<rparr>)"
  by (auto simp: cached_def objview_unfold fun_eq_iff)

lemma getTrie_cached: "cached db ob (snd (getTrie db ob))" "originStorage (snd (getTrie db ob)) = originStorage ob"
proof -
  obtain e where "snd (getTrie db ob) = ob \<or> snd (getTrie db ob) = so_setError e (ob\<lparr>so_trie := Some (fst (getTrie db ob))\<rparr>)"
    using getTrie_kept by blast
  then show "cached db ob (snd (getTrie db ob))" "originStorage (snd (getTrie db ob)) = originStorage ob"
    using cached_trans [OF cached_trie cached_setError] by auto
qed

lemma so_GetCommittedState_cached: "cached db ob (snd (so_GetCommittedState db ob key))"
proof (cases "originStorage ob key")
  case None
  define o1 where "o1 = snd (getTrie db ob)"
  note o1 = getTrie_cached [of db ob, folded o1_def]
  let ?v = "fst (so_GetCommittedState db ob key)"
  have t: "getTrie db ob = (fst (getTrie db ob), o1)" by (simp add: o1_def)
  have v: "fst (so_GetCommittedState db oc key) = ?v" if "cached db ob oc" for oc
    using that by (simp add: cached_def objview_def fun_eq_iff)
  have "\<exists>e. snd (so_GetCommittedState db ob key) \<in> {so_setError e o1,
      o1\<lparr>originStorage := (originStorage o1)(key \<mapsto> ?v)\<rparr>,
      (so_setError e o1)\<lparr>originStorage := (originStorage (so_setError e o1))(key \<mapsto> ?v)\<rparr>}"
    using None unfolding so_GetCommittedState_def
    by (subst (1 2 3) t) (auto simp: Let_def split: sum.split prod.split if_split)
  moreover have "cached db ob (so_setError e o1)" for e
    using cached_trans [OF o1(1) cached_setError] .
  moreover have "cached db ob (oc\<lparr>originStorage := (originStorage oc)(key \<mapsto> ?v)\<rparr>)" if "cached db ob oc" for oc
    using cached_trans [OF that cached_origin [of db oc key]] v [OF that] by simp
  ultimately show ?thesis using o1(1) by (auto simp del: so_setError_simps)
qed (simp add: so_GetCommittedState_def)

lemma so_GetState_cached: "cached db ob (snd (so_GetState db ob key))"
  using so_GetCommittedState_cached by (auto simp: so_GetState_def split: option.split)

subsection \<open>Abstract undo\<close>

definition on_view :: "address \<Rightarrow> (oview \<Rightarrow> oview) \<Rightarrow> astate \<Rightarrow> astate option" where
  "on_view a f A = map_option (\<lambda>v. A\<lparr>av := (av A)(a \<mapsto> f v)\<rparr>) (av A a)"

definition upd_data :: "(account \<Rightarrow> account) \<Rightarrow> oview \<Rightarrow> oview" where
  "upd_data f v = v\<lparr>ov_data := f (ov_data v)\<rparr>"

fun arevert :: "Database \<Rightarrow> journalEntry \<Rightarrow> astate \<Rightarrow> astate option" where
  "arevert db (CreateObjectChange a) A = Some (A\<lparr>av := (av A)(a := None)\<rparr>)"
| "arevert db (ResetObjectChange p) A = Some (A\<lparr>av := (av A)(so_address p \<mapsto> objview db p)\<rparr>)"
| "arevert db (SuicideChange a b x) A = on_view a (\<lambda>v. (upd_data (\<lambda>d. d\<lparr>Balance := x\<rparr>) v)\<lparr>ov_suicided := b\<rparr>) A"
| "arevert db (TouchChange a) A = Some A"
| "arevert db (BalanceChange a x) A = on_view a (upd_data (\<lambda>d. d\<lparr>Balance := x\<rparr>)) A"
| "arevert db (NonceChange a n) A = on_view a (upd_data (\<lambda>d. d\<lparr>Nonce := n\<rparr>)) A"
| "arevert db (CodeChange a c h) A =
     on_view a (\<lambda>v. (upd_data (\<lambda>d. d\<lparr>CodeHash := h\<rparr>) v)\<lparr>ov_code := opt_alt c (code_load db a h)\<rparr>) A"
| "arevert db (StorageChange a k x) A = on_view a (\<lambda>v. v\<lparr>ov_state := (ov_state v)(k := x)\<rparr>) A"
| "arevert db (RefundChange g) A = Some (A\<lparr>a_refund := g\<rparr>)"
| "arevert db (AddLogChange h) A =
     (if a_logs A h = [] then None
      else Some (A\<lparr>a_logs := (a_logs A)(h := butlast (a_logs A h)), a_logSize := a_logSize A - 1\<rparr>))"
| "arevert db (AddPreimageChange h) A = Some (A\<lparr>a_preimages := (a_preimages A)(h := None)\<rparr>)"
| "arevert db (StakingChange a x y) A = on_view a (upd_data (\<lambda>d. d\<lparr>StakeBalance := x, StakeUpdated := y\<rparr>)) A"
| "arevert db (PointChange a x) A = on_view a (upd_data (\<lambda>d. d\<lparr>Point := x\<rparr>)) A"
| "arevert db (BehindChange a bs) A = on_view a (upd_data (\<lambda>d. d\<lparr>BehindBalance := bs\<rparr>)) A"
| "arevert db (PenaltyChange a n x) A = on_view a (upd_data (\<lambda>d. d\<lparr>Penalty := n, PenlatyUpdated := x\<rparr>)) A"

fun arevert_list :: "Database \<Rightarrow> journalEntry list \<Rightarrow> astate \<Rightarrow> astate option" where
  "arevert_list db [] A = Some A"
| "arevert_list db (e # es) A = Option.bind (arevert db e A) (arevert_list db es)"

lemma arevert_list_append:
  "arevert_list db (es @ fs) A = Option.bind (arevert_list db es A) (arevert_list db fs)"
  by (induction es arbitrary: A) (auto simp: Option.bind_eq_Some_conv split: Option.bind_split)

text \<open>What an entry must satisfy to be undone faithfully.\<close>

fun entry_ok :: "trie \<Rightarrow> journalEntry \<Rightarrow> bool" where
  "entry_ok tr (CreateObjectChange a) \<longleftrightarrow> load tr a = None"
| "entry_ok tr (ResetObjectChange p) \<longleftrightarrow> \<not> deleted p \<and> object_ok p"
| "entry_ok tr (CodeChange a c h) \<longleftrightarrow> length h = 32"
| "entry_ok tr e \<longleftrightarrow> True"

lemma lookup_setStateObject:
  "lookup (setStateObject ob s) a = (if a = so_address ob then (if deleted ob then None else Some ob) else lookup s a)"
  by (simp add: lookup_def setStateObject_def split: option.split)

lemma abs_setStateObject:
  "\<not> deleted ob \<Longrightarrow>
    abs_state (setStateObject ob s) = (abs_state s)\<lparr>av := (av (abs_state s))(so_address ob \<mapsto> objview (sdb s) ob)\<rparr>"
  by (auto simp: abs_state_def lookup_setStateObject fun_eq_iff) (simp_all add: setStateObject_def)

lemma setStateObject_simps [simp]:
  "sdb (setStateObject ob s) = sdb s" "strie (setStateObject ob s) = strie s" "jrnl (setStateObject ob s) = jrnl s"
  "validRevisions (setStateObject ob s) = validRevisions s" "nextRevisionId (setStateObject ob s) = nextRevisionId s"
  "stateObjects (setStateObject ob s) = (stateObjects s)(so_address ob \<mapsto> ob)"
  "logs (setStateObject ob s) = logs s"
  by (simp_all add: setStateObject_def)

lemma state_inv_setStateObject:
  "state_inv s \<Longrightarrow> \<not> deleted ob \<Longrightarrow> object_ok ob \<Longrightarrow> state_inv (setStateObject ob s)"
  by (auto simp: state_inv_def)

definition same_base :: "StateDB \<Rightarrow> StateDB \<Rightarrow> bool" where
  "same_base s t \<longleftrightarrow> sdb t = sdb s \<and> strie t = strie s \<and> validRevisions t = validRevisions s
     \<and> nextRevisionId t = nextRevisionId s"

lemma same_base_updates [simp]:
  "same_base s s" "same_base s (s\<lparr>refund := g\<rparr>)" "same_base s (s\<lparr>logs := l, logSize := n\<rparr>)"
  "same_base s (s\<lparr>preimages := p\<rparr>)" "same_base s (s\<lparr>jrnl := j\<rparr>)" "same_base s (setStateObject ob s)"
  by (simp_all add: same_base_def)

lemma on_object_refines:
  assumes s: "state_inv s" and A: "on_view a f (abs_state s) = Some A"
    and g: "\<And>ob. lookup s a = Some ob \<Longrightarrow> objview (sdb s) (g ob) = f (objview (sdb s) ob) \<and> so_address (g ob) = so_address ob
      \<and> \<not> deleted (g ob) \<and> object_ok (g ob)"
  shows "\<exists>ob s1. getStateObject s a = (Some ob, s1)
    \<and> abs_state (write_object (g ob) s1) = A \<and> state_inv (write_object (g ob) s1)
    \<and> same_base s (write_object (g ob) s1) \<and> jrnl s1 = jrnl s"
proof -
  from s obtain t where t: "getStateObject s a = (lookup s a, t)" "unseen s t" by (rule getStateObject_lookup) blast
  from A obtain ob where ob: "lookup s a = Some ob"
    and A': "A = (abs_state s)\<lparr>av := (av (abs_state s))(a \<mapsto> f (objview (sdb s) ob))\<rparr>"
    by (auto simp: on_view_def abs_state_def)
  note l = lookup_simps [OF s ob] and g' = g [OF ob]
  have "abs_state (write_object (g ob) t) = A"
    using t(2) l g' A' by (simp add: abs_setStateObject unseen_def)
  moreover have "state_inv (write_object (g ob) t)"
    using t(2) g' by (intro state_inv_setStateObject) (auto simp: unseen_def)
  moreover have "same_base s (write_object (g ob) t)" "jrnl t = jrnl s"
    using t(2) by (simp_all add: same_base_def unseen_def)
  ultimately show ?thesis using t(1) ob by auto
qed

lemma abs_state_updates:
  "abs_state (s\<lparr>refund := g\<rparr>) = (abs_state s)\<lparr>a_refund := g\<rparr>"
  "abs_state (s\<lparr>logs := l, logSize := n\<rparr>) = (abs_state s)\<lparr>a_logs := (\<lambda>h. opt_or (l h) []), a_logSize := n\<rparr>"
  "abs_state (s\<lparr>preimages := p\<rparr>) = (abs_state s)\<lparr>a_preimages := p\<rparr>"
  "abs_state (s\<lparr>jrnl := j\<rparr>) = abs_state s"
  "abs_state (s\<lparr>validRevisions := r\<rparr>) = abs_state s"
  "abs_state (s\<lparr>nextRevisionId := i\<rparr>) = abs_state s"
  by (auto simp: abs_state_def lookup_def fun_eq_iff split: option.split)

lemma abs_state_fields [simp]:
  "a_refund (abs_state s) = refund s" "a_logs (abs_state s) = (\<lambda>h. opt_or (logs s h) [])" "a_logSize (abs_state s) = logSize s"
  "a_preimages (abs_state s) = preimages s"
  by (simp_all add: abs_state_def)

lemma state_inv_updates:
  "state_inv (s\<lparr>refund := g\<rparr>) = state_inv s" "state_inv (s\<lparr>logs := l, logSize := n\<rparr>) = state_inv s"
  "state_inv (s\<lparr>preimages := p\<rparr>) = state_inv s" "state_inv (s\<lparr>jrnl := j\<rparr>) = state_inv s"
  "state_inv (s\<lparr>validRevisions := r\<rparr>) = state_inv s" "state_inv (s\<lparr>nextRevisionId := i\<rparr>) = state_inv s"
  by (simp_all add: state_inv_def)

lemma on_object_revert:
  assumes "on_view a f (abs_state s) = Some A" "state_inv s"
    and "\<And>ob. object_ok ob \<Longrightarrow> so_address ob = a \<Longrightarrow> objview (sdb s) (g ob) = f (objview (sdb s) ob) \<and> so_address (g ob) = so_address ob
      \<and> deleted (g ob) = deleted ob \<and> object_ok (g ob)"
  shows "\<exists>t. on_object a g s = Inr t \<and> abs_state t = A \<and> state_inv t \<and> same_base s t \<and> jrnl t = jrnl s"
proof -
  have "lookup s a = Some ob \<Longrightarrow> objview (sdb s) (g ob) = f (objview (sdb s) ob) \<and> so_address (g ob) = so_address ob
      \<and> \<not> deleted (g ob) \<and> object_ok (g ob)" for ob
    using assms(3) lookup_simps [OF assms(2)] by blast
  from on_object_refines [OF assms(2,1) this] show ?thesis by (auto simp: on_object_def)
qed

lemma abs_remove_object:
  assumes "load (strie s) a = None"
  shows "abs_state (s\<lparr>stateObjects := (stateObjects s)(a := None), stateObjectsDirty := d\<rparr>)
    = (abs_state s)\<lparr>av := (av (abs_state s))(a := None)\<rparr>"
  using assms by (auto simp: abs_state_def lookup_def fun_eq_iff split: option.split)

lemma revert_refines:
  assumes "arevert (sdb s) e (abs_state s) = Some A" "state_inv s" "entry_ok (strie s) e"
  shows "\<exists>t. revert_entry e s = Inr t \<and> abs_state t = A \<and> state_inv t \<and> same_base s t \<and> jrnl t = jrnl s"
proof (cases e)
  case (CreateObjectChange a)
  with assms show ?thesis by (auto simp: abs_remove_object same_base_def state_inv_def)
next
  case (ResetObjectChange p)
  with assms show ?thesis by (auto simp: abs_setStateObject state_inv_setStateObject same_base_def)
next
  case (SuicideChange a b x)
  have "\<exists>ob s1. getStateObject s a = (Some ob, s1)
    \<and> abs_state (write_object (setBalance x (ob\<lparr>suicided := b\<rparr>)) s1) = A
    \<and> state_inv (write_object (setBalance x (ob\<lparr>suicided := b\<rparr>)) s1)
    \<and> same_base s (write_object (setBalance x (ob\<lparr>suicided := b\<rparr>)) s1) \<and> jrnl s1 = jrnl s"
    using assms(1) SuicideChange lookup_simps [OF assms(2), of a]
    by (intro on_object_refines [OF assms(2)]) (auto simp: upd_data_def)
  with SuicideChange show ?thesis by auto
next
  case (AddLogChange h)
  with assms(1,2) show ?thesis
    by (cases "logs s h"; cases "the (logs s h)")
      (auto simp: abs_state_updates state_inv_updates same_base_def fun_eq_iff intro!: astate.equality)
next
  case (CodeChange a c h)
  with assms(3) have "hash_bytes (BytesToHash h) = h" by (simp add: hash_bytes_BytesToHash)
  with assms CodeChange show ?thesis by (auto simp: upd_data_def intro!: on_object_revert)
qed (use assms in \<open>auto simp: upd_data_def abs_state_updates state_inv_updates intro!: on_object_revert\<close>)

lemma revert_loop_refines:
  assumes "arevert_list (sdb s) es (abs_state s) = Some A" "state_inv s" "\<forall>e\<in>set es. entry_ok (strie s) e"
  shows "\<exists>t. revert_loop es s = Inr t \<and> abs_state t = A \<and> state_inv t \<and> same_base s t \<and> entries (jrnl t) = entries (jrnl s)"
  using assms
proof (induction es arbitrary: s)
  case (Cons e es)
  from Cons.prems obtain A1 where A1: "arevert (sdb s) e (abs_state s) = Some A1" "arevert_list (sdb s) es A1 = Some A"
    by (auto simp: Option.bind_eq_Some_conv)
  from revert_refines [OF A1(1)] Cons.prems obtain t where t: "revert_entry e s = Inr t" "abs_state t = A1"
    "state_inv t" "same_base s t" "jrnl t = jrnl s" by auto
  let ?t = "t\<lparr>jrnl := journal_undirty e (jrnl t)\<rparr>"
  have "entries (jrnl ?t) = entries (jrnl s)"
    using t(5) by (simp add: journal_undirty_def Let_def split: option.split)
  moreover have "\<exists>u. revert_loop es ?t = Inr u \<and> abs_state u = A \<and> state_inv u \<and> same_base ?t u
      \<and> entries (jrnl u) = entries (jrnl ?t)"
    using t A1(2) Cons.prems by (intro Cons.IH) (auto simp: abs_state_updates state_inv_updates same_base_def)
  ultimately show ?case using t by (auto simp: same_base_def)
qed (simp add: same_base_def)

subsection \<open>Journaled operations\<close>

text \<open>A step writes entries that lead back.\<close>

definition undoable :: "StateDB \<Rightarrow> StateDB \<Rightarrow> bool" where
  "undoable s t \<longleftrightarrow> state_inv t \<and> same_base s t \<and>
     (\<exists>es. entries (jrnl t) = entries (jrnl s) @ es \<and> (\<forall>e\<in>set es. entry_ok (strie s) e)
       \<and> arevert_list (sdb s) (rev es) (abs_state t) = Some (abs_state s))"

lemma undoable_unseen: "unseen s t \<Longrightarrow> undoable s t"
  by (auto simp: undoable_def unseen_def same_base_def intro!: exI [of _ "[]"])

lemma undoable_inv: "undoable s t \<Longrightarrow> state_inv t"
  by (simp add: undoable_def)

lemma undoable_trans [trans]: "undoable s t \<Longrightarrow> undoable t u \<Longrightarrow> undoable s u"
proof -
  assume "undoable s t" "undoable t u"
  then obtain es fs where "entries (jrnl t) = entries (jrnl s) @ es" "\<forall>e\<in>set es. entry_ok (strie s) e"
    "arevert_list (sdb s) (rev es) (abs_state t) = Some (abs_state s)"
    "entries (jrnl u) = entries (jrnl t) @ fs" "\<forall>e\<in>set fs. entry_ok (strie s) e"
    "arevert_list (sdb s) (rev fs) (abs_state u) = Some (abs_state t)" "state_inv u" "same_base s u"
    by (auto simp: undoable_def same_base_def)
  then show "undoable s u"
    by (auto simp: undoable_def arevert_list_append intro!: exI [of _ "es @ fs"])
qed

lemma journal_append_entries [simp]: "entries (journal_append e j) = entries j @ [e]"
  by (simp add: journal_append_def journal_dirty_def Let_def split: option.split)

lemma undoable_entry:
  assumes "state_inv t" "same_base s t" "entries (jrnl t) = entries (jrnl s) @ [e]" "entry_ok (strie s) e"
    "arevert (sdb s) e (abs_state t) = Some (abs_state s)"
  shows "undoable s t"
  using assms by (auto simp: undoable_def intro!: exI [of _ "[e]"])

lemma add_journal_simps [simp]:
  "sdb (add_journal e s) = sdb s" "strie (add_journal e s) = strie s"
  "validRevisions (add_journal e s) = validRevisions s" "nextRevisionId (add_journal e s) = nextRevisionId s"
  "stateObjects (add_journal e s) = stateObjects s" "abs_state (add_journal e s) = abs_state s"
  "state_inv (add_journal e s) = state_inv s" "jrnl (add_journal e s) = journal_append e (jrnl s)"
  by (simp_all add: add_journal_def abs_state_updates state_inv_updates)

lemma astate_same_view:
  "av A a = Some v \<Longrightarrow> A\<lparr>av := (av A)(a \<mapsto> v)\<rparr> = A"
  by (simp add: fun_upd_idem)

lemma undoable_write:
  assumes "state_inv s" "lookup s a = Some ob" "so_address ob1 = a" "\<not> deleted ob1" "object_ok ob1" "entry_ok (strie s) e"
    and "\<And>A. arevert (sdb s) e (A\<lparr>av := (av A)(a \<mapsto> objview (sdb s) ob1)\<rparr>)
      = Some (A\<lparr>av := (av A)(a \<mapsto> objview (sdb s) ob)\<rparr>)"
  shows "undoable s (write_object ob1 (add_journal e s))"
proof (rule undoable_entry [where e = e])
  have "av (abs_state s) a = Some (objview (sdb s) ob)" using assms(2) by (simp add: abs_state_def)
  then show "arevert (sdb s) e (abs_state (write_object ob1 (add_journal e s))) = Some (abs_state s)"
    using assms by (simp add: abs_setStateObject fun_upd_idem)
qed (use assms in \<open>simp_all add: state_inv_setStateObject same_base_def\<close>)

lemma undoable_cached:
  assumes "state_inv s" "lookup s a = Some ob" "cached (sdb s) ob ob1"
  shows "undoable s (write_object ob1 s)"
proof (rule undoable_unseen)
  note l = lookup_simps [OF assms(1,2)]
  have ob1: "so_address ob1 = a" "\<not> deleted ob1" "object_ok ob1" using assms(3) l by (auto simp: cached_def object_ok_def)
  have "av (abs_state s) a = Some (objview (sdb s) ob1)" using assms(2,3) by (simp add: abs_state_def cached_def)
  then have "abs_state (write_object ob1 s) = abs_state s"
    using ob1 by (simp add: abs_setStateObject fun_upd_idem)
  then show "unseen s (write_object ob1 s)"
    using ob1 assms(1) by (simp add: unseen_def state_inv_setStateObject) (simp add: setStateObject_def)
qed

lemma newObject_zero: "object_ok (newObject a zero_Account)" "suicided (newObject a d) = False"
  by (simp_all add: object_ok_def newObject_def zero_Account_def Let_def emptyCodeHash_def length_keccak256)

lemma undoable_create:
  assumes "state_inv s" "load (strie s) a = None" "lookup s a = None" "so_address ob = a" "\<not> deleted ob" "object_ok ob"
  shows "undoable s (setStateObject ob (add_journal (CreateObjectChange a) s))"
proof (rule undoable_entry [where e = "CreateObjectChange a"])
  have "av (abs_state s) a = None" using assms(3) by (simp add: abs_state_def)
  then show "arevert (sdb s) (CreateObjectChange a)
      (abs_state (setStateObject ob (add_journal (CreateObjectChange a) s))) = Some (abs_state s)"
    using assms by (simp add: abs_setStateObject fun_upd_idem)
qed (use assms in \<open>simp_all add: state_inv_setStateObject same_base_def\<close>)

lemma undoable_reset:
  assumes "state_inv s" "lookup s a = Some p" "so_address ob = a" "\<not> deleted ob" "object_ok ob"
  shows "undoable s (setStateObject ob (add_journal (ResetObjectChange p) s))"
proof (rule undoable_entry [where e = "ResetObjectChange p"])
  have "av (abs_state s) a = Some (objview (sdb s) p)" using assms(2) by (simp add: abs_state_def)
  then show "arevert (sdb s) (ResetObjectChange p)
      (abs_state (setStateObject ob (add_journal (ResetObjectChange p) s))) = Some (abs_state s)"
    using assms lookup_simps [OF assms(1,2)] by (simp add: abs_setStateObject fun_upd_idem)
qed (use assms lookup_simps [OF assms(1,2)] in \<open>simp_all add: state_inv_setStateObject same_base_def\<close>)

lemma lookup_None_load: "state_inv s \<Longrightarrow> lookup s a = None \<Longrightarrow> load (strie s) a = None"
  by (auto simp: lookup_def state_inv_def split: option.splits if_splits)

lemma createObject_undoable:
  assumes "state_inv s"
  obtains nob t where "createObject s a = ((nob, lookup s a), t)" "undoable s t" "lookup t a = Some nob"
    "\<And>ob. so_address ob = a \<Longrightarrow> \<not> deleted ob \<Longrightarrow> object_ok ob \<Longrightarrow> undoable s (setStateObject ob t)"
    "so_address nob = a" "\<not> deleted nob" "object_ok nob"
proof -
  obtain t where t: "getStateObject s a = (lookup s a, t)" "unseen s t" "lookup t = lookup s"
    using getStateObject_lookup [OF assms] by metis
  let ?n = "setNonce 0 (newObject a zero_Account)"
  let ?e = "case lookup s a of None \<Rightarrow> CreateObjectChange a | Some p \<Rightarrow> ResetObjectChange p"
  let ?t = "setStateObject ?n (add_journal ?e t)"
  have c: "createObject s a = ((?n, lookup s a), ?t)"
    using t(1) by (simp add: createObject_def Let_def split: option.split)
  have inv: "state_inv t" and u: "undoable s t" using t(2) by (auto simp: unseen_def undoable_unseen)
  have ob: "undoable t (setStateObject ob (add_journal ?e t))"
    if "so_address ob = a" "\<not> deleted ob" "object_ok ob" for ob
  proof (cases "lookup s a")
    case None
    with lookup_None_load [OF inv, of a] t(3) that show ?thesis by (auto intro!: undoable_create [OF inv])
  next
    case (Some p)
    with t(3) that show ?thesis by (auto intro!: undoable_reset [OF inv])
  qed
  have "undoable s ?t" using undoable_trans [OF u ob] newObject_zero(1) by simp
  moreover have "undoable s (setStateObject ob ?t)" if "so_address ob = a" "\<not> deleted ob" "object_ok ob" for ob
    using undoable_trans [OF u ob [OF that]] that(1) by (simp add: setStateObject_def fun_upd_upd)
  moreover have "lookup ?t a = Some ?n" by (simp add: lookup_setStateObject)
  ultimately show ?thesis using newObject_zero(1) by (intro that [OF c]) simp_all
qed

lemma GetOrNew_undoable:
  assumes "state_inv s"
  obtains ob t where "GetOrNewStateObject s a = (ob, t)" "undoable s t" "lookup t a = Some ob"
proof -
  obtain t where t: "getStateObject s a = (lookup s a, t)" "unseen s t" "lookup t = lookup s"
    using getStateObject_lookup [OF assms] by metis
  have inv: "state_inv t" and u: "undoable s t" using t(2) by (auto simp: unseen_def undoable_unseen)
  show ?thesis
  proof (cases "lookup s a")
    case None
    from createObject_undoable [OF inv, of a] obtain nob v where
      "createObject t a = ((nob, lookup t a), v)" "undoable t v" "lookup v a = Some nob" by metis
    with that [of nob v] t(1) None undoable_trans [OF u] show ?thesis by (simp add: GetOrNewStateObject_def)
  next
    case (Some ob)
    with that [of ob t] t u lookup_simps [OF assms Some] show ?thesis by (simp add: GetOrNewStateObject_def)
  qed
qed

lemma update_object_undoable:
  assumes "state_inv s" "\<And>t ob. state_inv t \<Longrightarrow> lookup t a = Some ob \<Longrightarrow> undoable t (f ob t)"
  shows "undoable s (update_object f s a)"
proof -
  obtain ob t where "GetOrNewStateObject s a = (ob, t)" "undoable s t" "lookup t a = Some ob"
    using GetOrNew_undoable [OF assms(1)] by metis
  with assms(2) [of t ob] show ?thesis
    using undoable_inv [of s t] by (auto simp: update_object_def intro: undoable_trans)
qed

lemma update_existing_undoable:
  assumes "state_inv s" "\<And>t ob. state_inv t \<Longrightarrow> lookup t a = Some ob \<Longrightarrow> undoable t (f ob t)"
  shows "undoable s (update_existing f s a)"
proof -
  obtain t where t: "getStateObject s a = (lookup s a, t)" "unseen s t" "lookup t = lookup s"
    using getStateObject_lookup [OF assms(1)] by metis
  then have "state_inv t" "undoable s t" by (auto simp: unseen_def undoable_unseen)
  with t assms(2) [of t] show ?thesis
    by (cases "lookup s a") (auto simp: update_existing_def intro: undoable_trans)
qed

subsection \<open>The operations of the state interface\<close>

lemma so_SetBalance_undoable: "state_inv s \<Longrightarrow> lookup s a = Some ob \<Longrightarrow> undoable s (so_SetBalance ob x s)"
  unfolding so_SetBalance_def
  by (rule undoable_write [where a = a]) (auto dest: lookup_simps simp: upd_data_def on_view_def intro!: oview.equality)

lemma touch_undoable: "state_inv s \<Longrightarrow> undoable s (touch ob s)"
  by (rule undoable_entry [where e = "TouchChange (so_address ob)"])
    (auto simp: touch_def Let_def state_inv_updates abs_state_updates same_base_def journal_dirty_def)

lemma undoable_refl: "state_inv s \<Longrightarrow> undoable s s"
  by (rule undoable_unseen) (simp add: unseen_def)

lemma so_AddBalance_undoable: "state_inv s \<Longrightarrow> lookup s a = Some ob \<Longrightarrow> undoable s (so_AddBalance ob x s)"
  by (simp add: so_AddBalance_def so_SetBalance_undoable touch_undoable undoable_refl)

lemma so_SetStaking_undoable: "state_inv s \<Longrightarrow> lookup s a = Some ob \<Longrightarrow> undoable s (so_SetStaking ob x n s)"
  unfolding so_SetStaking_def
  by (rule undoable_write [where a = a]) (auto dest: lookup_simps simp: upd_data_def on_view_def intro!: oview.equality)

lemma so_RemoveStakeBalance_undoable:
  assumes "state_inv s" "lookup s a = Some ob"
  shows "undoable s (so_RemoveStakeBalance ob s)"
proof (cases "StakeBalance (so_data ob) = 0")
  case False
  let ?s1 = "so_SetStaking ob 0 (StakeUpdated (so_data ob)) s"
  have u: "undoable s ?s1" by (rule so_SetStaking_undoable [OF assms])
  have "lookup ?s1 a = Some (setStaking 0 (StakeUpdated (so_data ob)) ob)"
    using lookup_simps [OF assms] by (simp add: so_SetStaking_def lookup_setStateObject)
  from so_AddBalance_undoable [OF undoable_inv [OF u] this] u False show ?thesis
    by (auto simp: so_RemoveStakeBalance_def Let_def intro: undoable_trans)
qed (simp add: so_RemoveStakeBalance_def undoable_refl assms)

lemma opt_alt_same: "opt_alt x x = x"
  by (cases x) simp_all

lemma cached_ok: "cached db ob ob1 \<Longrightarrow> object_ok ob1 = object_ok ob"
  by (simp add: cached_def object_ok_def)

lemma so_SetCode_undoable:
  assumes "state_inv s" "lookup s a = Some ob"
  shows "undoable s (so_SetCode ob h c s)"
proof -
  obtain prev ob1 where c: "so_Code (sdb s) ob = (prev, ob1)" by fastforce
  note l = lookup_simps [OF assms]
  have k: "cached (sdb s) ob ob1" using so_Code_cached [of "sdb s" ob] c by simp
  have v: "objview (sdb s) ob1 = objview (sdb s) ob" "so_data ob1 = so_data ob" "so_address ob1 = a"
    using k l by (auto simp: cached_def)
  have p: "opt_alt prev (code_load (sdb s) a (CodeHash (so_data ob))) = ov_code (objview (sdb s) ob)"
    using c l code_view [of "sdb s" ob] by (cases "so_code ob") (auto simp: objview_def opt_alt_same)
  show ?thesis unfolding so_SetCode_def c prod.case
    by (rule undoable_write [OF assms]) (use l k v p object_ok_def [of ob] in \<open>auto simp: upd_data_def on_view_def cached_def intro!: oview.equality\<close>)
qed

lemma so_SetState_undoable:
  assumes "state_inv s" "lookup s a = Some ob"
  shows "undoable s (so_SetState ob k v s)"
proof -
  obtain prev ob1 where g: "so_GetState (sdb s) ob k = (prev, ob1)" by fastforce
  note l = lookup_simps [OF assms]
  have c: "cached (sdb s) ob ob1" using so_GetState_cached [of "sdb s" ob k] g by simp
  have p: "prev = ov_state (objview (sdb s) ob) k" using g by (simp add: objview_def)
  have "undoable s (write_object (setState k v ob1) (add_journal (StorageChange (so_address ob) k prev) s))"
    by (rule undoable_write [OF assms]) (use l c p cached_ok [OF c] in \<open>auto simp: cached_def on_view_def intro!: oview.equality\<close>)
  then show ?thesis unfolding so_SetState_def g prod.case using undoable_cached [OF assms c] by simp
qed

lemma object_ops_undoable:
  assumes "state_inv s" "lookup s a = Some ob"
  shows "undoable s (so_SubBalance ob x s)" "undoable s (so_SetNonce ob n s)" "undoable s (so_AddStakeBalance ob x i s)"
    "undoable s (so_SetPoint ob x s)" "undoable s (so_AddPoint ob x s)" "undoable s (so_AddPenalty ob i s)"
    "undoable s (so_RemovePenalty ob i s)"
proof -
  note l = lookup_simps [OF assms]
  note w = undoable_write [OF assms]
  show "undoable s (so_SubBalance ob x s)"
    by (simp add: so_SubBalance_def so_SetBalance_undoable [OF assms] undoable_refl [OF assms(1)])
  show "undoable s (so_SetNonce ob n s)" unfolding so_SetNonce_def
    by (rule w) (use l in \<open>auto simp: upd_data_def on_view_def intro!: oview.equality\<close>)
  show "undoable s (so_AddStakeBalance ob x i s)"
    by (simp add: so_AddStakeBalance_def so_SetStaking_undoable [OF assms] touch_undoable undoable_refl assms(1))
  show p: "undoable s (so_SetPoint ob x s)" for x unfolding so_SetPoint_def
    by (rule w) (use l in \<open>auto simp: upd_data_def on_view_def intro!: oview.equality\<close>)
  show "undoable s (so_AddPoint ob x s)"
    by (simp add: so_AddPoint_def p touch_undoable undoable_refl assms(1))
  show "undoable s (so_AddPenalty ob i s)" unfolding so_AddPenalty_def
    by (rule w) (use l in \<open>auto simp: upd_data_def on_view_def intro!: oview.equality\<close>)
  show "undoable s (so_RemovePenalty ob i s)" unfolding so_RemovePenalty_def
    by (rule w) (use l in \<open>auto simp: upd_data_def on_view_def intro!: oview.equality\<close>)
qed

datatype state_op =
    OpExist address
  | OpGetState address hash
  | OpGetCode address
  | OpCreateAccount address
  | OpAddBalance address int
  | OpSubBalance address int
  | OpSetBalance address int
  | OpSetNonce address u64
  | OpSetCode address "byte list"
  | OpSetState address hash hash
  | OpSetStaking address int int
  | OpAddStakeBalance address int int
  | OpRemoveStakeBalance address
  | OpSetPoint address int
  | OpAddPoint address int
  | OpAddBehindBalance address int int
  | OpRemoveFirstBehindBalance address
  | OpAddPenalty address int
  | OpRemovePenalty address int
  | OpSuicide address
  | OpAddLog Log
  | OpAddPreimage hash "byte list"
  | OpAddRefund u64
  | OpSubRefund u64
  | OpSnapshot
  | OpRevertToSnapshot int

fun apply_op :: "state_op \<Rightarrow> StateDB \<Rightarrow> StateDB run" where
  "apply_op (OpExist a) s = Inr (snd (Exist s a))"
| "apply_op (OpGetState a k) s = Inr (snd (GetState s a k))"
| "apply_op (OpGetCode a) s = Inr (snd (GetCode s a))"
| "apply_op (OpCreateAccount a) s = Inr (CreateAccount s a)"
| "apply_op (OpAddBalance a x) s = Inr (AddBalance s a x)"
| "apply_op (OpSubBalance a x) s = Inr (SubBalance s a x)"
| "apply_op (OpSetBalance a x) s = Inr (SetBalance s a x)"
| "apply_op (OpSetNonce a n) s = Inr (SetNonce s a n)"
| "apply_op (OpSetCode a c) s = Inr (SetCode s a c)"
| "apply_op (OpSetState a k v) s = Inr (SetState s a k v)"
| "apply_op (OpSetStaking a x n) s = Inr (SetStaking s a x n)"
| "apply_op (OpAddStakeBalance a x n) s = Inr (AddStakeBalance s a x n)"
| "apply_op (OpRemoveStakeBalance a) s = Inr (RemoveStakeBalance s a)"
| "apply_op (OpSetPoint a x) s = Inr (SetPoint s a x)"
| "apply_op (OpAddPoint a x) s = Inr (AddPoint s a x)"
| "apply_op (OpAddBehindBalance a n x) s = Inr (AddBehindBalance s a n x)"
| "apply_op (OpRemoveFirstBehindBalance a) s = RemoveFirstBehindBalance s a"
| "apply_op (OpAddPenalty a n) s = Inr (AddPenalty s a n)"
| "apply_op (OpRemovePenalty a n) s = Inr (RemovePenalty s a n)"
| "apply_op (OpSuicide a) s = Inr (snd (Suicide s a))"
| "apply_op (OpAddLog l) s = Inr (AddLog s l)"
| "apply_op (OpAddPreimage h b) s = Inr (AddPreimage s h b)"
| "apply_op (OpAddRefund g) s = Inr (AddRefund s g)"
| "apply_op (OpSubRefund g) s = SubRefund s g"
| "apply_op OpSnapshot s = Inr (snd (Snapshot s))"
| "apply_op (OpRevertToSnapshot i) s = RevertToSnapshot s i"

fun run_ops :: "state_op list \<Rightarrow> StateDB \<Rightarrow> StateDB run" where
  "run_ops [] s = Inr s"
| "run_ops (p # ps) s = bind_run (apply_op p s) (run_ops ps)"

text \<open>The changes of the entries of \<open>BehindBalance\<close> are the operations that a snapshot does not restore.\<close>

fun changes_behind :: "state_op \<Rightarrow> bool" where
  "changes_behind (OpAddBehindBalance a n x) \<longleftrightarrow> True"
| "changes_behind (OpRemoveFirstBehindBalance a) \<longleftrightarrow> True"
| "changes_behind p \<longleftrightarrow> False"

fun revision_op :: "state_op \<Rightarrow> bool" where
  "revision_op OpSnapshot \<longleftrightarrow> True"
| "revision_op (OpRevertToSnapshot i) \<longleftrightarrow> True"
| "revision_op p \<longleftrightarrow> False"

lemma CreateAccount_undoable: "state_inv s \<Longrightarrow> undoable s (CreateAccount s a)"
proof -
  assume "state_inv s"
  from createObject_undoable [OF this, of a] obtain nob t where
    "createObject s a = ((nob, lookup s a), t)" "undoable s t"
    "\<And>ob. so_address ob = a \<Longrightarrow> \<not> deleted ob \<Longrightarrow> object_ok ob \<Longrightarrow> undoable s (setStateObject ob t)"
    "so_address nob = a" "\<not> deleted nob" "object_ok nob" by metis
  then show ?thesis by (simp add: CreateAccount_def split: option.split)
qed

lemma reads_undoable:
  assumes "state_inv s"
  shows "undoable s (snd (Exist s a))" "undoable s (snd (GetState s a k))" "undoable s (snd (GetCode s a))"
proof -
  obtain t where t: "getStateObject s a = (lookup s a, t)" "unseen s t" "lookup t = lookup s"
    using getStateObject_lookup [OF assms] by metis
  then have u: "undoable s t" and i: "state_inv t" and d: "sdb t = sdb s" by (auto simp: unseen_def undoable_unseen)
  show "undoable s (snd (Exist s a))" using t u by (simp add: Exist_def read_object_def split: option.split)
  have c: "lookup s a = Some ob \<Longrightarrow> cached (sdb s) ob ob1 \<Longrightarrow> undoable s (write_object ob1 t)" for ob ob1
    using undoable_trans [OF u undoable_cached [OF i]] t(3) d by simp
  show "undoable s (snd (GetState s a k))" "undoable s (snd (GetCode s a))"
    using t u d c so_GetState_cached [of "sdb s" _ k] so_Code_cached [of "sdb s"]
    by (auto simp: GetState_def GetCode_def split: option.split prod.split) (metis snd_conv)+
qed

lemma objview_suicided:
  "(objview db ob)\<lparr>ov_data := so_data ob, ov_suicided := suicided ob\<rparr> = objview db ob"
  "(objview db ob)\<lparr>ov_suicided := suicided ob, ov_data := so_data ob\<rparr> = objview db ob"
  "(objview db ob)\<lparr>ov_suicided := suicided ob\<rparr> = objview db ob"
  by (simp_all add: objview_def)

lemma Suicide_undoable:
  assumes "state_inv s"
  shows "undoable s (snd (Suicide s a))"
proof -
  obtain t where t: "getStateObject s a = (lookup s a, t)" "unseen s t" "lookup t = lookup s"
    using getStateObject_lookup [OF assms] by metis
  then have u: "undoable s t" and i: "state_inv t" by (auto simp: unseen_def undoable_unseen)
  have "undoable t (write_object (setBalance 0 (markSuicided ob)) (add_journal (SuicideChange a (suicided ob) (Balance (so_data ob))) t))"
    if "lookup t a = Some ob" for ob
    by (rule undoable_write [OF i that])
      (use lookup_simps [OF i that] in \<open>auto simp: upd_data_def on_view_def markSuicided_def objview_suicided\<close>)
  with t u undoable_trans [OF u] show ?thesis by (auto simp: Suicide_def split: option.split)
qed

lemma apply_op_undoable:
  assumes s: "state_inv s" and p: "\<not> changes_behind p" "\<not> revision_op p" and t: "apply_op p s = Inr t"
  shows "undoable s t"
proof -
  note u = update_object_undoable [OF s] update_existing_undoable [OF s]
  show ?thesis
  proof (cases p)
    case (OpAddLog l)
    with t s show ?thesis
      by (intro undoable_entry [where e = "AddLogChange (thash s)"])
        (auto simp: AddLog_def Let_def state_inv_updates abs_state_updates same_base_def fun_eq_iff add_journal_def
          split: option.split intro!: astate.equality)
  next
    case (OpAddPreimage h b)
    with t s show ?thesis
      by (cases "preimages s h")
        (auto simp: AddPreimage_def state_inv_updates abs_state_updates same_base_def add_journal_def undoable_refl
          fun_upd_idem intro!: undoable_entry [where e = "AddPreimageChange h"] astate.equality)
  next
    case (OpAddRefund g)
    with t s show ?thesis
      by (intro undoable_entry [where e = "RefundChange (refund s)"])
        (auto simp: AddRefund_def state_inv_updates abs_state_updates same_base_def add_journal_def intro!: astate.equality)
  next
    case (OpSubRefund g)
    with t s show ?thesis
      by (intro undoable_entry [where e = "RefundChange (refund s)"])
        (auto simp: SubRefund_def state_inv_updates abs_state_updates same_base_def add_journal_def
          split: if_splits intro!: astate.equality)
  qed (use t s p in \<open>auto simp: reads_undoable CreateAccount_undoable Suicide_undoable AddBalance_def SubBalance_def
      SetBalance_def SetNonce_def SetCode_def SetState_def SetStaking_def AddStakeBalance_def RemoveStakeBalance_def
      SetPoint_def AddPoint_def AddPenalty_def RemovePenalty_def intro!: u object_ops_undoable
      intro: so_AddBalance_undoable so_SetBalance_undoable so_SetCode_undoable so_SetState_undoable
        so_SetStaking_undoable so_RemoveStakeBalance_undoable\<close>)
qed

subsection \<open>Revisions\<close>

text \<open>The state that undoing the journal down to \<open>n\<close> entries leads to.\<close>

definition undone :: "nat \<Rightarrow> StateDB \<Rightarrow> astate option" where
  "undone n s = arevert_list (sdb s) (rev (drop n (entries (jrnl s)))) (abs_state s)"

definition revisions_ok :: "StateDB \<Rightarrow> bool" where
  "revisions_ok s \<longleftrightarrow> sorted_wrt (\<lambda>(i, m) (j, n). i < j \<and> m \<le> n) (validRevisions s)
     \<and> (\<forall>(i, n)\<in>set (validRevisions s). i < nextRevisionId s \<and> n \<le> length (entries (jrnl s)) \<and> undone n s \<noteq> None)"

definition good_state :: "StateDB \<Rightarrow> bool" where
  "good_state s \<longleftrightarrow> state_inv s \<and> revisions_ok s \<and> (\<forall>e\<in>set (entries (jrnl s)). entry_ok (strie s) e)"

text \<open>What a revision that is still valid will restore.\<close>

definition saved :: "StateDB \<Rightarrow> int \<times> nat \<Rightarrow> astate option \<times> journalEntry list \<times> (int \<times> nat) list" where
  "saved s r = (undone (snd r) s, take (snd r) (entries (jrnl s)), takeWhile (\<lambda>q. fst q < fst r) (validRevisions s))"

definition keeps_revisions :: "StateDB \<Rightarrow> StateDB \<Rightarrow> bool" where
  "keeps_revisions s t \<longleftrightarrow> nextRevisionId s \<le> nextRevisionId t \<and>
     (\<forall>r\<in>set (validRevisions t). fst r < nextRevisionId s \<longrightarrow> r \<in> set (validRevisions s) \<and> saved t r = saved s r)"

lemma keeps_revisions_trans:
  "keeps_revisions s t \<Longrightarrow> keeps_revisions t u \<Longrightarrow> keeps_revisions s u"
  unfolding keeps_revisions_def by fastforce

lemma undoable_undone: "undoable s t \<Longrightarrow> n \<le> length (entries (jrnl s)) \<Longrightarrow> undone n t = undone n s"
  by (auto simp: undoable_def undone_def same_base_def arevert_list_append)

lemma undoable_good:
  assumes "good_state s" "undoable s t"
  shows "good_state t \<and> keeps_revisions s t"
proof -
  from assms(2) obtain es where es: "entries (jrnl t) = entries (jrnl s) @ es" "\<forall>e\<in>set es. entry_ok (strie s) e"
    "validRevisions t = validRevisions s" "nextRevisionId t = nextRevisionId s" "strie t = strie s" "state_inv t"
    by (auto simp: undoable_def same_base_def)
  with assms undoable_undone [OF assms(2)] show ?thesis
    by (fastforce simp: good_state_def revisions_ok_def keeps_revisions_def saved_def)
qed

lemma takeWhile_new:
  "\<forall>q\<in>set xs. fst q < (i::int) \<Longrightarrow> takeWhile (\<lambda>q. fst q < i) (xs @ [(i, n)]) = xs"
  by (induction xs) auto

lemma takeWhile_old:
  "r \<in> set xs \<Longrightarrow> takeWhile (\<lambda>q. fst q < (fst r :: int)) (xs @ ys) = takeWhile (\<lambda>q. fst q < fst r) xs"
  by (induction xs) auto

lemma Snapshot_good:
  assumes "good_state s" "Snapshot s = (i, t)"
  shows "good_state t \<and> keeps_revisions s t \<and> i = nextRevisionId s \<and> i < nextRevisionId t
    \<and> (i, length (entries (jrnl s))) \<in> set (validRevisions t)
    \<and> saved t (i, length (entries (jrnl s))) = (Some (abs_state s), entries (jrnl s), validRevisions s)"
proof -
  from assms(2) have t: "i = nextRevisionId s" "t = s\<lparr>nextRevisionId := nextRevisionId s + 1,
        validRevisions := validRevisions s @ [(nextRevisionId s, length (entries (jrnl s)))]\<rparr>"
    by (auto simp: Snapshot_def)
  have a: "abs_state t = abs_state s" by (simp add: t abs_state_updates)
  have u: "undone n t = undone n s" for n using a by (simp add: undone_def t(2))
  have l: "undone (length (entries (jrnl s))) s = Some (abs_state s)" by (simp add: undone_def)
  have r: "\<forall>q\<in>set (validRevisions s). fst q < nextRevisionId s" using assms(1) by (auto simp: good_state_def revisions_ok_def)
  have "good_state t"
    using assms(1) u l by (fastforce simp: good_state_def revisions_ok_def t(2) state_inv_updates sorted_wrt_append)
  moreover have "keeps_revisions s t"
    by (auto simp: keeps_revisions_def saved_def u) (auto simp: t takeWhile_old simp del: takeWhile_append)
  ultimately show ?thesis
    using r u l by (simp add: t(1) saved_def) (simp add: t(2) takeWhile_new del: takeWhile_append)
qed

lemma sort_Search_first:
  assumes "\<And>x y. i \<le> x \<Longrightarrow> x \<le> y \<Longrightarrow> y < j \<Longrightarrow> f x \<Longrightarrow> f y" "i \<le> j"
  shows "i \<le> sort_Search f i j \<and> sort_Search f i j \<le> j \<and> (\<forall>x. i \<le> x \<longrightarrow> x < sort_Search f i j \<longrightarrow> \<not> f x)
    \<and> (sort_Search f i j < j \<longrightarrow> f (sort_Search f i j))"
  using assms
proof (induction f i j rule: sort_Search.induct)
  case (1 f i j)
  show ?case
  proof (cases "i < j")
    case True
    let ?h = "(i + j) div 2"
    have h: "i \<le> ?h" "?h < j" using True by auto
    show ?thesis
    proof (cases "f ?h")
      case False
      have e: "sort_Search f i j = sort_Search f (?h + 1) j" using True False by (subst sort_Search.simps) (simp add: Let_def)
      have lo: "\<not> f x" if "i \<le> x" "x \<le> ?h" for x using "1.prems"(1) [of x ?h] False h that by blast
      have r: "?h + 1 \<le> sort_Search f (?h + 1) j \<and> sort_Search f (?h + 1) j \<le> j
        \<and> (\<forall>x. ?h + 1 \<le> x \<longrightarrow> x < sort_Search f (?h + 1) j \<longrightarrow> \<not> f x)
        \<and> (sort_Search f (?h + 1) j < j \<longrightarrow> f (sort_Search f (?h + 1) j))"
      proof (rule "1.IH"(1) [OF True refl False])
        show "f y" if "?h + 1 \<le> x" "x \<le> y" "y < j" "f x" for x y
          using "1.prems"(1) [of x y] that h by linarith
      qed (use h in simp)
      have "\<not> f x" if "i \<le> x" "x < sort_Search f (?h + 1) j" for x
        using lo r that by (cases "x \<le> ?h") auto
      with r h show ?thesis unfolding e by auto
    next
      case fh: True
      have e: "sort_Search f i j = sort_Search f i ?h" using True fh by (subst sort_Search.simps) (simp add: Let_def)
      have "i \<le> sort_Search f i ?h \<and> sort_Search f i ?h \<le> ?h \<and> (\<forall>x. i \<le> x \<longrightarrow> x < sort_Search f i ?h \<longrightarrow> \<not> f x)
        \<and> (sort_Search f i ?h < ?h \<longrightarrow> f (sort_Search f i ?h))"
      proof (rule "1.IH"(2) [OF True refl])
        show "f y" if "i \<le> x" "x \<le> y" "y < ?h" "f x" for x y
          using "1.prems"(1) [of x y] that h by linarith
      qed (use h fh in simp_all)
      moreover have "sort_Search f i ?h = ?h \<or> sort_Search f i ?h < ?h" using calculation by auto
      ultimately show ?thesis unfolding e using fh h by auto
    qed
  next
    case False
    then have e: "sort_Search f i j = i" by (subst sort_Search.simps) simp
    show ?thesis unfolding e using False "1.prems"(2) by auto
  qed
qed

lemma sort_Search_le: "i \<le> j \<Longrightarrow> sort_Search f i j \<le> j"
proof (induction f i j rule: sort_Search.induct)
  case (1 f i j)
  show ?case
  proof (cases "i < j")
    case True
    then have "sort_Search f ((i + j) div 2 + 1) j \<le> j" if "\<not> f ((i + j) div 2)"
      using "1.IH"(1) [OF True refl that] by simp
    moreover have "sort_Search f i ((i + j) div 2) \<le> (i + j) div 2" if "f ((i + j) div 2)"
      using "1.IH"(2) [OF True refl] that True by simp
    ultimately show ?thesis using True by (subst sort_Search.simps) (fastforce simp: Let_def)
  qed (use 1 in \<open>subst sort_Search.simps, simp\<close>)
qed

lemma revision_index:
  fixes rs :: "(int \<times> nat) list"
  assumes "sorted_wrt (\<lambda>(i, m) (j, n). i < j \<and> m \<le> n) rs" "k < length rs"
  shows "sort_Search (\<lambda>x. fst (rs ! k) \<le> fst (rs ! x)) 0 (length rs) = k"
    and "takeWhile (\<lambda>q. fst q < fst (rs ! k)) rs = take k rs"
proof -
  have lt: "fst (rs ! x) < fst (rs ! y)" if "x < y" "y < length rs" for x y
    using sorted_wrt_nth_less [OF assms(1) that] by (auto split: prod.splits)
  let ?f = "\<lambda>x. fst (rs ! k) \<le> fst (rs ! x)"
  have "x \<le> y \<Longrightarrow> y < length rs \<Longrightarrow> ?f x \<Longrightarrow> ?f y" for x y
    using lt [of x y] by (cases "x = y") auto
  from sort_Search_first [of 0 "length rs" ?f, OF this] have
    r: "sort_Search ?f 0 (length rs) \<le> length rs" "\<forall>x < sort_Search ?f 0 (length rs). \<not> ?f x"
      "sort_Search ?f 0 (length rs) < length rs \<longrightarrow> ?f (sort_Search ?f 0 (length rs))" by auto
  show "sort_Search ?f 0 (length rs) = k"
    using r lt [of "sort_Search ?f 0 (length rs)" k] assms(2)
    by (cases "sort_Search ?f 0 (length rs)" k rule: linorder_cases) auto
  show "takeWhile (\<lambda>q. fst q < fst (rs ! k)) rs = take k rs"
    using lt assms(2) by (intro takeWhile_eq_take_P_nth) auto
qed

lemma undone_journal_revert:
  assumes s: "good_state s" and n: "n \<le> length (entries (jrnl s))" and u: "undone n s = Some A"
  obtains t where "journal_revert s n = Inr t" "abs_state t = A" "state_inv t" "same_base s t"
    "entries (jrnl t) = take n (entries (jrnl s))"
    "\<And>m. m \<le> n \<Longrightarrow> undone m t = undone m s"
proof -
  let ?es = "entries (jrnl s)"
  have "\<forall>e\<in>set (rev (drop n ?es)). entry_ok (strie s) e"
    using s set_drop_subset [of n ?es] by (auto simp: good_state_def)
  from revert_loop_refines [OF u [unfolded undone_def] _ this] s obtain v where
    v: "revert_loop (rev (drop n ?es)) s = Inr v" "abs_state v = A" "state_inv v" "same_base s v"
      "entries (jrnl v) = ?es" by (auto simp: good_state_def)
  define t where "t = v\<lparr>jrnl := (jrnl v)\<lparr>entries := take n (entries (jrnl v))\<rparr>\<rparr>"
  have t: "journal_revert s n = Inr t" using v(1) n by (simp add: journal_revert_def t_def)
  have e: "entries (jrnl t) = take n ?es" using v(5) by (simp add: t_def)
  have a: "abs_state t = A" "state_inv t" "same_base s t"
    using v by (simp_all add: t_def abs_state_updates state_inv_updates same_base_def)
  have "undone m t = undone m s" if "m \<le> n" for m
  proof -
    have "drop m ?es = drop m (take n ?es) @ drop n ?es"
      using that n drop_append [of m "take n ?es" "drop n ?es"] by simp
    then have "rev (drop m ?es) = rev (drop n ?es) @ rev (drop m (take n ?es))" by simp
    then show ?thesis
      using u a by (simp add: undone_def arevert_list_append e same_base_def)
  qed
  with that t a e show ?thesis by blast
qed

lemma RevertToSnapshot_good:
  assumes s: "good_state s" and r: "(i, n) \<in> set (validRevisions s)"
  obtains t where "RevertToSnapshot s i = Inr t" "good_state t" "keeps_revisions s t"
    "(Some (abs_state t), entries (jrnl t), validRevisions t) = saved s (i, n)"
proof -
  let ?rs = "validRevisions s"
  from r obtain k where k: "k < length ?rs" "?rs ! k = (i, n)" by (auto simp: in_set_conv_nth)
  have so: "sorted_wrt (\<lambda>(i, m) (j, n). i < j \<and> m \<le> n) ?rs" using s by (simp add: good_state_def revisions_ok_def)
  note ix = revision_index [OF so k(1), unfolded k(2) fst_conv]
  from s r have n: "n \<le> length (entries (jrnl s))" and "undone n s \<noteq> None" by (auto simp: good_state_def revisions_ok_def)
  then obtain A where A: "undone n s = Some A" by blast
  from undone_journal_revert [OF s n A] obtain v where v: "journal_revert s n = Inr v" "abs_state v = A" "state_inv v"
    "same_base s v" "entries (jrnl v) = take n (entries (jrnl s))" "\<And>m. m \<le> n \<Longrightarrow> undone m v = undone m s" by metis
  define t where "t = v\<lparr>validRevisions := take k (validRevisions v)\<rparr>"
  have t: "RevertToSnapshot s i = Inr t"
    using k ix v(1) by (simp add: RevertToSnapshot_def Let_def t_def)
  have b: "sdb t = sdb s" "strie t = strie s" "nextRevisionId t = nextRevisionId s" "validRevisions t = take k ?rs"
    "entries (jrnl t) = take n (entries (jrnl s))" "abs_state t = A" "state_inv t"
    using v by (simp_all add: t_def same_base_def abs_state_updates state_inv_updates)
  have u: "undone m t = undone m s" if "m \<le> n" for m
    using v(6) [OF that] by (simp add: t_def undone_def abs_state_updates)
  have q: "q \<in> set ?rs \<and> fst q < i \<and> snd q \<le> n" if "q \<in> set (take k ?rs)" for q
  proof -
    from that obtain x where x: "x < k" "q = ?rs ! x" using k(1) by (auto simp: in_set_conv_nth)
    from sorted_wrt_nth_less [OF so x(1) k(1)] x k show ?thesis by (auto split: prod.splits)
  qed
  have "revisions_ok t"
    using s q u so n unfolding revisions_ok_def good_state_def b
    by (fastforce intro: sorted_wrt_take)
  moreover have "\<forall>e\<in>set (entries (jrnl t)). entry_ok (strie t) e"
    using s b set_take_subset [of n "entries (jrnl s)"] by (auto simp: good_state_def)
  ultimately have g: "good_state t" using b by (simp add: good_state_def)
  have "saved t x = saved s x" if "x \<in> set (validRevisions t)" for x
    using q [of x] u [of "snd x"] that takeWhile_old [of x "take k ?rs" "drop k ?rs"]
    by (simp add: saved_def b take_take min_absorb2 min_absorb1)
  then have "keeps_revisions s t" using q b by (auto simp: keeps_revisions_def)
  with that t g b A ix show ?thesis by (simp add: saved_def)
qed

lemma RevertToSnapshot_valid:
  assumes "RevertToSnapshot s i = Inr t"
  obtains n where "(i, n) \<in> set (validRevisions s)"
proof -
  let ?k = "sort_Search (\<lambda>x. i \<le> fst (validRevisions s ! x)) 0 (length (validRevisions s))"
  have "?k \<le> length (validRevisions s)"
    by (rule sort_Search_le) simp
  moreover have "?k \<noteq> length (validRevisions s)" and f: "fst (validRevisions s ! ?k) = i"
    using assms by (auto simp: RevertToSnapshot_def Let_def split: if_splits)
  ultimately have "validRevisions s ! ?k \<in> set (validRevisions s)" by (intro nth_mem) simp
  with f that show ?thesis by (metis prod.collapse)
qed

lemma apply_op_good:
  assumes "good_state s" "\<not> changes_behind p" "apply_op p s = Inr t"
  shows "good_state t \<and> keeps_revisions s t"
proof (cases "revision_op p")
  case True
  then consider "p = OpSnapshot" | i where "p = OpRevertToSnapshot i" by (cases p) auto
  then show ?thesis
  proof cases
    case 1
    with assms Snapshot_good [OF assms(1)] show ?thesis by (cases "Snapshot s") auto
  next
    case (2 i)
    with assms(3) have "RevertToSnapshot s i = Inr t" by simp
    then obtain n where "(i, n) \<in> set (validRevisions s)" by (rule RevertToSnapshot_valid)
    from RevertToSnapshot_good [OF assms(1) this] assms(3) 2 show ?thesis by (metis apply_op.simps(26) sum.inject(2))
  qed
next
  case False
  from apply_op_undoable [OF _ assms(2) False assms(3)] assms(1) undoable_good [OF assms(1)] show ?thesis
    by (simp add: good_state_def)
qed

lemma run_ops_good:
  assumes "good_state s" "\<forall>p\<in>set ps. \<not> changes_behind p" "run_ops ps s = Inr t"
  shows "good_state t \<and> keeps_revisions s t"
  using assms
proof (induction ps arbitrary: s)
  case Nil
  then show ?case by (simp add: keeps_revisions_def)
next
  case (Cons p ps)
  from Cons.prems(3) obtain u where "apply_op p s = Inr u" "run_ops ps u = Inr t" by (auto simp: bind_run_eq_Inr)
  with Cons apply_op_good [of s p u] show ?case by (metis keeps_revisions_trans list.set_intros)
qed

subsection \<open>Properties of snapshots\<close>


definition empty_db :: Database where
  "empty_db = \<lparr>OpenTrie = (\<lambda>_. Inr (\<lambda>_. Inr [])), OpenStorageTrie = (\<lambda>_ _. Inr (\<lambda>_. Inr [])),
     ContractCode = (\<lambda>_ _. Inl ''not found''), ContractCodeSize = (\<lambda>_ _. Inl ''not found''), TrieHash = (\<lambda>_. 0)\<rparr>"

lemma state_New_good:
  assumes "OpenTrie db rt = Inr tr" "\<And>a ob. load tr a = Some ob \<Longrightarrow> object_ok ob"
  shows "\<exists>s. state_New rt db = Inr s \<and> good_state s"
  using assms by (simp add: state_New_def good_state_def state_inv_def revisions_ok_def newJournal_def)


text \<open>C4: Of a state reached by operations of the state interface, a revert returns exactly for the revisions
  that are still valid, and panics for every other number: a valid revision never meets a missing
  object or an empty log on the way back.\<close>

theorem RevertToSnapshot_defined:
  assumes "good_state s" "run_ops ps s = Inr t" "\<forall>p\<in>set ps. \<not> changes_behind p"
  shows "(\<exists>u. RevertToSnapshot t i = Inr u) \<longleftrightarrow> i \<in> fst ` set (validRevisions t)"
proof
  assume "\<exists>u. RevertToSnapshot t i = Inr u"
  then obtain u n where "(i, n) \<in> set (validRevisions t)" using RevertToSnapshot_valid by metis
  then show "i \<in> fst ` set (validRevisions t)" by force
next
  assume "i \<in> fst ` set (validRevisions t)"
  then obtain n where n: "(i, n) \<in> set (validRevisions t)" by force
  from run_ops_good [OF assms(1,3,2)] have "good_state t" by simp
  from RevertToSnapshot_good [OF this n] show "\<exists>u. RevertToSnapshot t i = Inr u" by metis
qed

lemma empty_state:
  obtains s where "state_New 0 empty_db = Inr s" "good_state s" "validRevisions s = []" "nextRevisionId s = 0"
    "stateObjects s = Map.empty" "strie s = (\<lambda>_. Inr [])" "dirties (jrnl s) = Map.empty" "sdb s = empty_db"
proof -
  have tr: "OpenTrie empty_db 0 = Inr (\<lambda>_. Inr [])" by (simp add: empty_db_def)
  obtain s where "state_New 0 empty_db = Inr s" "good_state s" using state_New_good [OF tr] by (auto simp: load_def)
  with that tr show ?thesis by (auto simp: state_New_def newJournal_def)
qed

theorem RevertToSnapshot_defined_witness:
  "\<exists>s t. state_New 0 empty_db = Inr s \<and> run_ops [OpAddBalance 7 100, OpSnapshot, OpSetNonce 7 1] s = Inr t
    \<and> (\<exists>u. RevertToSnapshot t 0 = Inr u) \<and> \<not> (\<exists>u. RevertToSnapshot t 1 = Inr u)"
proof -
  obtain s where s: "state_New 0 empty_db = Inr s" "good_state s" "validRevisions s = []" "nextRevisionId s = 0"
    "stateObjects s = Map.empty" "strie s = (\<lambda>_. Inr [])" by (rule empty_state)
  let ?ps = "[OpAddBalance 7 100, OpSnapshot, OpSetNonce 7 1]"
  have "\<exists>t. run_ops ?ps s = Inr t \<and> fst ` set (validRevisions t) = {0}"
    using s
    by (auto simp: Snapshot_def AddBalance_def update_object_def GetOrNewStateObject_def getStateObject_def createObject_def
        Let_def setNonce_def add_journal_def setStateObject_def so_AddBalance_def so_SetBalance_def setBalance_def
        SetNonce_def so_SetNonce_def newObject_def)
  then obtain t where t: "run_ops ?ps s = Inr t" "fst ` set (validRevisions t) = {0}" by blast
  have "(\<exists>u. RevertToSnapshot t i = Inr u) \<longleftrightarrow> i = 0" for i
    using RevertToSnapshot_defined [OF s(2) t(1), of i] t(2) by simp
  then have "(\<exists>u. RevertToSnapshot t 0 = Inr u) \<and> \<not> (\<exists>u. RevertToSnapshot t 1 = Inr u)" by simp
  with s(1) t(1) show ?thesis by blast
qed

lemma abs_object: "lookup s a = Some ob \<Longrightarrow> av (abs_state s) a = Some (objview (sdb s) ob)"
  by (simp add: abs_state_def)

lemma GetBehindBalance_view:
  "state_inv s \<Longrightarrow> fst (GetBehindBalance s a) = (case av (abs_state s) a of None \<Rightarrow> [] | Some v \<Rightarrow> BehindBalance (ov_data v))"
  by (rule getStateObject_lookup [of s a], assumption)
    (auto simp: GetBehindBalance_def read_object_def abs_state_def split: option.split)

lemma RevertToSnapshot_last:
  assumes "good_state s" "Snapshot s = (i, s1)" "validRevisions u = validRevisions s1"
    "entries (jrnl u) = entries (jrnl s) @ es" "revert_loop (rev es) u = Inr v"
  shows "\<exists>j r. RevertToSnapshot u i = Inr (v\<lparr>jrnl := (jrnl v)\<lparr>entries := j\<rparr>, validRevisions := r\<rparr>)"
proof -
  let ?rs = "validRevisions s1"
  note sn = Snapshot_good [OF assms(1,2)]
  have rs: "?rs = validRevisions s @ [(i, length (entries (jrnl s)))]" using assms(2) by (auto simp: Snapshot_def)
  have "sorted_wrt (\<lambda>(i, m) (j, n). i < j \<and> m \<le> n) ?rs" using sn by (simp add: good_state_def revisions_ok_def)
  from revision_index(1) [OF this, of "length (validRevisions s)"] rs
  have k: "sort_Search (\<lambda>x. i \<le> fst (?rs ! x)) 0 (length ?rs) = length (validRevisions s)" by simp
  have "journal_revert u (length (entries (jrnl s)))
      = Inr (v\<lparr>jrnl := (jrnl v)\<lparr>entries := take (length (entries (jrnl s))) (entries (jrnl v))\<rparr>\<rparr>)"
    using assms(4,5) by (simp add: journal_revert_def)
  then show ?thesis using k rs unfolding RevertToSnapshot_def assms(3) by (auto simp: Let_def)
qed

lemma state_inv_journal: "state_inv (v\<lparr>jrnl := j, validRevisions := r\<rparr>) = state_inv v"
  "abs_state (v\<lparr>jrnl := j, validRevisions := r\<rparr>) = abs_state v"
  by (auto simp: state_inv_def abs_state_def lookup_def fun_eq_iff split: option.split)

text \<open>C14: A revert does not restore the pending stake returns of an account: after a revert past
  \<open>AddBehindBalance\<close> the account has the new entry, and has lost all the earlier ones.\<close>

theorem AddBehindBalance_revert:
  assumes "good_state s" "av (abs_state s) a \<noteq> None" "x \<noteq> 0" "Snapshot s = (i, s1)"
  shows "\<exists>t. RevertToSnapshot (AddBehindBalance s1 a n x) i = Inr t
    \<and> fst (GetBehindBalance t a) = [\<lparr>bhNumber = n, bhBalance = x\<rparr>]"
proof -
  have i1: "state_inv s1" using Snapshot_good [OF assms(1,4)] by (simp add: good_state_def)
  obtain t where t: "getStateObject s1 a = (lookup s1 a, t)" "unseen s1 t"
    using getStateObject_lookup [OF i1] by metis
  have "abs_state s1 = abs_state s" using assms(4) by (auto simp: Snapshot_def abs_state_updates)
  with assms(2) have "av (abs_state s1) a \<noteq> None" by simp
  then obtain ob where ob: "lookup s1 a = Some ob" by (auto simp: abs_state_def)
  note l = lookup_simps [OF i1 ob]
  let ?b = "\<lparr>bhNumber = n, bhBalance = x\<rparr>"
  let ?ob = "setBehind (BehindBalance (so_data ob) @ [?b]) ob"
  let ?e = "BehindChange a [?b]"
  let ?u = "write_object ?ob (add_journal ?e t)"
  have u: "AddBehindBalance s1 a n x = ?u"
    using t(1) ob l assms(3)
    by (simp add: AddBehindBalance_def update_object_def GetOrNewStateObject_def so_AddBehindBalance_def
        so_SetBehind_def Let_def)
  have e: "entries (jrnl ?u) = entries (jrnl s) @ [?e]" "validRevisions ?u = validRevisions s1"
    using t(2) assms(4) by (auto simp: unseen_def Snapshot_def)
  have iu: "state_inv ?u" using t(2) l by (intro state_inv_setStateObject) (auto simp: unseen_def)
  have "lookup ?u a = Some ?ob" using l by (simp add: lookup_setStateObject)
  then obtain A where A: "arevert (sdb ?u) ?e (abs_state ?u) = Some A"
    "BehindBalance (ov_data (the (av A a))) = [?b]" "av A a \<noteq> None"
    using abs_object [of ?u a] by (simp add: on_view_def upd_data_def)
  from revert_refines [OF A(1) iu] obtain v where
    v: "revert_entry ?e ?u = Inr v" "abs_state v = A" "state_inv v" by auto
  then have "revert_loop (rev [?e]) ?u = Inr (v\<lparr>jrnl := journal_undirty ?e (jrnl v)\<rparr>)" by simp
  from RevertToSnapshot_last [OF assms(1,4) e(2,1) this] obtain j r where
    "RevertToSnapshot ?u i = Inr (v\<lparr>jrnl := j, validRevisions := r\<rparr>)" by auto
  moreover have "fst (GetBehindBalance (v\<lparr>jrnl := j, validRevisions := r\<rparr>) a) = [?b]"
    using GetBehindBalance_view [of "v\<lparr>jrnl := j, validRevisions := r\<rparr>" a] v(2,3) A(2,3)
    by (auto simp: state_inv_journal split: option.split)
  ultimately show ?thesis unfolding u by blast
qed

theorem AddBehindBalance_revert_witness:
  "\<exists>s s1 t. good_state s \<and> fst (GetBehindBalance s 7) = [] \<and> Snapshot s = (0, s1)
    \<and> RevertToSnapshot (AddBehindBalance s1 7 4 5) 0 = Inr t
    \<and> fst (GetBehindBalance t 7) = [\<lparr>bhNumber = 4, bhBalance = 5\<rparr>]"
proof -
  obtain s0 where s0: "state_New 0 empty_db = Inr s0" "good_state s0" "nextRevisionId s0 = 0"
    "stateObjects s0 = Map.empty" "strie s0 = (\<lambda>_. Inr [])" by (rule empty_state)
  define s where "s = AddBalance s0 7 100"
  have g: "good_state s" "keeps_revisions s0 s"
    using apply_op_good [OF s0(2), of "OpAddBalance 7 100" s] by (simp_all add: s_def)
  have s: "fst (GetBehindBalance s 7) = []" "av (abs_state s) 7 \<noteq> None" "nextRevisionId s = 0"
    using s0(3-5)
    by (auto simp: s_def AddBalance_def update_object_def GetOrNewStateObject_def getStateObject_def createObject_def
        Let_def setNonce_def add_journal_def setStateObject_def so_AddBalance_def so_SetBalance_def setBalance_def
        newObject_def zero_Account_def GetBehindBalance_def read_object_def abs_state_def lookup_def)
  obtain s1 where s1: "Snapshot s = (0, s1)" using s(3) by (simp add: Snapshot_def)
  from AddBehindBalance_revert [OF g(1) s(2) _ s1, of 5 4] g(1) s(1) s1 show ?thesis by auto
qed

end
