(* ===== verification/State_Finalise.thy ===== *)
theory State_Finalise
  imports State_Revert
begin

text \<open>
  Finalising the state: what \<open>Finalise\<close> writes to the state trie, that a state opened on this trie reads
  the accounts back, and the dirty address without an object that makes it panic.
\<close>

subsection \<open>Finalising\<close>

definition objects_placed :: "StateDB \<Rightarrow> bool" where
  "objects_placed s \<longleftrightarrow> (\<forall>a ob. stateObjects s a = Some ob \<longrightarrow> so_address ob = a)"

definition removable :: "bool \<Rightarrow> stateObject \<Rightarrow> bool" where
  "removable del ob \<longleftrightarrow> suicided ob \<or> (del \<and> so_empty ob)"

lemma updateTrie_loop_kept:
  "so_address (snd (updateTrie_loop ks tr ob)) = so_address ob
   \<and> so_data (snd (updateTrie_loop ks tr ob)) = so_data ob
   \<and> deleted (snd (updateTrie_loop ks tr ob)) = deleted ob"
  by (induction ks arbitrary: tr ob) (auto simp: Let_def split: option.split prod.split)

lemma getTrie_kept_fields:
  "so_address (snd (getTrie db ob)) = so_address ob" "so_data (snd (getTrie db ob)) = so_data ob"
  "deleted (snd (getTrie db ob)) = deleted ob"
  using getTrie_cached(1) [of db ob] by (simp_all add: cached_def)

lemma updateRoot_kept:
  "so_address (updateRoot db ks ob) = so_address ob" "deleted (updateRoot db ks ob) = deleted ob"
  "\<exists>r. so_data (updateRoot db ks ob) = (so_data ob)\<lparr>Root := r\<rparr>"
  using getTrie_kept_fields [of db ob] updateTrie_loop_kept [of ks "fst (getTrie db ob)" "snd (getTrie db ob)"]
  by (auto simp: updateRoot_def updateTrie_def split: prod.split)

lemma setError_simps [simp]:
  "stateObjects (setError e s) = stateObjects s" "strie (setError e s) = strie s" "sdb (setError e s) = sdb s"
  by (simp_all add: setError_def)

lemma finalise_step_objects:
  assumes "(if removable del ob then Inr (deleteStateObject s ob)
      else (let ob1 = updateRoot (sdb s) ks ob in updateStateObject (write_object ob1 s) ob1)) = Inr t"
  shows "\<exists>ob1. so_address ob1 = so_address ob \<and> stateObjects t = (stateObjects s)(so_address ob \<mapsto> ob1)"
proof (cases "removable del ob")
  case True
  with assms show ?thesis
    by (auto simp: deleteStateObject_def Let_def split: prod.splits intro!: exI [of _ "ob\<lparr>deleted := True\<rparr>"])
next
  case False
  with assms updateRoot_kept(1) [of "sdb s" ks ob] show ?thesis
    by (auto simp: updateStateObject_def Let_def split: prod.splits sum.splits
        intro!: exI [of _ "updateRoot (sdb s) ks ob"])
qed

lemma Finalise_loop_missing:
  assumes "objects_placed s" "a \<in> set ord" "stateObjects s a = None"
  shows "\<exists>p. Finalise_loop keys del ord s = Inl p"
  using assms
proof (induction ord arbitrary: s)
  case (Cons b ord)
  show ?case
  proof (cases "stateObjects s b")
    case (Some ob)
    let ?r = "if removable del ob then Inr (deleteStateObject s ob)
      else (let ob1 = updateRoot (sdb s) (keys b) ob in updateStateObject (write_object ob1 s) ob1)"
    have ob: "so_address ob = b" using Cons.prems(1) Some by (auto simp: objects_placed_def)
    show ?thesis
    proof (cases ?r)
      case (Inr t)
      from finalise_step_objects [OF this] ob obtain ob1 where
        t: "so_address ob1 = b" "stateObjects t = (stateObjects s)(b \<mapsto> ob1)" by auto
      have "\<exists>p. Finalise_loop keys del ord (t\<lparr>stateObjectsDirty := insert b (stateObjectsDirty t)\<rparr>) = Inl p"
        using t Cons.prems Some by (intro Cons.IH) (auto simp: objects_placed_def)
      then show ?thesis using Inr Some by (simp add: removable_def)
    qed (use Some in \<open>simp add: removable_def\<close>)
  qed simp
qed simp

text \<open>C13: A zero transfer to the precompiled contract at address 3, undone by a revert, leaves the state in a
  form that cannot be finalised: the address stays in the set of dirty addresses without an object,
  and in every iteration order \<open>Finalise\<close> panics, because it reads the balance of the object before it
  checks that there is one.\<close>

theorem Finalise_ripemd_panics:
  assumes "good_state s" "stateObjects s ripemd = None" "strie s (addr_bytes ripemd) = Inr []"
    "dirties (jrnl s) ripemd = None" "Snapshot s = (i, s1)"
  shows "\<exists>t. RevertToSnapshot (AddBalance s1 ripemd 0) i = Inr t \<and> dirties (jrnl t) = (dirties (jrnl s))(ripemd \<mapsto> 1)
    \<and> (\<forall>keys ord del. set ord = dom (dirties (jrnl t)) \<longrightarrow> (\<exists>p. Finalise keys ord del t = Inl p))"
proof -
  let ?new = "setNonce 0 (newObject ripemd zero_Account)"
  let ?es = "[CreateObjectChange ripemd, TouchChange ripemd]"
  define u where "u = AddBalance s1 ripemd 0"
  have e: "so_empty ?new" by (simp add: so_empty_def setNonce_def newObject_def zero_Account_def Let_def)
  have s1: "stateObjects s1 = stateObjects s" "strie s1 = strie s" "jrnl s1 = jrnl s" using assms(5) by (auto simp: Snapshot_def)
  have u: "u = touch ?new (setStateObject ?new (add_journal (CreateObjectChange ripemd) s1))"
    using assms(2,3) s1 e
    by (simp add: u_def AddBalance_def update_object_def GetOrNewStateObject_def getStateObject_def createObject_def
        so_AddBalance_def Let_def)
  have j: "entries (jrnl u) = entries (jrnl s) @ ?es" "validRevisions u = validRevisions s1"
    "dirties (jrnl u) = (dirties (jrnl s))(ripemd \<mapsto> 3)" "stateObjects u = (stateObjects s)(ripemd \<mapsto> ?new)"
    using assms(4) s1
    by (simp_all add: u touch_def Let_def journal_append_def journal_dirty_def dirty_count_def add_journal_def)
  define v where "v = u\<lparr>stateObjects := stateObjects s, stateObjectsDirty := stateObjectsDirty u - {ripemd},
      jrnl := (jrnl u)\<lparr>dirties := (dirties (jrnl s))(ripemd \<mapsto> 1)\<rparr>\<rparr>"
  have "revert_loop (rev ?es) u = Inr v"
    using j(3,4) assms(2) by (simp add: v_def journal_undirty_def dirty_count_def Let_def fun_upd_idem)
  from RevertToSnapshot_last [OF assms(1,5) j(2,1) this] obtain es r where
    t: "RevertToSnapshot u i = Inr (v\<lparr>jrnl := (jrnl v)\<lparr>entries := es\<rparr>, validRevisions := r\<rparr>)" (is "_ = Inr ?t") by blast
  have p: "objects_placed ?t" using assms(1) by (auto simp: v_def objects_placed_def good_state_def state_inv_def)
  have d: "dirties (jrnl ?t) = (dirties (jrnl s))(ripemd \<mapsto> 1)" "stateObjects ?t ripemd = None"
    using assms(2) by (simp_all add: v_def)
  have "\<exists>p. Finalise keys ord del ?t = Inl p" if "set ord = dom (dirties (jrnl ?t))" for keys del ord
  proof -
    have "ripemd \<in> set ord" using that d(1) by simp
    from Finalise_loop_missing [OF p this d(2)] obtain q where "Finalise_loop keys del ord ?t = Inl q" by metis
    then show ?thesis by (simp add: Finalise_def)
  qed
  with t d(1) show ?thesis unfolding u_def by blast
qed

theorem Finalise_ripemd_panics_witness:
  "\<exists>s s1 t. state_New 0 empty_db = Inr s \<and> Snapshot s = (0, s1)
    \<and> RevertToSnapshot (AddBalance s1 ripemd 0) 0 = Inr t \<and> (\<exists>p. Finalise (\<lambda>_. []) [ripemd] True t = Inl p)"
proof -
  obtain s where s: "state_New 0 empty_db = Inr s" "good_state s" "nextRevisionId s = 0"
    "stateObjects s = Map.empty" "strie s = (\<lambda>_. Inr [])" "dirties (jrnl s) = Map.empty" by (rule empty_state)
  obtain s1 where s1: "Snapshot s = (0, s1)" using s(3) by (simp add: Snapshot_def)
  have "stateObjects s ripemd = None" "strie s (addr_bytes ripemd) = Inr []" "dirties (jrnl s) ripemd = None"
    using s by simp_all
  from Finalise_ripemd_panics [OF s(2) this s1] s(6) obtain t where
    t: "RevertToSnapshot (AddBalance s1 ripemd 0) 0 = Inr t" "dirties (jrnl t) = Map.empty(ripemd \<mapsto> 1)"
      "\<forall>keys ord del. set ord = dom (dirties (jrnl t)) \<longrightarrow> (\<exists>p. Finalise keys ord del t = Inl p)" by metis
  then have "\<exists>p. Finalise (\<lambda>_. []) [ripemd] True t = Inl p" by simp
  with s(1) s1 t(1) show ?thesis by blast
qed

lemma addr_bytes_inj [simp]: "addr_bytes a = addr_bytes b \<longleftrightarrow> a = b"
  by (metis addr_of_addr_bytes)

definition storable :: "account \<Rightarrow> bool" where
  "storable d \<longleftrightarrow> account_ok d \<and> length (spec_list (account_content d)) < 2 ^ 64"

lemma storable_Root [simp]: "storable (d\<lparr>Root := r\<rparr>) \<longleftrightarrow> storable d"
proof -
  have "length (spec_string (hash_bytes r)) = length (spec_string (hash_bytes r'))" for r r'
    by (simp add: spec_string_def spec_head_def)
  then have "length (account_content (d\<lparr>Root := r\<rparr>)) = length (account_content d)"
    by (simp add: account_content_def)
  then show ?thesis by (simp add: storable_def account_ok_def spec_list_def length_spec_head)
qed

lemma load_storable:
  "storable d \<Longrightarrow> tr (addr_bytes a) = Inr (spec_list (account_content d)) \<Longrightarrow> load tr a = Some (newObject a (raw_of d))"
  using account_decode [of "spec_list (account_content d)" d]
  by (simp add: storable_def load_def) (simp add: spec_list_def spec_head_neq_Nil)

definition complete :: "trie \<Rightarrow> bool" where
  "complete tr \<longleftrightarrow> (\<forall>k. \<exists>v. tr k = Inr v)"

text \<open>One account of \<open>Finalise\<close>: it is removed from the trie, or its new encoding is there.\<close>

lemma finalise_step:
  assumes "complete (strie s)" "so_address ob = a" "storable (so_data ob)"
  shows "\<exists>t ob1. (if removable del ob then Inr (deleteStateObject s ob)
      else (let ob1 = updateRoot (sdb s) ks ob in updateStateObject (write_object ob1 s) ob1)) = Inr t
    \<and> stateObjects t = (stateObjects s)(a \<mapsto> ob1) \<and> so_address ob1 = a
    \<and> (\<forall>b. b \<noteq> a \<longrightarrow> strie t (addr_bytes b) = strie s (addr_bytes b)) \<and> complete (strie t)
    \<and> (if removable del ob then deleted ob1 \<and> load (strie t) a = None
       else deleted ob1 = deleted ob \<and> load (strie t) a = Some (newObject a (raw_of (so_data ob1))))"
proof (cases "removable del ob")
  case True
  obtain v where "strie s (addr_bytes a) = Inr v" using assms(1) by (auto simp: complete_def)
  with True assms show ?thesis
    by (auto simp: deleteStateObject_def TryDelete_def Let_def complete_def load_def
        intro!: exI [of _ "ob\<lparr>deleted := True\<rparr>"])
next
  case False
  let ?ob = "updateRoot (sdb s) ks ob"
  obtain r where r: "so_data ?ob = (so_data ob)\<lparr>Root := r\<rparr>" using updateRoot_kept(3) by blast
  have st: "storable (so_data ?ob)" using r assms(3) by simp
  then have "EncodeToBytes (account_rlp (so_data ?ob)) = Inr (spec_list (account_content (so_data ?ob)))"
    by (simp add: storable_def account_encode)
  moreover obtain v where "strie s (addr_bytes a) = Inr v" using assms(1) by (auto simp: complete_def)
  ultimately have u: "\<exists>t. updateStateObject (write_object ?ob s) ?ob = Inr t \<and> stateObjects t = (stateObjects s)(a \<mapsto> ?ob)
      \<and> strie t = (strie s)(addr_bytes a := Inr (spec_list (account_content (so_data ?ob))))"
    using assms(2) updateRoot_kept(1) [of "sdb s" ks ob] by (simp add: updateStateObject_def TryUpdate_def)
  then obtain t where "updateStateObject (write_object ?ob s) ?ob = Inr t" "stateObjects t = (stateObjects s)(a \<mapsto> ?ob)"
      "strie t = (strie s)(addr_bytes a := Inr (spec_list (account_content (so_data ?ob))))" by blast
  with False assms updateRoot_kept(1,2) [of "sdb s" ks ob] load_storable [OF st, of "strie t" a] show ?thesis
    by (intro exI [of _ t] exI [of _ ?ob]) (auto simp: complete_def Let_def)
qed

definition persisted :: "bool \<Rightarrow> StateDB \<Rightarrow> StateDB \<Rightarrow> address \<Rightarrow> bool" where
  "persisted del s t a \<longleftrightarrow> (lookup t a = None \<longleftrightarrow> removable del (the (stateObjects s a)))
     \<and> map_option so_data (load (strie t) a) = map_option so_data (lookup t a)"

lemma load_cong: "tr (addr_bytes a) = tr' (addr_bytes a) \<Longrightarrow> load tr a = load tr' a"
  by (simp add: load_def)

lemma persisted_cong:
  "stateObjects t a = stateObjects t' a \<Longrightarrow> strie t (addr_bytes a) = strie t' (addr_bytes a)
    \<Longrightarrow> stateObjects s a = stateObjects s' a \<Longrightarrow> persisted del s t a = persisted del s' t' a"
  using load_cong [of "strie t" a "strie t'"] by (simp add: persisted_def lookup_def split: option.split)

lemma Finalise_loop_persists:
  assumes "objects_placed s" "complete (strie s)" "distinct ord"
    "\<forall>a\<in>set ord. \<exists>ob. stateObjects s a = Some ob \<and> \<not> deleted ob \<and> storable (so_data ob)"
  shows "\<exists>t. Finalise_loop keys del ord s = Inr t
    \<and> (\<forall>b. b \<notin> set ord \<longrightarrow> stateObjects t b = stateObjects s b \<and> strie t (addr_bytes b) = strie s (addr_bytes b))
    \<and> (\<forall>a\<in>set ord. persisted del s t a)"
  using assms
proof (induction ord arbitrary: s)
  case (Cons a ord)
  then obtain ob where ob: "stateObjects s a = Some ob" "\<not> deleted ob" "storable (so_data ob)" "so_address ob = a"
    by (auto simp: objects_placed_def)
  from finalise_step [OF Cons.prems(2) ob(4,3), of del "keys a"] obtain u ob1 where
    u: "(if removable del ob then Inr (deleteStateObject s ob)
      else (let ob1 = updateRoot (sdb s) (keys a) ob in updateStateObject (write_object ob1 s) ob1)) = Inr u"
    "stateObjects u = (stateObjects s)(a \<mapsto> ob1)" "so_address ob1 = a"
    "\<forall>b. b \<noteq> a \<longrightarrow> strie u (addr_bytes b) = strie s (addr_bytes b)" "complete (strie u)"
    "if removable del ob then deleted ob1 \<and> load (strie u) a = None
       else deleted ob1 = deleted ob \<and> load (strie u) a = Some (newObject a (raw_of (so_data ob1)))" by blast
  let ?u = "u\<lparr>stateObjectsDirty := insert a (stateObjectsDirty u)\<rparr>"
  have p: "persisted del s ?u a"
    using u(2,6) ob by (auto simp: persisted_def lookup_def newObject_raw_of split: if_splits)
  have "\<exists>t. Finalise_loop keys del ord ?u = Inr t
    \<and> (\<forall>b. b \<notin> set ord \<longrightarrow> stateObjects t b = stateObjects ?u b \<and> strie t (addr_bytes b) = strie ?u (addr_bytes b))
    \<and> (\<forall>a\<in>set ord. persisted del ?u t a)"
    using Cons.prems u by (intro Cons.IH) (auto simp: objects_placed_def)
  then obtain t where t: "Finalise_loop keys del ord ?u = Inr t"
    "\<And>b. b \<notin> set ord \<Longrightarrow> stateObjects t b = stateObjects ?u b \<and> strie t (addr_bytes b) = strie ?u (addr_bytes b)"
    "\<And>a. a \<in> set ord \<Longrightarrow> persisted del ?u t a" by blast
  have "persisted del s t a" using p persisted_cong [of t a ?u s s del] t(2) [of a] Cons.prems(3) by simp
  moreover have "persisted del s t b" if "b \<in> set ord" for b
  proof -
    have "b \<noteq> a" using that Cons.prems(3) by auto
    with persisted_cong [of t b t s ?u del] t(3) [OF that] u(2) show ?thesis by simp
  qed
  moreover have "Finalise_loop keys del (a # ord) s = Inr t" using t(1) u(1) ob(1) by (simp add: removable_def)
  ultimately show ?case using t(2) u(2,4) by auto
qed simp

text \<open>C6: Finalising writes every dirty account to the state trie: it returns, the journal is cleared, and a
  state opened on the resulting trie reads each of these accounts as the finalised state does. The
  accounts that are gone are those that were destroyed, or, if empty accounts are deleted, those that
  were empty.\<close>

theorem Finalise_persists:
  assumes "state_inv s" "complete (strie s)" "distinct ord"
    "\<forall>a\<in>set ord. \<exists>ob. stateObjects s a = Some ob \<and> \<not> deleted ob \<and> storable (so_data ob)"
  shows "\<exists>t. Finalise keys ord del s = Inr t \<and> jrnl t = newJournal \<and> validRevisions t = [] \<and> refund t = 0
    \<and> (\<forall>a\<in>set ord. (\<not> fst (Exist t a)) = removable del (the (stateObjects s a)))
    \<and> (\<forall>db rt u. OpenTrie db rt = Inr (strie t) \<longrightarrow> state_New rt db = Inr u
        \<longrightarrow> (\<forall>a\<in>set ord. fst (Exist u a) = fst (Exist t a) \<and> fst (GetAccountInfo u a) = fst (GetAccountInfo t a)))"
proof -
  have "objects_placed s" using assms(1) by (simp add: state_inv_def objects_placed_def)
  from Finalise_loop_persists [OF this assms(2-4), of keys del] obtain t where
    t: "Finalise_loop keys del ord s = Inr t" "\<And>a. a \<in> set ord \<Longrightarrow> persisted del s t a" by blast
  let ?t = "clearJournalAndRefund t"
  have l: "lookup ?t = lookup t" "strie ?t = strie t" by (auto simp: clearJournalAndRefund_def lookup_def fun_eq_iff split: option.split)
  have g: "fst (getStateObject v a) = lookup v a" for v a
    by (auto simp: getStateObject_def lookup_def load_def Let_def split: option.splits sum.splits if_splits)
  have ex: "fst (Exist v a) = (lookup v a \<noteq> None)" for v a
    using g [of v a] by (cases "getStateObject v a"; cases "lookup v a") (simp_all add: Exist_def read_object_def)
  have ai: "fst (GetAccountInfo v a) = (case lookup v a of
      None \<Rightarrow> zero_Account\<lparr>Balance := Some 0, Root := BytesToHash (keccak256 [])\<rparr> | Some ob \<Rightarrow> raw_of (so_data ob))" for v a
    using g [of v a] by (cases "getStateObject v a"; cases "lookup v a") (simp_all add: GetAccountInfo_def read_object_def)
  have "map_option so_data (lookup u a) = map_option so_data (lookup ?t a)"
    if "OpenTrie db rt = Inr (strie ?t)" "state_New rt db = Inr u" "a \<in> set ord" for db rt u a
    using that t(2) l by (auto simp: state_New_def lookup_def persisted_def)
  then have "fst (Exist u a) = fst (Exist ?t a) \<and> fst (GetAccountInfo u a) = fst (GetAccountInfo ?t a)"
    if "OpenTrie db rt = Inr (strie ?t)" "state_New rt db = Inr u" "a \<in> set ord" for db rt u a
    using that unfolding ex ai by (cases "lookup u a"; cases "lookup ?t a") fastforce+
  moreover have "(\<not> fst (Exist ?t a)) = removable del (the (stateObjects s a))" if "a \<in> set ord" for a
    using t(2) [OF that] l unfolding ex by (simp add: persisted_def)
  moreover have "Finalise keys ord del s = Inr ?t" using t(1) by (simp add: Finalise_def)
  ultimately show ?thesis by (intro exI [of _ ?t]) (auto simp: clearJournalAndRefund_def)
qed

lemma storable_fresh: "storable \<lparr>Nonce = 0, Balance = 100, Root = 0, CodeHash = emptyCodeHash, StakeBalance = 0, StakeUpdated = 0,
    Point = 0, BehindBalance = [], Penalty = 0, PenlatyUpdated = 0\<rparr>" (is "storable ?d")
proof -
  have "length (account_content ?d) = 74"
    by (simp add: account_content_def behind.enc_list_def spec_list_def spec_string_def spec_head_def emptyCodeHash_def
        length_keccak256 nat_bytes.simps [of 100] nat_bytes.simps [of 0])
  then show ?thesis
    by (simp add: storable_def account_ok_def spec_list_def spec_head_def nat_bytes.simps [of 74] nat_bytes.simps [of 0])
qed

theorem Finalise_persists_witness:
  "\<exists>s t. state_inv s \<and> stateObjects s 7 \<noteq> None \<and> Finalise (\<lambda>_. []) [7] False s = Inr t \<and> fst (Exist t 7)
    \<and> (\<exists>u. state_New 0 (empty_db\<lparr>OpenTrie := (\<lambda>_. Inr (strie t))\<rparr>) = Inr u
        \<and> fst (GetAccountInfo u 7) = fst (GetAccountInfo t 7))"
proof -
  obtain s0 where s0: "state_New 0 empty_db = Inr s0" "good_state s0" "stateObjects s0 = Map.empty"
    "strie s0 = (\<lambda>_. Inr [])" by (rule empty_state)
  define s where "s = AddBalance s0 7 100"
  have "good_state s" using apply_op_good [OF s0(2), of "OpAddBalance 7 100" s] by (simp add: s_def)
  then have inv: "state_inv s" by (simp add: good_state_def)
  have s: "strie s = (\<lambda>_. Inr [])"
    "\<exists>ob. stateObjects s 7 = Some ob \<and> \<not> deleted ob \<and> storable (so_data ob) \<and> \<not> removable False ob"
    using s0(3,4) storable_fresh
    by (auto simp: s_def AddBalance_def update_object_def GetOrNewStateObject_def getStateObject_def createObject_def
        Let_def setNonce_def add_journal_def setStateObject_def so_AddBalance_def so_SetBalance_def setBalance_def
        newObject_def zero_Account_def removable_def)
  have c: "complete (strie s)" using s(1) by (simp add: complete_def)
  have o7: "\<forall>a\<in>set [7]. \<exists>ob. stateObjects s a = Some ob \<and> \<not> deleted ob \<and> storable (so_data ob)" using s(2) by auto
  have "distinct [7 :: address]" by simp
  from Finalise_persists [OF inv c this o7, of "\<lambda>_. []" False] obtain t where
    t: "Finalise (\<lambda>_. []) [7] False s = Inr t" "(\<not> fst (Exist t 7)) = removable False (the (stateObjects s 7))"
    "\<And>db rt u. OpenTrie db rt = Inr (strie t) \<Longrightarrow> state_New rt db = Inr u \<Longrightarrow> fst (GetAccountInfo u 7) = fst (GetAccountInfo t 7)"
    by auto
  let ?db = "empty_db\<lparr>OpenTrie := (\<lambda>_. Inr (strie t))\<rparr>"
  obtain u where u: "state_New 0 ?db = Inr u" by (simp add: state_New_def)
  have "fst (GetAccountInfo u 7) = fst (GetAccountInfo t 7)" using t(3) [of ?db 0 u] u by simp
  with inv s(2) t(1,2) u show ?thesis by auto
qed

end
