(* ===== verification/Block_Types.thy ===== *)
theory Block_Types
  imports State_Finalise Chain_Params
begin

text \<open>
  Headers, blocks and transactions, \<open>core/types/block.go\<close>, \<open>transaction.go\<close> and \<open>jobwallet.go\<close>.

  The number of a header that comes from outside may be nil, so the record is parametric in its type;
  a header inside the node has one. Recovering the sender of a transaction needs the elliptic curve
  library; \<open>Sender\<close> is a parameter. The roots of the transaction and receipt tries and the bloom filter
  are parameters of \<open>NewBlock\<close>.
\<close>

subsection \<open>Headers\<close>

type_synonym BlockNonce = "byte list"

definition EncodeNonce :: "u64 \<Rightarrow> BlockNonce" where
  "EncodeNonce i = be_bytes 8 (unat i)"

definition nonce_Uint64 :: "BlockNonce \<Rightarrow> u64" where
  "nonce_Uint64 n = of_nat (be_value n)"

record 'n Header =
  hParentHash :: hash
  hUncleHash :: hash
  hCoinbase :: address
  hRoot :: hash
  hTxHash :: hash
  hReceiptHash :: hash
  hBloom :: "byte list"
  hDifficulty :: int
  hNumber :: 'n
  hGasLimit :: u64
  hGasUsed :: u64
  hTime :: int
  hExtra :: "byte list"
  hMixDigest :: hash
  hNonce :: BlockNonce

type_synonym raw_header = "int option Header"
type_synonym header = "int Header"

definition with_number :: "raw_header \<Rightarrow> int \<Rightarrow> header" where
  "with_number h n =
     \<lparr>hParentHash = hParentHash h, hUncleHash = hUncleHash h, hCoinbase = hCoinbase h, hRoot = hRoot h,
      hTxHash = hTxHash h, hReceiptHash = hReceiptHash h, hBloom = hBloom h, hDifficulty = hDifficulty h,
      hNumber = n, hGasLimit = hGasLimit h, hGasUsed = hGasUsed h, hTime = hTime h, hExtra = hExtra h,
      hMixDigest = hMixDigest h, hNonce = hNonce h\<rparr>"

definition header_rlp :: "header \<Rightarrow> rlp_value" where
  "header_rlp h =
     VList [VBytes (hash_bytes (hParentHash h)), VBytes (hash_bytes (hUncleHash h)), VBytes (addr_bytes (hCoinbase h)),
       VBytes (hash_bytes (hRoot h)), VBytes (hash_bytes (hTxHash h)), VBytes (hash_bytes (hReceiptHash h)),
       VBytes (hBloom h), VBigInt (Some (hDifficulty h)), VBigInt (Some (hNumber h)), VUint (hGasLimit h),
       VUint (hGasUsed h), VBigInt (Some (hTime h)), VBytes (hExtra h), VBytes (hash_bytes (hMixDigest h)),
       VBytes (hNonce h)]"

text \<open>An encoding error is ignored; then nothing has been written to the hash.\<close>

definition rlpHash :: "rlp_value \<Rightarrow> hash" where
  "rlpHash v = BytesToHash (keccak256 (case EncodeToBytes v of Inl _ \<Rightarrow> [] | Inr b \<Rightarrow> b))"

definition header_Hash :: "header \<Rightarrow> hash" where
  "header_Hash h = rlpHash (header_rlp h)"

definition CalcUncleHash :: "header list \<Rightarrow> hash" where
  "CalcUncleHash uncles = rlpHash (VList (map header_rlp uncles))"

definition CopyHeader :: "header \<Rightarrow> header" where
  "CopyHeader h = h"

subsection \<open>Transactions\<close>

type_synonym JobWallet = "8 word"

definition jw_Main :: JobWallet where "jw_Main = 1"
definition jw_Stake :: JobWallet where "jw_Stake = 2"
definition jw_end :: JobWallet where "jw_end = 3"

definition ValidateJobWallet :: "JobWallet \<Rightarrow> JobWallet \<Rightarrow> bool" where
  "ValidateJobWallet base target \<longleftrightarrow>
     \<not> (base = 0 \<or> jw_end \<le> base) \<and> \<not> (target = 0 \<or> jw_end \<le> target)
     \<and> \<not> (base = jw_Stake \<and> target = jw_Stake)"

definition jobwallet_String :: "JobWallet \<Rightarrow> string" where
  "jobwallet_String m = [''main'', ''stake''] ! unat ((m - 1) mod 2)"

definition ConvertJobWallet :: "string \<Rightarrow> JobWallet" where
  "ConvertJobWallet s = (if s = ''main'' then jw_Main else if s = ''stake'' then jw_Stake else jw_Main)"

record Transaction =
  AccountNonce :: u64
  Price :: int
  tx_GasLimit :: u64
  Recipient :: "address option"
  Amount :: int
  Payload :: "byte list"
  tx_Base :: JobWallet
  tx_Target :: JobWallet
  tx_V :: int
  tx_R :: int
  tx_S :: int

definition newTransaction ::
  "u64 \<Rightarrow> address option \<Rightarrow> int option \<Rightarrow> u64 \<Rightarrow> int option \<Rightarrow> byte list \<Rightarrow> JobWallet \<Rightarrow> JobWallet \<Rightarrow> Transaction" where
  "newTransaction n to amount gasLimit gasPrice d base target =
     \<lparr>AccountNonce = n, Price = (case gasPrice of None \<Rightarrow> 0 | Some p \<Rightarrow> p), tx_GasLimit = gasLimit, Recipient = to,
      Amount = (case amount of None \<Rightarrow> 0 | Some x \<Rightarrow> x), Payload = d, tx_Base = base, tx_Target = target,
      tx_V = 0, tx_R = 0, tx_S = 0\<rparr>"

record Message =
  msg_to :: "address option"
  msg_from :: address
  msg_nonce :: u64
  msg_amount :: int
  msg_gasLimit :: u64
  msg_gasPrice :: int
  msg_data :: "byte list"
  msg_checkNonce :: bool
  msg_base :: JobWallet
  msg_target :: JobWallet

definition NewMessage ::
  "address \<Rightarrow> address option \<Rightarrow> u64 \<Rightarrow> int \<Rightarrow> u64 \<Rightarrow> int \<Rightarrow> byte list \<Rightarrow> bool \<Rightarrow> Message" where
  "NewMessage from to n amount gasLimit gasPrice d checkNonce =
     \<lparr>msg_to = to, msg_from = from, msg_nonce = n, msg_amount = amount, msg_gasLimit = gasLimit,
      msg_gasPrice = gasPrice, msg_data = d, msg_checkNonce = checkNonce, msg_base = jw_Main, msg_target = jw_Main\<rparr>"

definition AsMessage :: "(Transaction \<Rightarrow> string + address) \<Rightarrow> Transaction \<Rightarrow> string + Message" where
  "AsMessage Sender tx =
     (case Sender tx of
        Inl err \<Rightarrow> Inl err
      | Inr from \<Rightarrow> Inr
          \<lparr>msg_to = Recipient tx, msg_from = from, msg_nonce = AccountNonce tx, msg_amount = Amount tx,
           msg_gasLimit = tx_GasLimit tx, msg_gasPrice = Price tx, msg_data = Payload tx, msg_checkNonce = True,
           msg_base = tx_Base tx, msg_target = tx_Target tx\<rparr>)"

subsection \<open>Blocks\<close>

record Block =
  blk_header :: header
  blk_uncles :: "header list"
  blk_transactions :: "Transaction list"

record Receipt =
  PostState :: "byte list"
  receipt_Status :: u64
  CumulativeGasUsed :: u64
  receipt_Bloom :: "byte list"
  receipt_Logs :: "Log list"
  receipt_TxHash :: hash
  ContractAddress :: address
  receipt_GasUsed :: u64

record block_roots =
  DeriveSha_txs :: "Transaction list \<Rightarrow> hash"
  DeriveSha_receipts :: "Receipt list \<Rightarrow> hash"
  CreateBloom :: "Receipt list \<Rightarrow> byte list"

definition NewBlock ::
  "block_roots \<Rightarrow> header \<Rightarrow> Transaction list \<Rightarrow> header list \<Rightarrow> Receipt list \<Rightarrow> Block" where
  "NewBlock rt header txs uncles receipts =
     (let h1 = (CopyHeader header)\<lparr>hTxHash := DeriveSha_txs rt (if txs = [] then [] else txs)\<rparr>;
          h2 = (if receipts = [] then h1\<lparr>hReceiptHash := DeriveSha_txs rt []\<rparr>
                else h1\<lparr>hReceiptHash := DeriveSha_receipts rt receipts, hBloom := CreateBloom rt receipts\<rparr>);
          h3 = h2\<lparr>hUncleHash := CalcUncleHash uncles\<rparr>
      in \<lparr>blk_header = h3, blk_uncles = map CopyHeader uncles, blk_transactions = txs\<rparr>)"

definition WithSeal :: "Block \<Rightarrow> header \<Rightarrow> Block" where
  "WithSeal b header = b\<lparr>blk_header := header\<rparr>"

subsection \<open>Lemmas\<close>

lemma nonce_Uint64_EncodeNonce [simp]: "nonce_Uint64 (EncodeNonce i) = i"
proof -
  have "unat i < 2 ^ LENGTH(64)" by (rule unsigned_less)
  then show ?thesis by (simp add: nonce_Uint64_def EncodeNonce_def be_value_be_bytes)
qed

lemma length_EncodeNonce [simp]: "length (EncodeNonce i) = 8"
  by (simp add: EncodeNonce_def length_be_bytes)

lemma ConvertJobWallet_String:
  "ValidateJobWallet m m' \<Longrightarrow> ConvertJobWallet (jobwallet_String m) = m"
proof -
  assume "ValidateJobWallet m m'"
  then have "unat m < 3" "unat m \<noteq> 0"
    by (auto simp: ValidateJobWallet_def jw_end_def word_le_nat_alt unat_eq_0)
  then consider "unat m = 1" | "unat m = 2" by linarith
  then have "(of_nat (unat m) :: JobWallet) = 1 \<or> (of_nat (unat m) :: JobWallet) = 2"
    by cases (simp_all only: of_nat_1 of_nat_numeral simp_thms)
  then have "m = 1 \<or> m = 2" by simp
  then show ?thesis by (auto simp: ConvertJobWallet_def jobwallet_String_def jw_Main_def jw_Stake_def)
qed

end
