(* ===== verification/Bsrr_Rules.thy ===== *)
theory Bsrr_Rules
  imports Block_Types Rank_Group Selection
begin

text \<open>
  The rules of the consensus engine \<open>consensus/bsrr/berith.go\<close> that read headers and the configuration
  only: the configuration of the engine, the seal hash and the author of a header, the verification of
  headers, the block whose stakers decide who may create a block, delays and rewards.

  The interface \<open>ChainReader\<close> is a record of its functions. The clock is an argument. The recovery of a
  public key from a signature, \<open>Ecrecover\<close>, is a parameter, and so is the insertion into the ARC cache
  of signatures, \<open>arc_Add\<close>, which may drop entries.
\<close>

datatype consensus_error =
    errUnknownBlock | errMissingVanity | errMissingSignature | errExtraSigners | errInvalidCheckpointSigners
  | errInvalidMixDigest | errInvalidUncleHash | errInvalidDifficulty | ErrInvalidTimestamp
  | errUnauthorizedSigner | errInvalidNonce | errStakingList | errMissingState | errCleanStakingDB | errBIP1
  | ErrUnknownAncestor | ErrFutureBlock | errForkHash | errUnclesNotAllowed | errGroup group_error | errDB db_error
  | errOther string

record ChainReader =
  chain_Config :: ChainConfig
  chain_GetHeader :: "hash \<Rightarrow> u64 \<Rightarrow> header option"
  chain_GetHeaderByNumber :: "u64 \<Rightarrow> header option"
  chain_GetBlock :: "hash \<Rightarrow> u64 \<Rightarrow> Block option"
  chain_StateAt :: "hash \<Rightarrow> string + StateDB"
  chain_HasBlockAndState :: "hash \<Rightarrow> u64 \<Rightarrow> bool"

text \<open>The cache of stakers holds texts that \<open>json.Marshal\<close> wrote for a map: JSON objects, here the list of
  their keys.\<close>

type_synonym json_object = "string list"

record BSRR =
  bconfig :: BSRRConfig
  bstakingDB :: StakingDB
  bcache :: "hash \<rightharpoonup> json_object"
  bsignatures :: "hash \<rightharpoonup> address"
  bsigner :: address

definition termDelay :: int where "termDelay = 100000000"
definition groupDelay :: int where "groupDelay = 1000000000"
definition RewardBlock :: int where "RewardBlock = 500"
definition bsrr_SlashRound :: u64 where "bsrr_SlashRound = 2"
definition bsrr_ForkFactor :: rat where "bsrr_ForkFactor = 1"
definition epochLength :: u64 where "epochLength = 360"
definition extraVanity :: nat where "extraVanity = 32"
definition extraSeal :: nat where "extraSeal = 65"
definition uncleHash :: hash where "uncleHash = CalcUncleHash []"
definition diffWithoutStaker :: int where "diffWithoutStaker = 1234"

text \<open>The test for a zero slash round inside the branch for a non-zero one can never succeed.\<close>

definition bsrr_New :: "BSRRConfig \<Rightarrow> StakingDB \<Rightarrow> BSRR" where
  "bsrr_New config db =
     (let c1 = (if Epoch config = 0 then config\<lparr>Epoch := epochLength\<rparr> else config);
          c2 = (case Rewards c1 of
                  Some r \<Rightarrow> if r = 0 then c1\<lparr>Rewards := Some RewardBlock\<rparr> else c1
                | None \<Rightarrow> c1\<lparr>Rewards := Some RewardBlock\<rparr>);
          c3 = (if StakeMinimum c2 = None \<or> StakeMinimum c2 = Some 0
                then c2\<lparr>StakeMinimum := Some params_StakeMinimum\<rparr> else c2);
          c4 = (if LimitStakeBalance c3 = None \<or> LimitStakeBalance c3 = Some 0
                then c3\<lparr>LimitStakeBalance := Some params_LimitStakeBalance\<rparr> else c3);
          c5 = (if SlashRound c4 \<noteq> 0 then (if SlashRound c4 = 0 then c4\<lparr>SlashRound := 1\<rparr> else c4)
                else c4\<lparr>SlashRound := bsrr_SlashRound\<rparr>);
          c6 = (if ForkFactor c5 \<le> 0 \<or> 1 < ForkFactor c5 then c5\<lparr>ForkFactor := bsrr_ForkFactor\<rparr> else c5)
      in \<lparr>bconfig = c6, bstakingDB = db, bcache = Map.empty, bsignatures = Map.empty, bsigner = 0\<rparr>)"

definition Authorize :: "BSRR \<Rightarrow> address \<Rightarrow> BSRR" where
  "Authorize c signer = c\<lparr>bsigner := signer\<rparr>"

subsection \<open>The author of a header\<close>

definition sigHash :: "header \<Rightarrow> hash run" where
  "sigHash h =
     (if length (hExtra h) < 65 then Inl (Panicked ''slice bounds out of range'')
      else Inr (rlpHash (VList
        [VBytes (hash_bytes (hParentHash h)), VBytes (hash_bytes (hUncleHash h)), VBytes (addr_bytes (hCoinbase h)),
         VBytes (hash_bytes (hRoot h)), VBytes (hash_bytes (hTxHash h)), VBytes (hash_bytes (hReceiptHash h)),
         VBytes (hBloom h), VBigInt (Some (hDifficulty h)), VBigInt (Some (hNumber h)), VUint (hGasLimit h),
         VUint (hGasUsed h), VBigInt (Some (hTime h)), VBytes (take (length (hExtra h) - 65) (hExtra h)),
         VBytes (hash_bytes (hMixDigest h)), VBytes (hNonce h)])))"

definition SealHash :: "header \<Rightarrow> hash run" where
  "SealHash h = sigHash h"

definition ecrecover ::
  "(byte list \<Rightarrow> byte list \<Rightarrow> string + byte list) \<Rightarrow> ((hash \<rightharpoonup> address) \<Rightarrow> hash \<Rightarrow> address \<Rightarrow> (hash \<rightharpoonup> address))
    \<Rightarrow> header \<Rightarrow> (hash \<rightharpoonup> address) \<Rightarrow> ((consensus_error + address) \<times> (hash \<rightharpoonup> address)) run" where
  "ecrecover Ecrecover arc_Add h sigcache =
     (case sigcache (header_Hash h) of
        Some a \<Rightarrow> Inr (Inr a, sigcache)
      | None \<Rightarrow>
          if length (hExtra h) < extraSeal then Inr (Inl errMissingSignature, sigcache)
          else
            (let signature = drop (length (hExtra h) - extraSeal) (hExtra h) in
             bind_run (sigHash h) (\<lambda>sh.
             (case Ecrecover (hash_bytes sh) signature of
                Inl err \<Rightarrow> Inr (Inl (errOther err), sigcache)
              | Inr pubkey \<Rightarrow>
                  if pubkey = [] then Inl (Panicked ''slice bounds out of range'')
                  else
                    (let signer = addr_of_bytes (drop 12 (keccak256 (tl pubkey)))
                     in Inr (Inr signer, arc_Add sigcache (header_Hash h) signer))))))"

definition Author ::
  "(byte list \<Rightarrow> byte list \<Rightarrow> string + byte list) \<Rightarrow> ((hash \<rightharpoonup> address) \<Rightarrow> hash \<Rightarrow> address \<Rightarrow> (hash \<rightharpoonup> address))
    \<Rightarrow> BSRR \<Rightarrow> header \<Rightarrow> ((consensus_error + address) \<times> BSRR) run" where
  "Author Ecrecover arc_Add c h =
     bind_run (ecrecover Ecrecover arc_Add h (bsignatures c)) (\<lambda>(r, sigs). Inr (r, c\<lparr>bsignatures := sigs\<rparr>))"

subsection \<open>Verification of headers\<close>

text \<open>A verification returns \<open>None\<close> for nil and an error otherwise.\<close>

definition VerifyForkHashes :: "ChainConfig \<Rightarrow> header \<Rightarrow> bool \<Rightarrow> consensus_error option" where
  "VerifyForkHashes config h uncle =
     (if uncle then None
      else if EIP150Block config = Some (hNumber h) \<and> EIP150Hash config \<noteq> 0 \<and> EIP150Hash config \<noteq> header_Hash h
      then Some errForkHash else None)"

definition verifySeal :: "BSRR \<Rightarrow> ChainReader \<Rightarrow> header \<Rightarrow> header list \<Rightarrow> consensus_error option" where
  "verifySeal c chain h parents = (if big_Uint64 (hNumber h) = 0 then Some errUnknownBlock else None)"

definition VerifySeal :: "BSRR \<Rightarrow> ChainReader \<Rightarrow> header \<Rightarrow> consensus_error option" where
  "VerifySeal c chain h = verifySeal c chain h []"

definition verifyCascadingFields :: "BSRR \<Rightarrow> ChainReader \<Rightarrow> header \<Rightarrow> header list \<Rightarrow> consensus_error option" where
  "verifyCascadingFields c chain h parents =
     (let number = big_Uint64 (hNumber h) in
      if number = 0 then None
      else
        (case (if parents \<noteq> [] then Some (last parents) else chain_GetHeader chain (hParentHash h) (number - 1)) of
           None \<Rightarrow> Some ErrUnknownAncestor
         | Some parent \<Rightarrow>
             if big_Uint64 (hNumber parent) \<noteq> number - 1 \<or> header_Hash parent \<noteq> hParentHash h
             then Some ErrUnknownAncestor
             else if big_Uint64 (hTime h) < big_Uint64 (hTime parent) + Period (bconfig c)
             then Some ErrInvalidTimestamp
             else verifySeal c chain h parents))"

definition verifyHeader ::
  "BSRR \<Rightarrow> ChainReader \<Rightarrow> int \<Rightarrow> raw_header \<Rightarrow> header list \<Rightarrow> consensus_error option run" where
  "verifyHeader c chain now raw parents =
     (case hNumber raw of
        None \<Rightarrow> Inr (Some errUnknownBlock)
      | Some n \<Rightarrow>
          (let h = with_number raw n; number = big_Uint64 n in
           if now < hTime h then Inr (Some ErrFutureBlock)
           else if Epoch (bconfig c) = 0 then Inl DivideByZero
           else
             (let checkpoint = (number mod Epoch (bconfig c) = 0);
                  signersBytes = int (length (hExtra h)) - int extraVanity - int extraSeal in
              Inr (if length (hExtra h) < extraVanity then Some errMissingVanity
                   else if length (hExtra h) < extraVanity + extraSeal then Some errMissingSignature
                   else if \<not> checkpoint \<and> signersBytes \<noteq> 0 then Some errExtraSigners
                   else if checkpoint \<and> signersBytes mod 20 \<noteq> 0 then Some errInvalidCheckpointSigners
                   else if hMixDigest h \<noteq> 0 then Some errInvalidMixDigest
                   else if hUncleHash h \<noteq> uncleHash then Some errInvalidUncleHash
                   else if number > 0 \<and> nonce_Uint64 (hNonce h) < 1 then Some errInvalidNonce
                   else
                     (case VerifyForkHashes (chain_Config chain) h False of
                        Some err \<Rightarrow> Some err
                      | None \<Rightarrow> verifyCascadingFields c chain h parents)))))"

definition VerifyHeader :: "BSRR \<Rightarrow> ChainReader \<Rightarrow> int \<Rightarrow> raw_header \<Rightarrow> consensus_error option run" where
  "VerifyHeader c chain now h = verifyHeader c chain now h []"

definition raw_header_of :: "header \<Rightarrow> raw_header" where
  "raw_header_of h =
     \<lparr>hParentHash = hParentHash h, hUncleHash = hUncleHash h, hCoinbase = hCoinbase h, hRoot = hRoot h,
      hTxHash = hTxHash h, hReceiptHash = hReceiptHash h, hBloom = hBloom h, hDifficulty = hDifficulty h,
      hNumber = Some (hNumber h), hGasLimit = hGasLimit h, hGasUsed = hGasUsed h, hTime = hTime h, hExtra = hExtra h,
      hMixDigest = hMixDigest h, hNonce = hNonce h\<rparr>"

text \<open>The batch verification sends one result per header, in order; the parents of a header are the
  headers before it in the batch. Stopping early is left out: it only cuts the results short.\<close>

definition VerifyHeaders ::
  "BSRR \<Rightarrow> ChainReader \<Rightarrow> int \<Rightarrow> header list \<Rightarrow> consensus_error option run list" where
  "VerifyHeaders c chain now hs =
     map (\<lambda>i. verifyHeader c chain now (raw_header_of (hs ! i)) (take i hs)) [0..<length hs]"

definition VerifyUncles :: "Block \<Rightarrow> consensus_error option" where
  "VerifyUncles b = (if length (blk_uncles b) > 0 then Some errUnclesNotAllowed else None)"

subsection \<open>The block that decides who may create\<close>

text \<open>A header that is found with its state is \<open>Some\<close>; every result whose flag is false is \<open>None\<close>, because no
  caller reads the header then.\<close>

partial_function (option) getAncestor_loop :: "ChainReader \<Rightarrow> int \<Rightarrow> header option \<Rightarrow> header option option" where
  "getAncestor_loop chain targetNumber target =
     (case target of
        None \<Rightarrow> Some None
      | Some t \<Rightarrow>
          if 0 < hNumber t \<and> targetNumber < hNumber t
          then getAncestor_loop chain targetNumber
                 (chain_GetHeader chain (hParentHash t) (big_Uint64 (hNumber t) - 1))
          else Some (Some t))"

declare getAncestor_loop.simps [code]

definition getAncestor :: "ChainReader \<Rightarrow> int \<Rightarrow> header \<Rightarrow> header option loop" where
  "getAncestor chain n h =
     (case getAncestor_loop chain (hNumber h - n) (Some h) of
        None \<Rightarrow> None
      | Some None \<Rightarrow> Some (Inr None)
      | Some (Some t) \<Rightarrow>
          Some (Inr (if chain_HasBlockAndState chain (header_Hash t) (big_Uint64 (hNumber t)) then Some t else None)))"

definition getStakeTargetBlock :: "BSRR \<Rightarrow> ChainReader \<Rightarrow> header option \<Rightarrow> header option loop" where
  "getStakeTargetBlock c chain parent =
     (case parent of
        None \<Rightarrow> Some (Inr None)
      | Some p \<Rightarrow>
          if Epoch (bconfig c) = 0 then Some (Inl DivideByZero)
          else
            (let d = big_Uint64 (hNumber p) div Epoch (bconfig c) in
             if d > 1 then getAncestor chain (sint (Epoch (bconfig c))) p
             else
               (let targetNumber = (if d = 0 then 0 else Epoch (bconfig c)) in
                Some (Inr
                  (case chain_GetHeaderByNumber chain targetNumber of
                     None \<Rightarrow> None
                   | Some t \<Rightarrow> if chain_HasBlockAndState chain (header_Hash t) targetNumber then Some t else None)))))"

subsection \<open>Delays and rewards\<close>

definition getDelay :: "int \<Rightarrow> consensus_error + int" where
  "getDelay rank =
     (if rank \<le> 1 then Inr 0
      else
        (case GetGroupOrder rankGroup rank of
           Inl err \<Rightarrow> Inl (errGroup err)
         | Inr groupOrder \<Rightarrow>
             (let delay = int64 (int64 (groupOrder - 1) * groupDelay) in
              case GetGroupRange rankGroup groupOrder of
                Inl err \<Rightarrow> Inl (errGroup err)
              | Inr (startRank, _) \<Rightarrow> Inr (int64 (delay + int64 (int64 (rank - startRank) * termDelay))))))"

definition getReward :: "ChainConfig \<Rightarrow> header \<Rightarrow> int run" where
  "getReward config h =
     (case Rewards (Bsrr config) of
        None \<Rightarrow> Inl NilDereference
      | Some rewards \<Rightarrow>
          (let number = big_Uint64 (hNumber h) in
           if number < big_Uint64 rewards then Inr 0
           else
             (let correctionValue = f64_div (f64_of_int (uint (Period (Bsrr config)))) (of_int DefaultBlockCreationSec);
                  correctedBlockNumber = f64_mul (f64_of_int (uint number)) correctionValue;
                  addtional = (if correctedBlockNumber \<le> 3150000 then 5 else 0);
                  reward = f64_mul
                    (f64_add (f64_sub 26 (f64_mul (go_round (f64_div correctedBlockNumber 7370000)) (1 / 2))) addtional)
                    correctionValue
              in if reward \<le> 0 then Inr 0
                 else
                   (let temp = f64_mul reward 10000000000 in
                    if 2 ^ 63 \<le> temp then Inl UnspecifiedConversion
                    else Inr (go_trunc temp * 100000000)))))"

definition getMaxMiningCandidates :: "BSRR \<Rightarrow> int \<Rightarrow> int" where
  "getMaxMiningCandidates c holders =
     (if holders = 0 then 0
      else
        (let t = go_trunc (go_round (f64_mul (ForkFactor (bconfig c)) (f64_of_int holders)));
             t = (if t = 0 then 1 else t)
         in if MaxMiner < t then MaxMiner else t))"

subsection \<open>Signers in the extra data\<close>

definition getSignersFromExtraData :: "header \<Rightarrow> consensus_error + address list" where
  "getSignersFromExtraData h =
     (let l = int (length (hExtra h)) - int extraVanity - int extraSeal;
          n = (if l < 0 then - (- l div 20) else l div 20)
      in if n < 1 then Inl errExtraSigners
         else Inr (map (\<lambda>i. addr_of_bytes (take 20 (drop (extraVanity + i * 20) (hExtra h)))) [0..<nat n]))"

subsection \<open>Properties of the delay\<close>

lemma rank_group:
  assumes "1 \<le> r" "r \<le> 2 ^ 33"
  obtains g s e where "GetGroupOrder rankGroup r = Inr g" "GetGroupRange rankGroup g = Inr (s, e)"
    "1 \<le> g" "g \<le> r" "s \<le> r" "r - s \<le> 2" "e - s \<le> 2"
proof (cases "r = 1")
  case True
  with that show ?thesis by (simp add: GetGroupOrder_def GetGroupRange_def)
next
  case False
  have "(r - 2) div 3 * 3 \<le> r - 2" "r - 2 < (r - 2) div 3 * 3 + 3" using pos_mod_bound [of 3 "r - 2"] by presburger+
  with False assms that [of "(r - 2) div 3 + 2"] GetGroupOrder_exact [of r 3 rankGroup]
    GetGroupRange_of_rank [of r 3 rankGroup] show ?thesis by (simp add: rankGroup_def)
qed

lemma getDelay_group:
  assumes "1 \<le> r" "r \<le> 2 ^ 33" "GetGroupOrder rankGroup r = Inr g" "GetGroupRange rankGroup g = Inr (s, e)"
    "1 \<le> g" "g \<le> r" "s \<le> r" "r - s \<le> 2"
  shows "getDelay r = Inr ((g - 1) * groupDelay + (r - s) * termDelay)"
proof (cases "r = 1")
  case True
  with assms(3,4) show ?thesis by (simp add: GetGroupOrder_def GetGroupRange_def getDelay_def)
next
  case False
  have b: "0 \<le> (g - 1) * groupDelay" "(g - 1) * groupDelay \<le> 2 ^ 33 * 1000000000" "0 \<le> (r - s) * termDelay"
    "(r - s) * termDelay \<le> 200000000"
    using assms by (auto simp: groupDelay_def termDelay_def)
  then have "int64 (int64 (g - 1) * groupDelay) = (g - 1) * groupDelay"
    "int64 (int64 (r - s) * termDelay) = (r - s) * termDelay"
    "int64 ((g - 1) * groupDelay + (r - s) * termDelay) = (g - 1) * groupDelay + (r - s) * termDelay"
    using assms by (simp_all add: int64_idn)
  with False assms show ?thesis by (simp add: getDelay_def Let_def)
qed

lemma getDelay_next:
  assumes "1 \<le> r" "r < 2 ^ 33"
  shows "\<exists>d d'. getDelay r = Inr d \<and> getDelay (r + 1) = Inr d' \<and> d < d'"
proof -
  have r: "r \<le> 2 ^ 33" "1 \<le> r + 1" "r + 1 \<le> 2 ^ 33" using assms by auto
  obtain g s e where g: "GetGroupOrder rankGroup r = Inr g" "GetGroupRange rankGroup g = Inr (s, e)"
    "1 \<le> g" "g \<le> r" "s \<le> r" "r - s \<le> 2" "e - s \<le> 2" using rank_group [OF assms(1) r(1)] by metis
  obtain h s' e' where h: "GetGroupOrder rankGroup (r + 1) = Inr h" "GetGroupRange rankGroup h = Inr (s', e')"
    "1 \<le> h" "h \<le> r + 1" "s' \<le> r + 1" "r + 1 - s' \<le> 2" using rank_group [OF r(2,3)] by metis
  have "(g - 1) * groupDelay + (r - s) * termDelay < (h - 1) * groupDelay + (r + 1 - s') * termDelay"
    using rank3.next_delay [OF assms(1) _ g(1,2) h(1,2), where width = 3 and gd = groupDelay and td = termDelay] assms(2) g(7)
    by (simp add: groupDelay_def termDelay_def)
  with getDelay_group [OF _ _ g(1-6)] getDelay_group [OF _ _ h] assms show ?thesis by simp
qed

text \<open>C34: The delay before sealing grows strictly with the rank, starting from zero: a better ranked block
  creator is never slower than a worse ranked one, over all ranks up to 2^33.\<close>

theorem getDelay_increasing:
  assumes "1 \<le> r" "r < r'" "r' \<le> 2 ^ 33"
  shows "\<exists>d d'. getDelay r = Inr d \<and> getDelay r' = Inr d' \<and> 0 \<le> d \<and> d < d'"
proof -
  have nn: "\<exists>d. getDelay r = Inr d \<and> 0 \<le> d" if r: "1 \<le> r" "r \<le> 2 ^ 33" for r
  proof -
    obtain g s e where "GetGroupOrder rankGroup r = Inr g" "GetGroupRange rankGroup g = Inr (s, e)"
      "1 \<le> g" "g \<le> r" "s \<le> r" "r - s \<le> 2" using rank_group [OF r] by metis
    with getDelay_group [OF r] show ?thesis by (auto simp: groupDelay_def termDelay_def)
  qed
  have "r' \<le> 2 ^ 33 \<longrightarrow> (\<exists>d d'. getDelay r = Inr d \<and> getDelay r' = Inr d' \<and> d < d')"
    using assms(2)
  proof (induction r' rule: int_gr_induct)
    case base
    with getDelay_next [OF assms(1)] show ?case by auto
  next
    case (step i)
    with getDelay_next [of i] assms(1) show ?case by fastforce
  qed
  with assms nn [of r] show ?thesis by fastforce
qed

theorem getDelay_increasing_witness:
  "\<exists>d d'. getDelay 4 = Inr d \<and> getDelay 5 = Inr d' \<and> 0 \<le> d \<and> d < d'"
  by (rule getDelay_increasing) simp_all

subsection \<open>Properties of the target block\<close>

text \<open>What the interface \<open>ChainReader\<close> documents: a header that is retrieved by hash and number has this
  hash and this number.\<close>

definition chain_ok :: "ChainReader \<Rightarrow> bool" where
  "chain_ok chain \<longleftrightarrow>
     (\<forall>h n t. chain_GetHeader chain h n = Some t \<longrightarrow> header_Hash t = h \<and> hNumber t = uint n)
     \<and> (\<forall>n t. chain_GetHeaderByNumber chain n = Some t \<longrightarrow> hNumber t = uint n)"

definition is_parent :: "ChainReader \<Rightarrow> header \<Rightarrow> header \<Rightarrow> bool" where
  "is_parent chain h p \<longleftrightarrow> chain_GetHeader chain (hParentHash h) (big_Uint64 (hNumber h) - 1) = Some p"

lemma uint_u64_minus_1: "0 < n \<Longrightarrow> n < 2 ^ 64 \<Longrightarrow> uint (big_Uint64 n - 1) = n - 1"
  using uint_big_Uint64 [of n] by (simp add: uint_word_ariths)

lemma getAncestor_loop_ends:
  assumes "chain_ok chain" "0 \<le> hNumber t" "hNumber t < 2 ^ 64"
  shows "\<exists>r. getAncestor_loop chain k (Some t) = Some r
    \<and> (\<forall>a. r = Some a \<longrightarrow> (is_parent chain)\<^sup>*\<^sup>* t a \<and> hNumber a = min (hNumber t) (max 0 k))"
  using assms(2,3)
proof (induction "nat (hNumber t)" arbitrary: t rule: less_induct)
  case less
  show ?case
  proof (cases "0 < hNumber t \<and> k < hNumber t")
    case True
    let ?p = "chain_GetHeader chain (hParentHash t) (big_Uint64 (hNumber t) - 1)"
    have e: "getAncestor_loop chain k (Some t) = getAncestor_loop chain k ?p"
      using True by (subst getAncestor_loop.simps) simp
    show ?thesis
    proof (cases ?p)
      case None
      then show ?thesis unfolding e by (subst getAncestor_loop.simps) simp
    next
      case (Some p)
      then have n: "hNumber p = hNumber t - 1"
        using assms(1) True less.prems by (auto simp: chain_ok_def uint_u64_minus_1)
      from less.hyps [of p] n True less.prems obtain r where
        r: "getAncestor_loop chain k (Some p) = Some r"
          "\<And>a. r = Some a \<Longrightarrow> (is_parent chain)\<^sup>*\<^sup>* p a \<and> hNumber a = min (hNumber p) (max 0 k)" by auto
      have "is_parent chain t p" using Some by (simp add: is_parent_def)
      with r Some n True show ?thesis unfolding e
        by (auto intro: converse_rtranclp_into_rtranclp)
    qed
  next
    case False
    then show ?thesis using less.prems by (subst getAncestor_loop.simps) auto
  qed
qed

lemma getAncestor_ends:
  assumes "chain_ok chain" "0 \<le> hNumber t" "hNumber t < 2 ^ 64" "0 \<le> n"
  shows "\<exists>r. getAncestor chain n t = Some (Inr r)
    \<and> (\<forall>a. r = Some a \<longrightarrow> (is_parent chain)\<^sup>*\<^sup>* t a \<and> hNumber a = max 0 (hNumber t - n)
        \<and> chain_HasBlockAndState chain (header_Hash a) (big_Uint64 (hNumber a)))"
proof -
  from getAncestor_loop_ends [OF assms(1-3), of "hNumber t - n"] obtain r where
    "getAncestor_loop chain (hNumber t - n) (Some t) = Some r"
    "\<And>a. r = Some a \<Longrightarrow> (is_parent chain)\<^sup>*\<^sup>* t a \<and> hNumber a = min (hNumber t) (max 0 (hNumber t - n))" by blast
  with assms show ?thesis by (cases r) (auto simp: getAncestor_def)
qed

text \<open>C11: The search for the block whose stakers decide who may create a child of \<open>p\<close> ends, and a block it finds has its
  state and the number that the comment at the function gives: the header of the local chain at number 0 while
  \<open>p\<close> is in the first epoch, the header of the local chain at the number of the epoch length while \<open>p\<close> is in the
  second, and from then on the ancestor of \<open>p\<close> that is one epoch older than \<open>p\<close>.\<close>

theorem getStakeTargetBlock_number:
  assumes "chain_ok chain" "0 \<le> hNumber p" "hNumber p < 2 ^ 64" "0 < e" "e < 2 ^ 63"
    "Epoch (bconfig c) = word_of_int e"
  shows "\<exists>r. getStakeTargetBlock c chain (Some p) = Some (Inr r)
    \<and> (\<forall>t. r = Some t \<longrightarrow>
         hNumber t = (if hNumber p < e then 0 else if hNumber p < 2 * e then e else hNumber p - e)
         \<and> chain_HasBlockAndState chain (header_Hash t) (big_Uint64 (hNumber t))
         \<and> (hNumber p < 2 * e \<longrightarrow> chain_GetHeaderByNumber chain (word_of_int (hNumber t)) = Some t)
         \<and> (2 * e \<le> hNumber p \<longrightarrow> (is_parent chain)\<^sup>*\<^sup>* p t))"
proof -
  let ?d = "big_Uint64 (hNumber p) div Epoch (bconfig c)"
  have u: "uint (Epoch (bconfig c)) = e" using assms(4-6) by (simp add: uint_word_of_int)
  have s: "sint (Epoch (bconfig c)) = e" 
    using assms(4,5) by (simp add: sint_uint u signed_take_bit_int_eq_self)
  have d: "uint ?d = hNumber p div e" using assms(2,3) u uint_big_Uint64 [of "hNumber p"] by (simp add: uint_div)
  have z: "Epoch (bconfig c) \<noteq> 0" using u assms(4) by auto
  show ?thesis
  proof (cases "2 * e \<le> hNumber p")
    case True
    then have "2 \<le> hNumber p div e" using zdiv_mono1 [OF True, of e] assms(4) by simp
    then have "1 < ?d" using d by (simp add: word_less_def)
    with getAncestor_ends [OF assms(1-3), of e] assms(4) True z s show ?thesis
      by (auto simp: getStakeTargetBlock_def Let_def)
  next
    case False
    then have "hNumber p div e = (if hNumber p < e then 0 else 1)"
      using assms(2,4) div_pos_geq [of e "hNumber p"] by auto
    then have dd: "?d = (if hNumber p < e then 0 else 1)" using d by (auto simp: word_uint_eq_iff)
    let ?k = "if hNumber p < e then 0 else Epoch (bconfig c)"
    have g: "getStakeTargetBlock c chain (Some p) = Some (Inr (case chain_GetHeaderByNumber chain ?k of
        None \<Rightarrow> None | Some t \<Rightarrow> if chain_HasBlockAndState chain (header_Hash t) ?k then Some t else None))"
      using dd z by (simp add: getStakeTargetBlock_def Let_def)
    have n: "hNumber t = (if hNumber p < e then 0 else e)" if "chain_GetHeaderByNumber chain ?k = Some t" for t
    proof -
      from assms(1) that have "hNumber t = uint ?k" by (simp add: chain_ok_def)
      then show ?thesis using u by simp
    qed
    have k: "?k = big_Uint64 (if hNumber p < e then 0 else e)" using assms(4,6) by (simp add: big_Uint64_def)
    show ?thesis
    proof (cases "chain_GetHeaderByNumber chain ?k")
      case None
      with g show ?thesis by simp
    next
      case (Some t)
      moreover have "?k = word_of_int (hNumber t)" using n [OF Some] assms(6) by simp
      ultimately show ?thesis using g n [OF Some] k False by simp
    qed
  qed
qed

definition sample_header :: header where
  "sample_header = \<lparr>hParentHash = 0, hUncleHash = uncleHash, hCoinbase = 0, hRoot = 0, hTxHash = 0, hReceiptHash = 0,
     hBloom = replicate 256 0, hDifficulty = 1, hNumber = 0, hGasLimit = 0, hGasUsed = 0, hTime = 0,
     hExtra = replicate 97 0, hMixDigest = 0, hNonce = EncodeNonce 1\<rparr>"

definition sample_chain :: ChainReader where
  "sample_chain = \<lparr>chain_Config = MainnetChainConfig, chain_GetHeader = (\<lambda>_ _. None),
     chain_GetHeaderByNumber = (\<lambda>n. if n = 0 then Some sample_header else None),
     chain_GetBlock = (\<lambda>_ _. None), chain_StateAt = (\<lambda>_. Inl ''missing''), chain_HasBlockAndState = (\<lambda>_ _. True)\<rparr>"

lemma sample_chain_ok: "chain_ok sample_chain"
  by (simp add: chain_ok_def sample_chain_def sample_header_def)

theorem getStakeTargetBlock_number_witness:
  "\<exists>t. getStakeTargetBlock (bsrr_New (Bsrr MainnetChainConfig) \<lparr>stakeDB = [], NoPruning = False\<rparr>) sample_chain
      (Some (sample_header\<lparr>hNumber := 7\<rparr>)) = Some (Inr (Some t)) \<and> hNumber t = 0"
proof -
  let ?c = "bsrr_New (Bsrr MainnetChainConfig) \<lparr>stakeDB = [], NoPruning = False\<rparr>"
  let ?p = "sample_header\<lparr>hNumber := 7\<rparr>"
  have e: "Epoch (bconfig ?c) = word_of_int 360" by (simp add: bsrr_New_def MainnetChainConfig_def Let_def)
  from getStakeTargetBlock_number [OF sample_chain_ok _ _ _ _ e, of ?p] obtain r where
    r: "getStakeTargetBlock ?c sample_chain (Some ?p) = Some (Inr r)" "\<forall>t. r = Some t \<longrightarrow> hNumber t = 0" by auto
  moreover have "r = Some sample_header"
    using r(1) e by (simp add: getStakeTargetBlock_def Let_def sample_chain_def big_Uint64_def)
  ultimately show ?thesis by auto
qed

subsection \<open>Properties of verified headers\<close>

lemma raw_header_of_simps [simp]: "hNumber (raw_header_of h) = Some (hNumber h)"
  "with_number (raw_header_of h) (hNumber h) = h"
  by (simp_all add: raw_header_of_def with_number_def)

lemma verifyHeader_nil:
  assumes "verifyHeader c chain now (raw_header_of h) parents = Inr None" "big_Uint64 (hNumber h) \<noteq> 0"
  shows "\<exists>p. (if parents = [] then chain_GetHeader chain (hParentHash h) (big_Uint64 (hNumber h) - 1) = Some p
        else p = last parents)
    \<and> header_Hash p = hParentHash h \<and> big_Uint64 (hNumber h) = big_Uint64 (hNumber p) + 1
    \<and> big_Uint64 (hTime p) + Period (bconfig c) \<le> big_Uint64 (hTime h) \<and> hTime h \<le> now
    \<and> hMixDigest h = 0 \<and> hUncleHash h = uncleHash \<and> nonce_Uint64 (hNonce h) \<noteq> 0
    \<and> (if big_Uint64 (hNumber h) mod Epoch (bconfig c) = 0 then 97 \<le> length (hExtra h) \<and> (length (hExtra h) - 97) mod 20 = 0
       else length (hExtra h) = 97)"
proof -
  let ?l = "int (length (hExtra h)) - int extraVanity - int extraSeal"
  have v: "hTime h \<le> now" "extraVanity + extraSeal \<le> length (hExtra h)"
    "\<not> (big_Uint64 (hNumber h) mod Epoch (bconfig c) \<noteq> 0 \<and> ?l \<noteq> 0)"
    "\<not> (big_Uint64 (hNumber h) mod Epoch (bconfig c) = 0 \<and> ?l mod 20 \<noteq> 0)"
    "hMixDigest h = 0" "hUncleHash h = uncleHash" "\<not> nonce_Uint64 (hNonce h) < 1"
    "verifyCascadingFields c chain h parents = None"
    using assms by (auto simp: verifyHeader_def Let_def word_gt_0 split: if_splits option.splits)
  from v(8) assms(2) obtain p where
    p: "(if parents \<noteq> [] then Some (last parents) else chain_GetHeader chain (hParentHash h) (big_Uint64 (hNumber h) - 1)) = Some p"
      "big_Uint64 (hNumber p) = big_Uint64 (hNumber h) - 1" "header_Hash p = hParentHash h"
      "\<not> big_Uint64 (hTime h) < big_Uint64 (hTime p) + Period (bconfig c)"
    by (auto simp: verifyCascadingFields_def Let_def split: option.splits if_splits)
  have l: "int (length (hExtra h) - 97) = ?l" using v(2) by (simp add: extraVanity_def extraSeal_def)
  have "int ((length (hExtra h) - 97) mod 20) = ?l mod 20"
    unfolding zmod_int l [symmetric] by simp
  then have "(length (hExtra h) - 97) mod 20 = 0 \<longleftrightarrow> ?l mod 20 = 0" by linarith
  with v(2-4) l have "if big_Uint64 (hNumber h) mod Epoch (bconfig c) = 0
      then 97 \<le> length (hExtra h) \<and> (length (hExtra h) - 97) mod 20 = 0 else length (hExtra h) = 97"
    by (auto simp: extraVanity_def extraSeal_def)
  moreover have "nonce_Uint64 (hNonce h) \<noteq> 0" using v(7) by auto
  ultimately show ?thesis using v p by (auto simp: not_less split: if_splits)
qed


definition child_header :: header where
  "child_header = sample_header\<lparr>hNumber := 1, hParentHash := header_Hash sample_header, hTime := 5\<rparr>"

definition child_chain :: ChainReader where
  "child_chain = sample_chain\<lparr>chain_GetHeader :=
     (\<lambda>h n. if h = header_Hash sample_header \<and> n = 0 then Some sample_header else None)\<rparr>"

definition sample_engine :: BSRR where
  "sample_engine = bsrr_New (Bsrr MainnetChainConfig) \<lparr>stakeDB = [], NoPruning = False\<rparr>"

lemma sample_engine_config [simp]:
  "Epoch (bconfig sample_engine) = 360" "Period (bconfig sample_engine) = 5"
  by (simp_all add: sample_engine_def bsrr_New_def MainnetChainConfig_def Let_def)


subsection \<open>Properties of the reward\<close>

lemma f64_dyadic: "x = of_int m / 2 ^ k \<Longrightarrow> \<bar>m\<bar> < 2 ^ 53 \<Longrightarrow> f64 x = x"
  by (rule fl_dyadic [where k = "- int k" and m = m]) (simp_all add: pow2_def)

text \<open>Rounding the quotient of two integers to \<open>float64\<close> does not move it across a half, so that the nearest
  integer of the rounded quotient is the nearest integer of the exact one.\<close>

lemma go_round_near:
  fixes n d k :: int
  assumes "0 \<le> n" "n < 2 ^ 52" "0 < d" "d < 2 ^ 52" "0 \<le> k" "2 * (k * d) \<le> n + d" "n + d + 1 \<le> 2 * (k * d) + 2 * d"
  shows "go_round (f64 (of_int n / of_int (2 * d))) = of_int k"
proof -
  let ?q = "of_int n / of_int (2 * d) :: rat" and ?r = "of_int :: int \<Rightarrow> rat"
  have "k * 1 \<le> k * d" using assms(3,5) by (intro mult_left_mono) simp_all
  then have kb: "\<bar>2 * k - 1\<bar> < 2 ^ 53" using assms by simp
  have d0: "0 < ?r d" using assms(3) by simp
  have "?r (2 * (k * d)) \<le> ?r (n + d)" using assms(6) by (simp only: of_int_le_iff)
  then have "?r (2 * k - 1) / 2 ^ 1 \<le> ?q" using d0 by (simp add: field_simps)
  then have "f64 (?r (2 * k - 1) / 2 ^ 1) \<le> f64 ?q" by (rule fl_mono) simp
  moreover have "f64 (?r (2 * k - 1) / 2 ^ 1) = ?r (2 * k - 1) / 2 ^ 1" using kb by (intro f64_dyadic [OF refl])
  ultimately have lo: "?r k \<le> f64 ?q + 1 / 2" by simp
  have "?r (n + d + 1) \<le> ?r (2 * (k * d) + 2 * d)" using assms(7) by (simp only: of_int_le_iff)
  then have hi: "?q + 1 / 2 + 1 / ?r (2 * d) \<le> ?r k + 1" using d0 by (simp add: field_simps)
  have "\<bar>f64 ?q - ?q\<bar> \<le> \<bar>?q\<bar> / 2 ^ 53" by (rule fl_error) simp
  also have "\<bar>?q\<bar> / 2 ^ 53 = ?r n / 2 ^ 53 / ?r (2 * d)" using assms(1,3) by simp
  also have "\<dots> < 1 / ?r (2 * d)"
  proof (rule divide_strict_right_mono)
    have "?r n < ?r (2 ^ 53)" using assms(2) by (simp only: of_int_less_iff) simp
    then show "?r n / 2 ^ 53 < 1" by simp
    show "0 < ?r (2 * d)" using assms(3) by simp
  qed
  finally have "f64 ?q + 1 / 2 < ?r k + 1" using hi by linarith
  with lo have "\<lfloor>f64 ?q + 1 / 2\<rfloor> = k" by (intro floor_unique) simp_all
  moreover have "0 \<le> f64 ?q" using fl_mono [of 0 ?q 53] assms(1,3) by simp
  ultimately show ?thesis by (simp add: go_round_def)
qed

lemma go_round_quotient:
  fixes n d :: int
  assumes "0 \<le> n" "n < 2 ^ 52" "0 < d" "d < 2 ^ 52"
  shows "go_round (f64 (of_int n / of_int (2 * d))) = of_int ((n + d) div (2 * d))"
proof (rule go_round_near [OF assms])
  show "0 \<le> (n + d) div (2 * d)" using assms by (simp add: pos_imp_zdiv_nonneg_iff)
  show "2 * ((n + d) div (2 * d) * d) \<le> n + d" "n + d + 1 \<le> 2 * ((n + d) div (2 * d) * d) + 2 * d"
    using div_mult_bounds [of "2 * d" "n + d"] assms(3) by (simp_all add: algebra_simps)
qed

lemma reward_rate:
  fixes k a :: int
  assumes "0 \<le> k" "k < 2 ^ 40" "0 \<le> a" "a \<le> 10"
  shows "f64_mul (f64_add (f64_sub 26 (f64_mul (of_int k) (1 / 2))) (of_int a / 2)) (1 / 2) = of_int (52 - k + a) / 4"
proof -
  have half: "f64 x = of_int i / 2" if "x = of_int i / 2" "\<bar>i\<bar> < 2 ^ 41" for x and i :: int
    using that by (simp add: f64_dyadic [of _ i 1])
  have m: "\<bar>52 - k\<bar> < 2 ^ 41" "\<bar>52 - k + a\<bar> < 2 ^ 41" using assms by (auto simp: abs_less_iff)
  have 1: "f64_mul (of_int k) (1 / 2) = of_int k / 2" using assms unfolding f64_mul_def by (intro half) simp_all
  have 2: "f64_sub 26 (of_int k / 2) = of_int (52 - k) / 2"
    unfolding f64_sub_def by (rule half [OF _ m(1)]) (simp add: field_simps)
  have 3: "f64_add (of_int (52 - k) / 2) (of_int a / 2) = of_int (52 - k + a) / 2"
    unfolding f64_add_def by (rule half [OF _ m(2)]) (simp add: field_simps)
  have "f64 (of_int (52 - k + a) / 2 ^ 2) = of_int (52 - k + a) / 2 ^ 2"
    using m(2) by (intro f64_dyadic [OF refl]) simp
  then show ?thesis unfolding 1 2 3 by (simp add: f64_mul_def)
qed

text \<open>C33: With blocks every five seconds, as on the main network, the reward follows an exact schedule in spite
  of the \<open>float64\<close> arithmetic: nothing before the first rewarded block, then 13 tokens, and 2.5 more up to
  block 6300000, falling by a quarter of a token every 14740000 blocks until it is zero.\<close>

theorem getReward_schedule:
  assumes "Period (Bsrr config) = 5" "Rewards (Bsrr config) = Some r" "0 \<le> r" "r < 2 ^ 40"
    "0 \<le> hNumber h" "hNumber h < 2 ^ 40"
  shows "getReward config h = Inr
    (if hNumber h < r then 0
     else max 0 (52 - (hNumber h + 7370000) div 14740000 + (if hNumber h \<le> 6300000 then 10 else 0))
          * (25 * 10 ^ 16))"
proof -
  define n where "n = hNumber h"
  define k where "k = (n + 7370000) div 14740000"
  define a :: int where "a = (if n \<le> 6300000 then 10 else 0)"
  define m where "m = 52 - k + a"
  have n: "0 \<le> n" "n < 2 ^ 40" "uint (big_Uint64 n) = n" using assms(5,6) by (simp_all add: n_def uint_big_Uint64)
  have k: "0 \<le> k" "k < 2 ^ 40" using n div_mult_bounds [of 14740000 "n + 7370000"] by (auto simp: k_def)
  have c: "f64_div (f64_of_int (uint (5 :: u64))) (of_int DefaultBlockCreationSec) = 1 / 2"
    by (simp add: f64_div_def f64_of_int_exact DefaultBlockCreationSec_def f64_dyadic [of _ 1 1])
  have cb: "f64_mul (f64_of_int n) (1 / 2) = of_int n / 2"
    using n by (simp add: f64_mul_def f64_of_int_exact f64_dyadic [of _ n 1])
  have rd: "go_round (f64_div (of_int n / 2) 7370000) = of_int k"
    using go_round_quotient [of n 7370000] n by (simp add: f64_div_def k_def)
  have rw: "f64_mul (f64_add (f64_sub 26 (f64_mul (of_int k) (1 / 2))) (of_int a / 2)) (1 / 2) = of_int m / 4"
    using k unfolding m_def by (intro reward_rate) (simp_all add: a_def)
  have tp: "f64_mul (of_int m / 4) 10000000000 = of_int (m * 2500000000)" if "0 < m"
  proof -
    have "\<bar>m * 2500000000\<bar> < 2 ^ 53" using that k by (simp add: m_def a_def)
    then show ?thesis using f64_of_int_exact [of "m * 2500000000"] by (simp add: f64_mul_def f64_of_int_def mult.commute)
  qed
  have "uint (big_Uint64 r) = r" using assms(3,4) by (simp add: uint_big_Uint64)
  then have lt: "big_Uint64 n < big_Uint64 r \<longleftrightarrow> n < r" using n(3) by (simp add: word_less_def)
  have ad: "(if (of_int n / 2 :: rat) \<le> 3150000 then 5 else 0 :: rat) = of_int a / 2"
    using of_int_le_iff [of n 6300000, where 'a = rat] by (simp add: a_def)
  have fl: "\<lfloor>rat_of_int m * 2500000000\<rfloor> = m * 2500000000"
    using floor_of_int [of "m * 2500000000", where 'a = rat] by simp
  have mm: "m \<le> 62" using k by (simp add: m_def a_def)
  have "getReward config h = Inr (if n < r then 0 else if m \<le> 0 then 0 else m * 2500000000 * 100000000)"
    unfolding getReward_def assms(1,2) option.case Let_def n_def [symmetric] n(3) c cb rd ad rw lt
    using mm by (simp add: tp go_trunc_def fl)
  then show ?thesis by (auto simp: max_def m_def k_def a_def n_def [symmetric])
qed

theorem getReward_schedule_witness:
  "getReward MainnetChainConfig (sample_header\<lparr>hNumber := 20000000\<rparr>) = Inr (51 * (25 * 10 ^ 16))"
  using getReward_schedule [of MainnetChainConfig 360 "sample_header\<lparr>hNumber := 20000000\<rparr>"]
  by (simp add: MainnetChainConfig_def)

end
