(* ===== verification/State_Accounts.thy ===== *)
theory State_Accounts
  imports State_Revert
begin

text \<open>
  The accounts of a state as a function from addresses to account records, and what the operations of
  \<open>core/state/statedb.go\<close> that the consensus engine and the state transition use do to it. An account that does
  not exist reads as a new one.
\<close>

definition acct :: "StateDB \<Rightarrow> address \<Rightarrow> account" where
  "acct s a = (case lookup s a of None \<Rightarrow> so_data (setNonce 0 (newObject a zero_Account)) | Some ob \<Rightarrow> so_data ob)"

lemma lookup_add_journal [simp]: "lookup (add_journal e s) = lookup s"
  by (simp add: lookup_def add_journal_def fun_eq_iff split: option.split)

lemma acct_setStateObject:
  "\<not> deleted ob \<Longrightarrow> acct (setStateObject ob s) = (acct s)(so_address ob := so_data ob)"
  by (auto simp: acct_def lookup_setStateObject fun_eq_iff)

lemma acct_add_journal [simp]: "acct (add_journal e s) = acct s"
  by (simp add: acct_def fun_eq_iff)

lemma getStateObject_acct:
  assumes "state_inv s"
  obtains t where "getStateObject s a = (lookup s a, t)" "state_inv t" "lookup t = lookup s" "acct t = acct s"
proof -
  obtain t where "getStateObject s a = (lookup s a, t)" "unseen s t" "lookup t = lookup s"
    using getStateObject_lookup [OF assms] by metis
  with that [of t] show ?thesis by (simp add: unseen_def acct_def fun_eq_iff)
qed

lemma GetOrNew_acct:
  assumes "state_inv s"
  obtains ob t where "GetOrNewStateObject s a = (ob, t)" "state_inv t" "lookup t a = Some ob" "acct t = acct s"
    "so_data ob = acct s a"
proof -
  obtain t where t: "getStateObject s a = (lookup s a, t)" "state_inv t" "lookup t = lookup s" "acct t = acct s"
    using getStateObject_acct [OF assms] by metis
  show ?thesis
  proof (cases "lookup s a")
    case None
    obtain u where u: "getStateObject t a = (lookup t a, u)" "state_inv u" "lookup u = lookup t" "acct u = acct t"
      using getStateObject_acct [OF t(2)] by metis
    let ?n = "setNonce 0 (newObject a zero_Account)"
    let ?v = "setStateObject ?n (add_journal (CreateObjectChange a) u)"
    have "so_data ?n = acct s a" using None by (simp add: acct_def)
    moreover have "GetOrNewStateObject s a = (?n, ?v)"
      using t u None by (simp add: GetOrNewStateObject_def createObject_def Let_def)
    moreover have "state_inv ?v" using u(2) newObject_zero(1) by (intro state_inv_setStateObject) simp_all
    ultimately show ?thesis
      using that [of ?n ?v] t(4) u(4) by (simp add: acct_setStateObject lookup_setStateObject)
  next
    case (Some ob)
    with that [of ob t] t lookup_simps [OF assms Some] show ?thesis by (simp add: GetOrNewStateObject_def acct_def)
  qed
qed

text \<open>An operation that changes the live object of an address by \<open>g\<close>.\<close>

definition changes_acct :: "address \<Rightarrow> (account \<Rightarrow> account) \<Rightarrow> StateDB \<Rightarrow> StateDB \<Rightarrow> bool" where
  "changes_acct a g s t \<longleftrightarrow> state_inv t \<and> acct t = (acct s)(a := g (acct s a))"

lemma write_changes:
  assumes "state_inv s" "lookup s a = Some ob" "so_address ob' = so_address ob" "deleted ob' = deleted ob"
    "object_ok ob' = object_ok ob" "so_data ob' = g (so_data ob)"
  shows "changes_acct a g s (write_object ob' (add_journal e s))" "changes_acct a g s (write_object ob' s)"
  using assms lookup_simps [OF assms(1,2)]
  by (simp_all add: changes_acct_def acct_setStateObject state_inv_setStateObject acct_def)

lemma touch_changes: "state_inv s \<Longrightarrow> changes_acct a id s (touch ob s)"
proof -
  assume s: "state_inv s"
  have "lookup (s\<lparr>jrnl := j\<rparr>) = lookup s" for j s by (simp add: lookup_def fun_eq_iff split: option.split)
  then have "acct (s\<lparr>jrnl := j\<rparr>) = acct s" for j s by (simp add: acct_def fun_eq_iff)
  with s show ?thesis by (simp add: changes_acct_def touch_def Let_def state_inv_updates)
qed

lemma id_changes: "state_inv s \<Longrightarrow> changes_acct a id s s"
  by (simp add: changes_acct_def)

lemma update_object_changes:
  assumes "state_inv s" "\<And>t ob. state_inv t \<Longrightarrow> lookup t a = Some ob \<Longrightarrow> changes_acct a g t (f ob t)"
  shows "changes_acct a g s (update_object f s a)"
proof -
  obtain ob t where t: "GetOrNewStateObject s a = (ob, t)" "state_inv t" "lookup t a = Some ob" "acct t = acct s"
    using GetOrNew_acct [OF assms(1)] by metis
  with assms(2) [OF t(2,3)] show ?thesis by (simp add: update_object_def changes_acct_def)
qed

lemma setter_data [simp]:
  "so_data (setBalance x ob) = (so_data ob)\<lparr>Balance := x\<rparr>" "so_data (setNonce n ob) = (so_data ob)\<lparr>Nonce := n\<rparr>"
  "so_data (setStaking x y ob) = (so_data ob)\<lparr>StakeBalance := x, StakeUpdated := y\<rparr>"
  "so_data (setPoint x ob) = (so_data ob)\<lparr>State_Object.Point := x\<rparr>"
  "so_data (setBehind bs ob) = (so_data ob)\<lparr>BehindBalance := bs\<rparr>"
  by (simp_all add: setBalance_def setNonce_def setStaking_def setPoint_def setBehind_def)

lemma AddBalance_changes:
  assumes "state_inv s"
  shows "changes_acct a (\<lambda>d. d\<lparr>Balance := Balance d + x\<rparr>) s (AddBalance s a x)"
  unfolding AddBalance_def
proof (rule update_object_changes [OF assms])
  fix t ob
  assume t: "state_inv t" "lookup t a = Some ob"
  show "changes_acct a (\<lambda>d. d\<lparr>Balance := Balance d + x\<rparr>) t (so_AddBalance ob x t)"
    using touch_changes [OF t(1), of a ob] id_changes [OF t(1), of a] write_changes(1) [OF t]
    by (auto simp: so_AddBalance_def so_SetBalance_def id_def)
qed

lemma SubBalance_changes:
  assumes "state_inv s"
  shows "changes_acct a (\<lambda>d. d\<lparr>Balance := Balance d - x\<rparr>) s (SubBalance s a x)"
  unfolding SubBalance_def
proof (rule update_object_changes [OF assms])
  fix t ob
  assume t: "state_inv t" "lookup t a = Some ob"
  show "changes_acct a (\<lambda>d. d\<lparr>Balance := Balance d - x\<rparr>) t (so_SubBalance ob x t)"
    using id_changes [OF t(1), of a] write_changes(1) [OF t] by (auto simp: so_SubBalance_def so_SetBalance_def id_def)
qed

lemma AddStakeBalance_changes:
  assumes "state_inv s"
  shows "changes_acct a (\<lambda>d. if x = 0 then d else d\<lparr>StakeBalance := StakeBalance d + x, StakeUpdated := n\<rparr>) s
    (AddStakeBalance s a x n)"
  unfolding AddStakeBalance_def
proof (rule update_object_changes [OF assms])
  fix t ob
  assume t: "state_inv t" "lookup t a = Some ob"
  show "changes_acct a (\<lambda>d. if x = 0 then d else d\<lparr>StakeBalance := StakeBalance d + x, StakeUpdated := n\<rparr>) t
      (so_AddStakeBalance ob x n t)"
    using touch_changes [OF t(1), of a ob] id_changes [OF t(1), of a] write_changes(1) [OF t]
    by (auto simp: so_AddStakeBalance_def so_SetStaking_def id_def)
qed

lemma AddBehindBalance_changes:
  assumes "state_inv s"
  shows "changes_acct a (\<lambda>d. if x = 0 then d
      else d\<lparr>BehindBalance := BehindBalance d @ [\<lparr>bhNumber = n, bhBalance = x\<rparr>]\<rparr>) s (AddBehindBalance s a n x)"
  unfolding AddBehindBalance_def
proof (rule update_object_changes [OF assms])
  fix t ob
  assume t: "state_inv t" "lookup t a = Some ob"
  show "changes_acct a (\<lambda>d. if x = 0 then d
      else d\<lparr>BehindBalance := BehindBalance d @ [\<lparr>bhNumber = n, bhBalance = x\<rparr>]\<rparr>) t (so_AddBehindBalance ob n x t)"
    using touch_changes [OF t(1), of a ob] id_changes [OF t(1), of a] write_changes(1) [OF t]
    by (auto simp: so_AddBehindBalance_def so_SetBehind_def id_def Let_def)
qed

lemma SetPoint_changes:
  assumes "state_inv s"
  shows "changes_acct a (\<lambda>d. d\<lparr>State_Object.Point := x\<rparr>) s (SetPoint s a x)"
  unfolding SetPoint_def
proof (rule update_object_changes [OF assms])
  fix t ob
  assume t: "state_inv t" "lookup t a = Some ob"
  show "changes_acct a (\<lambda>d. d\<lparr>State_Object.Point := x\<rparr>) t (so_SetPoint ob x t)"
    using write_changes(1) [OF t] by (auto simp: so_SetPoint_def)
qed

lemma SetNonce_changes:
  assumes "state_inv s"
  shows "changes_acct a (\<lambda>d. d\<lparr>Nonce := n\<rparr>) s (SetNonce s a n)"
  unfolding SetNonce_def
proof (rule update_object_changes [OF assms])
  fix t ob
  assume t: "state_inv t" "lookup t a = Some ob"
  show "changes_acct a (\<lambda>d. d\<lparr>Nonce := n\<rparr>) t (so_SetNonce ob n t)"
    using write_changes(1) [OF t] by (auto simp: so_SetNonce_def)
qed

text \<open>Removing a stake pays it into the balance of the account.\<close>

lemma RemoveStakeBalance_changes:
  assumes "state_inv s"
  shows "changes_acct a (\<lambda>d. d\<lparr>Balance := Balance d + StakeBalance d, StakeBalance := 0\<rparr>) s (RemoveStakeBalance s a)"
  unfolding RemoveStakeBalance_def
proof (rule update_object_changes [OF assms])
  fix t ob
  assume t: "state_inv t" "lookup t a = Some ob"
  let ?u = "so_SetStaking ob 0 (StakeUpdated (so_data ob)) t" and ?ob = "setStaking 0 (StakeUpdated (so_data ob)) ob"
  have a: "so_address ob = a" "\<not> deleted ob" "object_ok ob" using lookup_simps [OF t] by auto
  have u: "state_inv ?u" "lookup ?u a = Some ?ob" "acct ?u = (acct t)(a := so_data ?ob)"
    using t(1) a by (simp_all add: so_SetStaking_def state_inv_setStateObject lookup_setStateObject acct_setStateObject)
  have d: "acct t a = so_data ob" using t(2) by (simp add: acct_def)
  show "changes_acct a (\<lambda>d. d\<lparr>Balance := Balance d + StakeBalance d, StakeBalance := 0\<rparr>) t (so_RemoveStakeBalance ob t)"
  proof (cases "StakeBalance (so_data ob) = 0")
    case True
    then have "(so_data ob)\<lparr>StakeBalance := 0\<rparr> = so_data ob" by (cases "so_data ob") simp
    with True t(1) d show ?thesis by (simp add: so_RemoveStakeBalance_def changes_acct_def fun_upd_idem)
  next
    case False
    have "changes_acct a (\<lambda>d. d\<lparr>Balance := Balance d + StakeBalance (so_data ob)\<rparr>) ?u
        (so_AddBalance ?ob (StakeBalance (so_data ob)) ?u)"
      using False write_changes(1) [OF u(1,2)] by (simp add: so_AddBalance_def so_SetBalance_def)
    moreover have "e\<lparr>StakeBalance := 0, Balance := x\<rparr> = e\<lparr>Balance := x, StakeBalance := 0\<rparr>" for e :: account and x
      by (cases e) simp
    ultimately show ?thesis using False u(3) d by (simp add: so_RemoveStakeBalance_def changes_acct_def Let_def)
  qed
qed

lemma read_object_acct:
  assumes "state_inv s"
  obtains t where "read_object f d s a = ((case lookup s a of None \<Rightarrow> d | Some ob \<Rightarrow> f ob), t)" "state_inv t" "acct t = acct s"
proof -
  obtain t where "getStateObject s a = (lookup s a, t)" "state_inv t" "acct t = acct s"
    using getStateObject_acct [OF assms] by metis
  with that [of t] show ?thesis by (cases "lookup s a") (simp_all add: read_object_def)
qed

lemma getters_acct:
  assumes "state_inv s"
  shows "fst (GetBalance s a) = Balance (acct s a)" "fst (GetStakeBalance s a) = StakeBalance (acct s a)"
    "fst (GetNonce s a) = Nonce (acct s a)"
    "fst (GetPoint s a) = State_Object.Point (acct s a)"
    "state_inv (snd (GetBalance s a))" "acct (snd (GetBalance s a)) = acct s"
    "state_inv (snd (GetStakeBalance s a))" "acct (snd (GetStakeBalance s a)) = acct s"
    "state_inv (snd (GetNonce s a))" "acct (snd (GetNonce s a)) = acct s"
proof -
  have r: "fst (read_object f d s a) = (case lookup s a of None \<Rightarrow> d | Some ob \<Rightarrow> f ob)"
    "state_inv (snd (read_object f d s a))" "acct (snd (read_object f d s a)) = acct s" for f and d :: 'b
    using read_object_acct [OF assms, of f d a] by (metis fst_conv snd_conv)+
  show "fst (GetBalance s a) = Balance (acct s a)" "fst (GetStakeBalance s a) = StakeBalance (acct s a)"
    "fst (GetNonce s a) = Nonce (acct s a)" "fst (GetPoint s a) = State_Object.Point (acct s a)"
    by (simp_all add: GetBalance_def GetStakeBalance_def GetNonce_def GetPoint_def r acct_def newObject_def zero_Account_def
        split: option.split)
  show "state_inv (snd (GetBalance s a))" "acct (snd (GetBalance s a)) = acct s"
    "state_inv (snd (GetStakeBalance s a))" "acct (snd (GetStakeBalance s a)) = acct s"
    "state_inv (snd (GetNonce s a))" "acct (snd (GetNonce s a)) = acct s"
    by (simp_all add: GetBalance_def GetStakeBalance_def GetNonce_def r)
qed

lemma GetFirstBehindBalance_acct:
  assumes "state_inv s"
  obtains t where "state_inv t" "acct t = acct s"
    "GetFirstBehindBalance s a = (case BehindBalance (acct s a) of [] \<Rightarrow> Inl ''empty behind'' | b # _ \<Rightarrow> Inr b, t)"
proof -
  let ?f = "\<lambda>ob. case so_GetFirstBehindBalance ob of Inl _ \<Rightarrow> Inl ''empty behind'' | Inr b \<Rightarrow> Inr b"
  obtain t where t: "read_object ?f (Inl ''empty behind'') s a
      = (case lookup s a of None \<Rightarrow> Inl ''empty behind'' | Some ob \<Rightarrow> ?f ob, t)" "state_inv t" "acct t = acct s"
    using read_object_acct [OF assms] by metis
  have "(case lookup s a of None \<Rightarrow> Inl ''empty behind'' | Some ob \<Rightarrow> ?f ob)
      = (case BehindBalance (acct s a) of [] \<Rightarrow> Inl ''empty behind'' | b # _ \<Rightarrow> Inr b)"
    by (simp add: acct_def so_GetFirstBehindBalance_def newObject_def zero_Account_def Let_def split: option.split list.split)
  with that [of t] t show ?thesis by (simp add: GetFirstBehindBalance_def)
qed

lemma RemoveFirstBehindBalance_acct:
  assumes "state_inv s" "BehindBalance (acct s a) = b # bs"
  obtains t where "RemoveFirstBehindBalance s a = Inr t" "changes_acct a (\<lambda>d. d\<lparr>BehindBalance := bs\<rparr>) s t"
proof -
  obtain t where t: "getStateObject s a = (lookup s a, t)" "state_inv t" "lookup t = lookup s" "acct t = acct s"
    using getStateObject_acct [OF assms(1)] by metis
  obtain ob where ob: "lookup s a = Some ob" "BehindBalance (so_data ob) = b # bs"
    using assms(2) by (cases "lookup s a") (auto simp: acct_def newObject_def zero_Account_def Let_def)
  have "changes_acct a (\<lambda>d. d\<lparr>BehindBalance := bs\<rparr>) t (write_object (setBehind bs ob) t)"
    using ob(1) t(3) by (intro write_changes(2) [OF t(2)]) simp_all
  with that t ob show ?thesis
    by (simp add: RemoveFirstBehindBalance_def so_RemoveFirstBehindBalance_def changes_acct_def)
qed

end
