(* ===== verification/Bsrr_Engine.thy ===== *)
theory Bsrr_Engine
  imports Bsrr_Rules State_Accounts
begin

text \<open>
  The operations of the consensus engine \<open>consensus/bsrr/berith.go\<close> that read stakers and states:
  the stakers of a block, the difficulty and rank of a block creator, rewards, \<open>Prepare\<close>, \<open>Finalize\<close> and
  \<open>Seal\<close>.

  An operation returns its result, an error on the left, and the engine, whose caches and staking
  database it changes; \<open>run\<close> adds panics and \<open>loop\<close> computations that may not end. What the engine uses of
  other libraries is the record \<open>externals\<close>: the random generator and hash of the selection, the
  recovery of a sender, the insertion into an ARC cache, which may drop entries, and the iteration orders
  of Go maps.
\<close>

record 'g externals =
  xInt63n :: "'g generator"
  xSeed :: "int \<Rightarrow> 'g"
  xSha256 :: "byte list \<Rightarrow> byte list"
  xSender :: "ChainConfig \<Rightarrow> int \<Rightarrow> Transaction \<Rightarrow> string + address"
  xArcAdd :: "(hash \<rightharpoonup> json_object) \<Rightarrow> hash \<Rightarrow> json_object \<Rightarrow> (hash \<rightharpoonup> json_object)"
  xMapOrder :: "(address \<times> bool) list \<Rightarrow> (address \<times> bool) list"
  xDirtyOrder :: "StateDB \<Rightarrow> address list"
  xDirtyKeys :: "StateDB \<Rightarrow> address \<Rightarrow> hash list"

subsection \<open>The stakers of a block\<close>

definition hash_Hex :: "hash \<Rightarrow> string" where
  "hash_Hex h = ''0x'' @ hex_EncodeToString (hash_bytes h)"

definition json_Marshal :: "stakers \<Rightarrow> json_object" where
  "json_Marshal stks =
     map (\<lambda>a. AddressPrefix @ hex_EncodeToString (addr_bytes a)) (sort_Sort sortable_Less (AsList stks))"

text \<open>\<open>list\<close> is a nil value of the interface type \<open>Stakers\<close>. \<open>json.Unmarshal\<close> has no concrete type to decode an
  object into and returns an error.\<close>

definition json_Unmarshal :: "json_object \<Rightarrow> string + stakers" where
  "json_Unmarshal obj = Inl ''json: cannot unmarshal object into Go value of type staking.Stakers''"

definition cached_stakers :: "BSRR \<Rightarrow> hash \<Rightarrow> stakers option \<times> BSRR" where
  "cached_stakers c h =
     (case bcache c h of
        None \<Rightarrow> (None, c)
      | Some obj \<Rightarrow>
          (case json_Unmarshal obj of
             Inr l \<Rightarrow> (Some l, c)
           | Inl _ \<Rightarrow> (None, c\<lparr>bcache := (bcache c)(h := None)\<rparr>)))"

function getStakers_loop ::
  "ChainReader \<Rightarrow> BSRR \<Rightarrow> u64 \<Rightarrow> hash \<Rightarrow> Block list \<Rightarrow> (consensus_error + stakers \<times> Block list) \<times> BSRR" where
  "getStakers_loop chain c prevNum prevHash blocks =
     (case cached_stakers c prevHash of
        (Some l, c1) \<Rightarrow> (Inr (l, blocks), c1)
      | (None, c1) \<Rightarrow>
          if prevNum = 0 then (Inr (NewStakers, blocks), c1)
          else
            (case GetStakers (bstakingDB c1) (hash_Hex prevHash) of
               Inr l \<Rightarrow> (Inr (l, blocks), c1)
             | Inl _ \<Rightarrow>
                 (case chain_GetBlock chain prevHash prevNum of
                    None \<Rightarrow> (Inl (errOther ''unknown anccesstor''), c1)
                  | Some block \<Rightarrow>
                      getStakers_loop chain c1 (prevNum - 1) (hParentHash (blk_header block)) (blocks @ [block]))))"
  by pat_completeness auto
termination
  by (relation "measure (\<lambda>(chain, c, n, h, bs). unat n)") (simp_all add: unat_minus_one unat_gt_0)

text \<open>The loop that reverses the collected blocks in place.\<close>

function reverse_loop :: "nat \<Rightarrow> 'a list \<Rightarrow> 'a list" where
  "reverse_loop i blocks =
     (if i < length blocks div 2
      then reverse_loop (i + 1)
        (blocks[i := blocks ! (length blocks - 1 - i), length blocks - 1 - i := blocks ! i])
      else blocks)"
  by pat_completeness auto
termination
  by (relation "measure (\<lambda>(i, bs). length bs div 2 - i)") auto

definition stake_change :: "ChainConfig \<Rightarrow> int \<Rightarrow> Message \<Rightarrow> (address \<times> bool) list \<Rightarrow> (address \<times> bool) list" where
  "stake_change config number msg changed =
     (if msg_base msg = jw_Main \<and> msg_target msg = jw_Main then changed
      else if IsBIP1 config (Some number) \<and> msg_base msg = jw_Stake \<and> msg_target msg = jw_Main
      then AList.update (msg_from msg) False changed
      else if msg_base msg = jw_Main \<and> msg_target msg = jw_Stake
      then AList.update (msg_from msg) True changed
      else changed)"

fun stake_changes ::
  "(Transaction \<Rightarrow> string + address) \<Rightarrow> ChainConfig \<Rightarrow> int \<Rightarrow> Transaction list \<Rightarrow> (address \<times> bool) list
    \<Rightarrow> string + (address \<times> bool) list" where
  "stake_changes Sender config number [] changed = Inr changed"
| "stake_changes Sender config number (tx # txs) changed =
     (case AsMessage Sender tx of
        Inl err \<Rightarrow> Inl err
      | Inr msg \<Rightarrow> stake_changes Sender config number txs (stake_change config number msg changed))"

definition update_point :: "BSRR \<Rightarrow> StateDB \<Rightarrow> header \<Rightarrow> StateDB \<Rightarrow> address \<Rightarrow> StateDB run" where
  "update_point c prevState h st addr =
     (case GetStakeBalance st addr of (currentStkBal, st1) \<Rightarrow>
        bind_run
          (if 0 < currentStkBal then
             bind_run (big_Div currentStkBal UnitForBer) (\<lambda>current.
             bind_run (big_Div (fst (GetStakeBalance prevState addr)) UnitForBer) (\<lambda>prevStkBal.
               CalcPointBigint prevStkBal (current - prevStkBal) (hNumber h) (fst (GetStakeUpdated st1 addr))
                 (Period (bconfig c))))
           else Inr 0)
          (\<lambda>point. Inr (SetPoint st1 addr point)))"

fun change_loop ::
  "BSRR \<Rightarrow> StateDB \<Rightarrow> header \<Rightarrow> (address \<times> bool) list \<Rightarrow> StateDB option \<Rightarrow> stakers
    \<Rightarrow> (StateDB option \<times> stakers) run" where
  "change_loop c prevState h [] st stks = Inr (st, stks)"
| "change_loop c prevState h ((addr, isAdd) # rest) st stks =
     bind_run
       (case st of
          None \<Rightarrow> Inr None
        | Some s \<Rightarrow> bind_run (update_point c prevState h s addr) (\<lambda>s1. Inr (Some s1)))
       (\<lambda>st1. change_loop c prevState h rest st1
                (if isAdd then stakers_Put stks addr else stakers_Remove stks addr))"

definition setStakersWithTxs ::
  "'g externals \<Rightarrow> BSRR \<Rightarrow> StateDB option \<Rightarrow> ChainReader \<Rightarrow> stakers \<Rightarrow> Transaction list \<Rightarrow> header
    \<Rightarrow> (consensus_error + (StateDB option \<times> stakers)) run" where
  "setStakersWithTxs x c st chain stks txs h =
     (case chain_GetHeader chain (hParentHash h) (big_Uint64 (hNumber h) - 1) of
        None \<Rightarrow> Inr (Inl ErrUnknownAncestor)
      | Some parent \<Rightarrow>
          (case chain_StateAt chain (hRoot parent) of
             Inl _ \<Rightarrow> Inr (Inl errMissingState)
           | Inr prevState \<Rightarrow>
               (case stake_changes (xSender x (chain_Config chain) (hNumber h)) (chain_Config chain) (hNumber h) txs [] of
                  Inl err \<Rightarrow> Inr (Inl (errOther err))
                | Inr stkChanged \<Rightarrow>
                    bind_run (change_loop c prevState h (xMapOrder x stkChanged) st stks) (\<lambda>r. Inr (Inr r)))))"

fun checkBlocks ::
  "'g externals \<Rightarrow> BSRR \<Rightarrow> ChainReader \<Rightarrow> stakers \<Rightarrow> Block list \<Rightarrow> (consensus_error + stakers) run" where
  "checkBlocks x c chain stks [] = Inr (Inr stks)"
| "checkBlocks x c chain stks (block # rest) =
     bind_run (setStakersWithTxs x c None chain stks (blk_transactions block) (blk_header block)) (\<lambda>r.
       case r of Inl err \<Rightarrow> Inr (Inl err) | Inr (_, stks1) \<Rightarrow> checkBlocks x c chain stks1 rest)"

definition getStakers ::
  "'g externals \<Rightarrow> BSRR \<Rightarrow> ChainReader \<Rightarrow> u64 \<Rightarrow> hash \<Rightarrow> ((consensus_error + stakers) \<times> BSRR) run" where
  "getStakers x c chain number h =
     (case getStakers_loop chain c number h [] of
        (Inl err, c1) \<Rightarrow> Inr (Inl err, c1)
      | (Inr (lst, blocks), c1) \<Rightarrow>
          if blocks = [] then Inr (Inr lst, c1)
          else
            bind_run (checkBlocks x c1 chain lst (reverse_loop 0 blocks)) (\<lambda>r.
              case r of
                Inl err \<Rightarrow> Inr (Inl err, c1)
              | Inr stks \<Rightarrow>
                  (let c2 = c1\<lparr>bcache := xArcAdd x (bcache c1) h (json_Marshal stks)\<rparr> in
                   case staking_Commit (bstakingDB c2) (hash_Hex h) stks of
                     Inl err \<Rightarrow> Inr (Inl (errDB err), c2)
                   | Inr db \<Rightarrow> Inr (Inr stks, c2\<lparr>bstakingDB := db\<rparr>))))"

definition getSigners ::
  "'g externals \<Rightarrow> BSRR \<Rightarrow> ChainReader \<Rightarrow> header \<Rightarrow> ((consensus_error + address list) \<times> BSRR) run" where
  "getSigners x c chain target =
     (if hNumber target = 0 then Inr (getSignersFromExtraData target, c)
      else if hNumber target < sint (Epoch (bconfig c)) then
        (case chain_GetHeaderByNumber chain 0 of
           None \<Rightarrow> Inl NilDereference
         | Some genesis \<Rightarrow> Inr (getSignersFromExtraData genesis, c))
      else
        bind_run (getStakers x c chain (big_Uint64 (hNumber target)) (header_Hash target)) (\<lambda>(r, c1).
          case r of
            Inl _ \<Rightarrow> Inr (Inl (errOther ''failed to get staking list''), c1)
          | Inr lst \<Rightarrow> Inr (Inr (AsList lst), c1)))"

subsection \<open>Difficulty and rank\<close>

definition rank_of :: "VoteResults \<Rightarrow> address \<Rightarrow> int" where
  "rank_of results signer = (case results signer of None \<Rightarrow> 0 | Some r \<Rightarrow> Rank r)"

text \<open>The score of an address that is not among the results is a nil pointer.\<close>

definition calcDifficultyAndRank ::
  "'g externals \<Rightarrow> BSRR \<Rightarrow> address \<Rightarrow> ChainReader \<Rightarrow> u64 \<Rightarrow> header \<Rightarrow> ((int option \<times> int) \<times> BSRR) loop" where
  "calcDifficultyAndRank x c signer chain time target =
     (if hNumber target = 0 then Some (Inr ((Some diffWithoutStaker, 1), c))
      else
        bind_loop (Some (getStakers x c chain (big_Uint64 (hNumber target)) (header_Hash target))) (\<lambda>(r, c1).
          case r of
            Inl _ \<Rightarrow> Some (Inr ((Some 0, - 1), c1))
          | Inr stks \<Rightarrow>
              (case chain_StateAt chain (hRoot target) of
                 Inl _ \<Rightarrow> Some (Inr ((Some 0, - 1), c1))
               | Inr st \<Rightarrow>
                   bind_loop
                     (SelectBlockCreator (xInt63n x) (xSeed x) (xSha256 x) (chain_Config chain)
                        (big_Uint64 (hNumber target)) stks (\<lambda>a. fst (GetStakeBalance st a))
                        (\<lambda>a. fst (GetStakeUpdated st a)) (\<lambda>a. fst (GetPoint st a)))
                     (\<lambda>results.
                        if getMaxMiningCandidates c1 (int (card (dom results))) < rank_of results signer
                        then Some (Inr ((Some 0, - 1), c1))
                        else Some (Inr ((map_option Score (results signer), rank_of results signer), c1))))))"

definition CalcDifficulty ::
  "'g externals \<Rightarrow> BSRR \<Rightarrow> ChainReader \<Rightarrow> u64 \<Rightarrow> header option \<Rightarrow> (int option \<times> BSRR) loop" where
  "CalcDifficulty x c chain time parent =
     bind_loop (getStakeTargetBlock c chain parent) (\<lambda>t.
       case t of
         None \<Rightarrow> Some (Inr (Some 0, c))
       | Some target \<Rightarrow>
           bind_loop (calcDifficultyAndRank x c (bsigner c) chain time target) (\<lambda>((diff, _), c1).
             Some (Inr (diff, c1))))"

subsection \<open>Rewards\<close>

fun release_loop :: "ChainConfig \<Rightarrow> header \<Rightarrow> address list \<Rightarrow> StateDB \<Rightarrow> StateDB run" where
  "release_loop config h [] st = Inr st"
| "release_loop config h (addr # rest) st =
     (case GetFirstBehindBalance st addr of
        (Inl _, st1) \<Rightarrow> release_loop config h rest st1
      | (Inr behind, st1) \<Rightarrow>
          if hNumber h < bhNumber behind + uint (Epoch (Bsrr config)) then release_loop config h rest st1
          else if \<not> 0 < bhBalance behind then release_loop config h rest st1
          else
            bind_run (RemoveFirstBehindBalance (AddBalance st1 addr (bhBalance behind)) addr)
              (\<lambda>st2. release_loop config h rest st2))"

definition accumulateRewards ::
  "'g externals \<Rightarrow> BSRR \<Rightarrow> ChainReader \<Rightarrow> StateDB \<Rightarrow> header \<Rightarrow> (StateDB \<times> BSRR) loop" where
  "accumulateRewards x c chain st h =
     bind_loop (Some (getReward (chain_Config chain) h)) (\<lambda>reward.
       let st1 = AddBehindBalance st (hCoinbase h) (hNumber h) reward in
     bind_loop (getAncestor chain (sint (Epoch (Bsrr (chain_Config chain)))) h) (\<lambda>t.
       case t of
         None \<Rightarrow> Some (Inr (st1, c))
       | Some target \<Rightarrow>
           bind_loop (Some (getSigners x c chain target)) (\<lambda>(r, c1).
             case r of
               Inl _ \<Rightarrow> Some (Inr (st1, c1))
             | Inr signers \<Rightarrow>
                 bind_loop (Some (release_loop (chain_Config chain) h signers st1)) (\<lambda>st2.
                   Some (Inr (st2, c1))))))"

subsection \<open>Preparing, finalising and sealing a block\<close>

definition Prepare ::
  "'g externals \<Rightarrow> BSRR \<Rightarrow> ChainReader \<Rightarrow> int \<Rightarrow> header \<Rightarrow> ((consensus_error option \<times> header) \<times> BSRR) loop" where
  "Prepare x c chain now h =
     (let h0 = h\<lparr>hNonce := replicate 8 0\<rparr> in
      case chain_GetHeader chain (hParentHash h) (big_Uint64 (hNumber h) - 1) of
        None \<Rightarrow> Some (Inr ((Some ErrUnknownAncestor, h0), c))
      | Some parent \<Rightarrow>
          bind_loop (getStakeTargetBlock c chain (Some parent)) (\<lambda>t.
            case t of
              None \<Rightarrow> Some (Inr ((Some ErrUnknownAncestor, h0), c))
            | Some target \<Rightarrow>
                bind_loop (calcDifficultyAndRank x c (bsigner c) chain 0 target) (\<lambda>((diff, rank), c1).
                  if rank < 1 then Some (Inr ((Some errUnauthorizedSigner, h0), c1))
                  else
                    (case diff of
                       None \<Rightarrow> Some (Inl NilDereference)
                     | Some d \<Rightarrow>
                         (let time = hTime parent + uint (Period (bconfig c1)) in
                          Some (Inr ((None,
                            h0\<lparr>hDifficulty := d, hNonce := EncodeNonce (word_of_int rank),
                               hExtra := take extraVanity (hExtra h @ replicate (extraVanity - length (hExtra h)) 0)
                                 @ replicate extraSeal 0,
                               hMixDigest := 0,
                               hTime := (if big_Int64 time < now then now else time)\<rparr>), c1)))))))"

fun bip1_loop :: "int option \<Rightarrow> StateDB \<Rightarrow> address list \<Rightarrow> stakers \<Rightarrow> stakers run" where
  "bip1_loop minimum st [] stks = Inr stks"
| "bip1_loop minimum st (addr # rest) stks =
     (case minimum of
        None \<Rightarrow> Inl NilDereference
      | Some m \<Rightarrow>
          (case GetStakeBalance st addr of (b, st1) \<Rightarrow>
             bip1_loop minimum st1 rest (if b < m then stakers_Remove stks addr else stks)))"

definition supportBIP1 ::
  "'g externals \<Rightarrow> BSRR \<Rightarrow> ChainReader \<Rightarrow> header option \<Rightarrow> stakers \<Rightarrow> ((consensus_error + stakers) \<times> BSRR) run" where
  "supportBIP1 x c chain parent stks =
     (case parent of
        None \<Rightarrow> Inl NilDereference
      | Some p \<Rightarrow>
          (case chain_StateAt chain (hRoot p) of
             Inl err \<Rightarrow> Inr (Inl (errOther err), c)
           | Inr st \<Rightarrow>
               bind_run (bip1_loop (StakeMinimum (bconfig c)) st (AsList stks) stks) (\<lambda>stks1.
                 let c1 = c\<lparr>bcache := xArcAdd x (bcache c) (header_Hash p) (json_Marshal stks1)\<rparr> in
                 case staking_Commit (bstakingDB c1) (hash_Hex (header_Hash p)) stks1 of
                   Inl err \<Rightarrow> Inr (Inl (errDB err), c1)
                 | Inr db \<Rightarrow> Inr (Inr stks1, c1\<lparr>bstakingDB := db\<rparr>))))"

definition CleanCycle :: int where "CleanCycle = 100000"

definition signersMap :: "address list \<Rightarrow> address set" where
  "signersMap s = set s"

text \<open>The checks of \<open>Finalize\<close> on the creator of a block, which it makes for every block with a creator.\<close>

definition check_creator ::
  "'g externals \<Rightarrow> BSRR \<Rightarrow> ChainReader \<Rightarrow> header \<Rightarrow> stakers \<Rightarrow> ((consensus_error + stakers) \<times> BSRR) loop" where
  "check_creator x c chain h stks =
     (let parent = chain_GetHeader chain (hParentHash h) (big_Uint64 (hNumber h) - 1) in
      bind_loop
        (Some (if IsBIP1Block (chain_Config chain) (Some (hNumber h)) then supportBIP1 x c chain parent stks
               else Inr (Inr stks, c))) (\<lambda>(r, c1).
      case r of
        Inl _ \<Rightarrow> Some (Inr (Inl errBIP1, c1))
      | Inr stks1 \<Rightarrow>
          bind_loop (getStakeTargetBlock c1 chain parent) (\<lambda>t.
          case t of
            None \<Rightarrow> Some (Inr (Inl ErrUnknownAncestor, c1))
          | Some target \<Rightarrow>
              bind_loop (Some (getSigners x c1 chain target)) (\<lambda>(r, c2).
              case r of
                Inl _ \<Rightarrow> Some (Inr (Inl errUnauthorizedSigner, c2))
              | Inr signers \<Rightarrow>
                  if hCoinbase h \<notin> signersMap signers then Some (Inr (Inl errUnauthorizedSigner, c2))
                  else
                    bind_loop (calcDifficultyAndRank x c2 (hCoinbase h) chain 0 target) (\<lambda>((predicted, rank), c3).
                    if rank < 1 then Some (Inr (Inl errUnauthorizedSigner, c3))
                    else
                      (case predicted of
                         None \<Rightarrow> Some (Inl NilDereference)
                       | Some p \<Rightarrow>
                           if p \<noteq> hDifficulty h then Some (Inr (Inl errInvalidDifficulty, c3))
                           else if nonce_Uint64 (hNonce h) \<noteq> word_of_int rank
                           then Some (Inr (Inl errInvalidNonce, c3))
                           else if hNumber h mod CleanCycle = 0 then
                             bind_loop
                               (Some (Clean (\<lambda>t. hash_Hex (header_Hash t))
                                  (\<lambda>t. chain_GetHeader chain (hParentHash t) (big_Uint64 (hNumber t) - 1))
                                  (bstakingDB c3) target))
                               (\<lambda>db. Some (Inr (Inr stks1, c3\<lparr>bstakingDB := db\<rparr>)))
                           else Some (Inr (Inr stks1, c3))))))))"

definition engine_Finalize ::
  "'g externals \<Rightarrow> block_roots \<Rightarrow> BSRR \<Rightarrow> ChainReader \<Rightarrow> header \<Rightarrow> StateDB \<Rightarrow> Transaction list \<Rightarrow> Receipt list
    \<Rightarrow> ((consensus_error + Block) \<times> header \<times> StateDB \<times> BSRR) loop" where
  "engine_Finalize x rt c chain h st txs receipts =
     bind_loop (Some (getStakers x c chain (big_Uint64 (hNumber h) - 1) (hParentHash h))) (\<lambda>(r, c1).
     case r of
       Inl _ \<Rightarrow> Some (Inr (Inl errStakingList, h, st, c1))
     | Inr stks \<Rightarrow>
         bind_loop (if hCoinbase h \<noteq> 0 then check_creator x c1 chain h stks else Some (Inr (Inr stks, c1))) (\<lambda>(r, c2).
         case r of
           Inl err \<Rightarrow> Some (Inr (Inl err, h, st, c2))
         | Inr stks1 \<Rightarrow>
             bind_loop (Some (setStakersWithTxs x c2 (Some st) chain stks1 txs h)) (\<lambda>r.
             case r of
               Inl _ \<Rightarrow> Some (Inr (Inl errStakingList, h, st, c2))
             | Inr (None, _) \<Rightarrow> Some (Inl NilDereference)
             | Inr (Some st1, _) \<Rightarrow>
                 bind_loop (accumulateRewards x c2 chain st1 h) (\<lambda>(st2, c3).
                 bind_loop
                   (Some (IntermediateRoot (xDirtyKeys x st2) (xDirtyOrder x st2)
                      (IsEIP158 (chain_Config chain) (Some (hNumber h))) st2)) (\<lambda>(rt_hash, st3).
                 let h1 = h\<lparr>hRoot := rt_hash, hUncleHash := CalcUncleHash []\<rparr> in
                 Some (Inr (Inr (NewBlock rt h1 txs [] receipts), h1, st3, c3)))))))"

text \<open>\<open>time.Time.Sub\<close> saturates at the limits of a duration.\<close>

definition duration_until :: "int \<Rightarrow> int \<Rightarrow> int" where
  "duration_until time nowNanos = max (- (2 ^ 63)) (min (2 ^ 63 - 1) (big_Int64 time * 1000000000 - nowNanos))"

text \<open>\<open>Seal\<close> gives the delay after which the sealed block is sent to the miner, and the block.\<close>

definition Seal ::
  "'g externals \<Rightarrow> (address \<Rightarrow> byte list \<Rightarrow> string + byte list) \<Rightarrow> BSRR \<Rightarrow> ChainReader \<Rightarrow> int \<Rightarrow> Block
    \<Rightarrow> ((consensus_error + int \<times> Block) \<times> BSRR) loop" where
  "Seal x signFn c chain nowNanos block =
     (let h = CopyHeader (blk_header block) in
      if big_Uint64 (hNumber h) = 0 then Some (Inr (Inl errUnknownBlock, c))
      else
        (case chain_GetHeader chain (hParentHash h) (big_Uint64 (hNumber h) - 1) of
           None \<Rightarrow> Some (Inr (Inl ErrUnknownAncestor, c))
         | Some parent \<Rightarrow>
             bind_loop (getStakeTargetBlock c chain (Some parent)) (\<lambda>t.
             case t of
               None \<Rightarrow> Some (Inr (Inl ErrUnknownAncestor, c))
             | Some target \<Rightarrow>
                 bind_loop (Some (getSigners x c chain target)) (\<lambda>(r, c1).
                 case r of
                   Inl err \<Rightarrow> Some (Inr (Inl err, c1))
                 | Inr signers \<Rightarrow>
                     if bsigner c \<notin> signersMap signers then Some (Inr (Inl errUnauthorizedSigner, c1))
                     else
                       bind_loop (calcDifficultyAndRank x c1 (hCoinbase h) chain 0 target) (\<lambda>((_, rank), c2).
                       if rank = - 1 then Some (Inr (Inl errUnauthorizedSigner, c2))
                       else
                         (case getDelay rank of
                            Inl err \<Rightarrow> Some (Inr (Inl err, c2))
                          | Inr temp \<Rightarrow>
                              bind_loop (Some (sigHash h)) (\<lambda>sh.
                              case signFn (bsigner c) (hash_bytes sh) of
                                Inl err \<Rightarrow> Some (Inr (Inl (errOther err), c2))
                              | Inr sighash \<Rightarrow>
                                  (let k = length (hExtra h) - extraSeal;
                                       extra = take k (hExtra h) @ take extraSeal sighash
                                         @ drop (k + min extraSeal (length sighash)) (hExtra h)
                                   in Some (Inr (Inr
                                        (int64 (duration_until (hTime h) nowNanos + temp),
                                         WithSeal block (h\<lparr>hExtra := extra\<rparr>)), c2))))))))))"

fun ratio_loop :: "address \<Rightarrow> StateDB \<Rightarrow> address list \<Rightarrow> rat \<Rightarrow> rat \<Rightarrow> rat \<times> rat" where
  "ratio_loop addr states [] n acc = (n, acc)"
| "ratio_loop addr states (stk # rest) n acc =
     (case GetPoint states stk of (p, states1) \<Rightarrow>
        let point = f64_of_int (big_Int64 p) in
        ratio_loop addr states1 rest (if addr = stk then point else n) (f64_add acc point))"

definition getJoinRatio :: "stakers \<Rightarrow> address \<Rightarrow> StateDB \<Rightarrow> rat" where
  "getJoinRatio stks addr states =
     (case ratio_loop addr states (AsList stks) 0 0 of (n, acc) \<Rightarrow> if acc = 0 then 0 else f64_div n acc)"

subsection \<open>Helper loops\<close>

declare getStakers_loop.simps [simp del] reverse_loop.simps [simp del]

lemma reverse_loop_middle:
  "length xs = i \<Longrightarrow> length zs = i \<Longrightarrow> reverse_loop i (xs @ ys @ zs) = xs @ rev ys @ zs"
proof (induction "length ys" arbitrary: i xs ys zs rule: less_induct)
  case less
  show ?case
  proof (cases "length ys < 2")
    case True
    then have "rev ys = ys" by (cases ys rule: rev_cases) auto
    moreover have "\<not> i < length (xs @ ys @ zs) div 2" using less.prems True by simp
    ultimately show ?thesis by (subst reverse_loop.simps) simp
  next
    case False
    then obtain a m b where ys: "ys = a # m @ [b]"
      by (cases ys; cases "tl ys" rule: rev_cases) auto
    let ?l = "xs @ ys @ zs"
    have len: "length ?l - 1 - i = Suc (length xs + length m)" using less.prems ys by simp
    have "?l[i := ?l ! (length ?l - 1 - i), length ?l - 1 - i := ?l ! i] = (xs @ [b]) @ m @ ([a] @ zs)"
      unfolding len using less.prems ys by (simp add: nth_append list_update_append)
    moreover have "i < length ?l div 2" using less.prems ys by simp
    ultimately have "reverse_loop i ?l = reverse_loop (i + 1) ((xs @ [b]) @ m @ ([a] @ zs))"
      by (subst reverse_loop.simps) simp
    also have "\<dots> = (xs @ [b]) @ rev m @ ([a] @ zs)"
      using less.hyps [of m "xs @ [b]" "i + 1" "[a] @ zs"] less.prems ys by simp
    finally show ?thesis using ys by simp
  qed
qed

lemma reverse_loop_rev: "reverse_loop 0 blocks = rev blocks"
  using reverse_loop_middle [of "[]" 0 "[]" blocks] by simp

lemma hex_digit_inj: "a < 16 \<Longrightarrow> b < 16 \<Longrightarrow> hex_digit a = hex_digit b \<Longrightarrow> a = b"
proof -
  assume ab: "a < 16" "b < 16" "hex_digit a = hex_digit b"
  have "distinct ''0123456789abcdef''" by simp
  from nth_eq_iff_index_eq [OF this, of a b] ab show "a = b" by (simp add: hex_digit_def)
qed

lemma hex_inj: "length bs = length cs \<Longrightarrow> hex_EncodeToString bs = hex_EncodeToString cs \<Longrightarrow> bs = cs"
proof (induction bs cs rule: list_induct2)
  case (Cons b bs c cs)
  have "unat x < 256" for x :: byte using unsigned_less [of x] by simp
  then have lt: "unat x div 16 < 16" "unat x mod 16 < 16" for x :: byte
    by (simp_all add: less_mult_imp_div_less)
  from Cons.prems have "hex_digit (unat b div 16) = hex_digit (unat c div 16)"
    "hex_digit (unat b mod 16) = hex_digit (unat c mod 16)" "hex_EncodeToString bs = hex_EncodeToString cs"
    by (auto simp: hex_EncodeToString_def)
  then have "unat b div 16 = unat c div 16" "unat b mod 16 = unat c mod 16" "bs = cs"
    using hex_digit_inj lt Cons.IH by blast+
  then have "unat b = unat c" by (metis div_mult_mod_eq)
  with \<open>bs = cs\<close> show ?case by (simp add: word_unat_eq_iff)
qed simp

lemma hash_bytes_inj: "hash_bytes h = hash_bytes h' \<Longrightarrow> h = h'"
proof -
  assume "hash_bytes h = hash_bytes h'"
  then have "be_value (hash_bytes h) = be_value (hash_bytes h')" by simp
  moreover have "be_value (hash_bytes x) = unat x" for x :: hash
  proof -
    have "unat x < 256 ^ 32" using unsigned_less [of x] by simp
    then show ?thesis by (simp add: hash_bytes_def be_value_be_bytes)
  qed
  ultimately show ?thesis by (simp add: word_unat_eq_iff)
qed

lemma hash_Hex_inj: "hash_Hex h = hash_Hex h' \<longleftrightarrow> h = h'"
  using hex_inj [of "hash_bytes h" "hash_bytes h'"] hash_bytes_inj [of h h']
  by (auto simp: hash_Hex_def hash_bytes_def)

subsection \<open>The stakers by replay\<close>

text \<open>What the stakers of a block are: nobody at the genesis block, and then, block by block, without those
  whose last transaction in the block withdrew a stake and with those whose last transaction made one.\<close>

definition apply_set :: "(address \<times> bool) list \<Rightarrow> address set \<Rightarrow> address set" where
  "apply_set ch S = (S - {a. (a, False) \<in> set ch}) \<union> {a. (a, True) \<in> set ch}"

definition block_changes :: "'g externals \<Rightarrow> ChainReader \<Rightarrow> Block \<Rightarrow> string + (address \<times> bool) list" where
  "block_changes x chain b =
     stake_changes (xSender x (chain_Config chain) (hNumber (blk_header b))) (chain_Config chain)
       (hNumber (blk_header b)) (blk_transactions b) []"

primrec stakers_at :: "'g externals \<Rightarrow> ChainReader \<Rightarrow> nat \<Rightarrow> hash \<Rightarrow> address set option" where
  "stakers_at x chain 0 h = Some {}"
| "stakers_at x chain (Suc n) h =
     (case chain_GetBlock chain h (of_nat (Suc n)) of
        None \<Rightarrow> None
      | Some b \<Rightarrow>
          (case (stakers_at x chain n (hParentHash (blk_header b)), block_changes x chain b) of
             (Some S, Inr ch) \<Rightarrow> Some (apply_set ch S)
           | _ \<Rightarrow> None))"

text \<open>An iteration over a Go map visits every entry once, in any order.\<close>

definition order_ok :: "'g externals \<Rightarrow> bool" where
  "order_ok x \<longleftrightarrow> (\<forall>cs. distinct (map fst cs) \<longrightarrow> distinct (map fst (xMapOrder x cs)) \<and> set (xMapOrder x cs) = set cs)"

text \<open>The chain behind the interface: a block is stored under one number, its parent is known with its state,
  and the senders of its transactions can be recovered.\<close>

definition blocks_ok :: "'g externals \<Rightarrow> ChainReader \<Rightarrow> bool" where
  "blocks_ok x chain \<longleftrightarrow>
     (\<forall>h n b. chain_GetBlock chain h n = Some b \<and> n \<noteq> 0 \<longrightarrow>
        (\<forall>m. chain_GetBlock chain h m \<noteq> None \<longrightarrow> m = n)
        \<and> (n = 1 \<or> chain_GetBlock chain (hParentHash (blk_header b)) (n - 1) \<noteq> None)
        \<and> (\<exists>p st. chain_GetHeader chain (hParentHash (blk_header b)) (big_Uint64 (hNumber (blk_header b)) - 1) = Some p
             \<and> chain_StateAt chain (hRoot p) = Inr st)
        \<and> (\<exists>ch. block_changes x chain b = Inr ch)
        \<and> (\<forall>S. stakers_at x chain (unat n) h = Some S \<longrightarrow> card S < 2 ^ 59))"

text \<open>The staking database is consistent if what it holds for a block are the block's stakers.\<close>

definition db_consistent :: "'g externals \<Rightarrow> ChainReader \<Rightarrow> StakingDB \<Rightarrow> bool" where
  "db_consistent x chain db \<longleftrightarrow>
     (\<forall>n h l. n \<noteq> 0 \<and> chain_GetBlock chain h n \<noteq> None \<and> GetStakers db (hash_Hex h) = Inr l \<longrightarrow>
        stakers_at x chain (unat n) h = Some (set l))"

lemma GetStakers_inv: "GetStakers db key = Inr l \<Longrightarrow> stakers_inv l"
  by (auto simp: GetStakers_def NewStakers_def stakers_inv_def intro!: FetchFromList_inv [unfolded stakers_inv_def]
      split: sum.splits)

lemma stake_changes_distinct:
  "stake_changes Sender config number txs ch = Inr ch' \<Longrightarrow> distinct (map fst ch) \<Longrightarrow> distinct (map fst ch')"
proof (induction txs arbitrary: ch)
  case (Cons tx txs)
  then show ?case
    by (auto simp: stake_change_def distinct_update split: sum.splits)
qed simp

lemma change_loop_stakers:
  "change_loop c prevState h cs st stks = Inr (st', stks') \<Longrightarrow> stks' = go_stakers.apply_changes stks cs"
  by (induction c prevState h cs st stks rule: change_loop.induct) auto

lemma change_loop_None:
  "change_loop c prevState h cs None stks = Inr (None, go_stakers.apply_changes stks cs)"
  by (induction cs arbitrary: stks) auto

lemma apply_changes_set:
  assumes "order_ok x" "stakers_inv stks" "distinct (map fst ch)"
  shows "stakers_inv (go_stakers.apply_changes stks (xMapOrder x ch))"
    "set (go_stakers.apply_changes stks (xMapOrder x ch)) = apply_set ch (set stks)"
proof -
  have o: "distinct (map fst (xMapOrder x ch))" "set (xMapOrder x ch) = set ch"
    using assms by (auto simp: order_ok_def)
  show "stakers_inv (go_stakers.apply_changes stks (xMapOrder x ch))"
    using assms(2) by (rule go_stakers.inv_apply_changes)
  show "set (go_stakers.apply_changes stks (xMapOrder x ch)) = apply_set ch (set stks)"
    using go_stakers.set_apply_changes [OF assms(2) o(1)] o(2) by (simp add: AsList_def apply_set_def)
qed

lemma setStakersWithTxs_replay:
  assumes "order_ok x" "stakers_inv stks" "block_changes x chain b = Inr ch"
    "chain_GetHeader chain (hParentHash (blk_header b)) (big_Uint64 (hNumber (blk_header b)) - 1) = Some p"
    "chain_StateAt chain (hRoot p) = Inr ps"
  shows "\<exists>stks'. setStakersWithTxs x c None chain stks (blk_transactions b) (blk_header b) = Inr (Inr (None, stks'))
    \<and> stakers_inv stks' \<and> set stks' = apply_set ch (set stks)"
proof -
  have d: "distinct (map fst ch)"
    using assms(3) stake_changes_distinct [where ch = "[]"] by (fastforce simp: block_changes_def)
  show ?thesis
    using assms(3-5) apply_changes_set [OF assms(1,2) d]
    by (simp add: setStakersWithTxs_def block_changes_def change_loop_None)
qed

lemma checkBlocks_append:
  "checkBlocks x c chain stks (bs @ cs) =
     bind_run (checkBlocks x c chain stks bs) (\<lambda>r.
       case r of Inl err \<Rightarrow> Inr (Inl err) | Inr stks1 \<Rightarrow> checkBlocks x c chain stks1 cs)"
proof (induction bs arbitrary: stks)
  case (Cons b bs)
  then show ?case
    by (cases "setStakersWithTxs x c None chain stks (blk_transactions b) (blk_header b)") (auto split: sum.split)
qed simp

text \<open>Two engines that differ in their cache only.\<close>

definition same_store :: "BSRR \<Rightarrow> BSRR \<Rightarrow> bool" where
  "same_store c c' \<longleftrightarrow> bstakingDB c' = bstakingDB c \<and> bconfig c' = bconfig c \<and> bsigner c' = bsigner c
     \<and> bsignatures c' = bsignatures c"

lemma cached_stakers_None:
  obtains c1 where "cached_stakers c h = (None, c1)" "same_store c c1"
  by (cases "bcache c h") (auto simp: cached_stakers_def json_Unmarshal_def same_store_def)

lemma same_store_trans: "same_store c c1 \<Longrightarrow> same_store c1 c2 \<Longrightarrow> same_store c c2"
  by (simp add: same_store_def)

lemma checkBlocks_config: "checkBlocks x c chain stks bs = checkBlocks x c' chain stks bs"
proof -
  have "setStakersWithTxs x c None chain s txs h = setStakersWithTxs x c' None chain s txs h" for s txs h
    by (simp add: setStakersWithTxs_def change_loop_None split: option.split sum.split)
  then show ?thesis by (induction bs arbitrary: stks) (auto intro!: bind_run_cong split: sum.split)
qed

lemma getStakers_loop_replay:
  assumes "order_ok x" "blocks_ok x chain"
  shows "db_consistent x chain (bstakingDB c) \<Longrightarrow> n = 0 \<or> chain_GetBlock chain h n \<noteq> None \<Longrightarrow>
    \<exists>l new c1 stks. getStakers_loop chain c n h bs = (Inr (l, bs @ new), c1) \<and> same_store c c1
      \<and> checkBlocks x c chain l (rev new) = Inr (Inr stks) \<and> stakers_inv stks
      \<and> stakers_at x chain (unat n) h = Some (set stks) \<and> (new = [] \<longrightarrow> stks = l) \<and> (new \<noteq> [] \<longrightarrow> n \<noteq> 0)"
proof (induction "unat n" arbitrary: c n h bs rule: less_induct)
  case less
  obtain c1 where c1: "cached_stakers c h = (None, c1)" "same_store c c1" by (rule cached_stakers_None)
  have db: "bstakingDB c1 = bstakingDB c" using c1(2) by (simp add: same_store_def)
  consider "n = 0" | l where "n \<noteq> 0" "GetStakers (bstakingDB c) (hash_Hex h) = Inr l"
    | e where "n \<noteq> 0" "GetStakers (bstakingDB c) (hash_Hex h) = Inl e" by (metis sum.exhaust)
  then show ?case
  proof cases
    case 1
    then show ?thesis using c1 by (simp add: getStakers_loop.simps NewStakers_def stakers_inv_def)
  next
    case 2
    with less.prems have "stakers_at x chain (unat n) h = Some (set l)" by (auto simp: db_consistent_def)
    with 2 c1 db GetStakers_inv [OF 2(2)] show ?thesis by (simp add: getStakers_loop.simps)
  next
    case 3
    from less.prems 3 obtain b where b: "chain_GetBlock chain h n = Some b" by auto
    let ?p = "hParentHash (blk_header b)"
    from assms(2) b 3 have ok: "n = 1 \<or> chain_GetBlock chain ?p (n - 1) \<noteq> None"
      and ps: "\<exists>p st. chain_GetHeader chain ?p (big_Uint64 (hNumber (blk_header b)) - 1) = Some p
             \<and> chain_StateAt chain (hRoot p) = Inr st" and "\<exists>ch. block_changes x chain b = Inr ch"
      by (auto simp: blocks_ok_def)
    then obtain ch where ch: "block_changes x chain b = Inr ch" by blast
    from 3 have m: "unat n = Suc (unat (n - 1))" by (simp add: unat_minus_one unat_gt_0)
    from less.hyps [of "n - 1" c1 ?p "bs @ [b]"] m ok less.prems(1) db obtain l new c2 stks where
      r: "getStakers_loop chain c1 (n - 1) ?p (bs @ [b]) = (Inr (l, bs @ [b] @ new), c2)" "same_store c1 c2"
        "checkBlocks x c1 chain l (rev new) = Inr (Inr stks)" "stakers_inv stks"
        "stakers_at x chain (unat (n - 1)) ?p = Some (set stks)" by auto
    from ps obtain p st where p: "chain_GetHeader chain ?p (big_Uint64 (hNumber (blk_header b)) - 1) = Some p"
      "chain_StateAt chain (hRoot p) = Inr st" by blast
    from setStakersWithTxs_replay [OF assms(1) r(4) ch p] obtain stks' where
      s: "setStakersWithTxs x c None chain stks (blk_transactions b) (blk_header b) = Inr (Inr (None, stks'))"
        "stakers_inv stks'" "set stks' = apply_set ch (set stks)" by blast
    have "getStakers_loop chain c n h bs = (Inr (l, bs @ b # new), c2)"
      using 3 c1 db b r(1) by (subst getStakers_loop.simps) simp
    moreover have "checkBlocks x c chain l (rev (b # new)) = Inr (Inr stks')"
      using r(3) s(1) by (simp add: checkBlocks_append checkBlocks_config [of x c chain _ _ c1])
    moreover have "of_nat (Suc (unat (n - 1))) = n" by (simp only: m [symmetric]) simp
    then have "stakers_at x chain (unat n) h = Some (set stks')" using b ch r(5) s(3) by (simp add: m)
    ultimately show ?thesis using s(2) same_store_trans [OF c1(2) r(2)] 3(1) by blast
  qed
qed

lemma db_consistent_commit:
  assumes "blocks_ok x chain" "db_consistent x chain db" "chain_GetBlock chain h n \<noteq> None" "n \<noteq> 0"
    "stakers_at x chain (unat n) h = Some (set stks)"
    "\<And>key. GetStakers db' key = (if key = hash_Hex h then Inr stks else GetStakers db key)"
  shows "db_consistent x chain db'"
  unfolding db_consistent_def
proof (intro allI impI)
  fix m k l
  assume a: "m \<noteq> 0 \<and> chain_GetBlock chain k m \<noteq> None \<and> GetStakers db' (hash_Hex k) = Inr l"
  show "stakers_at x chain (unat m) k = Some (set l)"
  proof (cases "k = h")
    case True
    from assms(1,3,4) have "\<forall>m. chain_GetBlock chain h m \<noteq> None \<longrightarrow> m = n" unfolding blocks_ok_def by blast
    with a True have "m = n" by blast
    with a True assms(5,6) show ?thesis by simp
  next
    case False
    with a assms(2,6) show ?thesis by (simp add: db_consistent_def hash_Hex_inj)
  qed
qed

lemma getStakers_consistent:
  assumes "order_ok x" "blocks_ok x chain" "db_consistent x chain (bstakingDB c)"
    "n = 0 \<or> chain_GetBlock chain h n \<noteq> None"
  obtains l c' where "getStakers x c chain n h = Inr (Inr l, c')" "stakers_inv l"
    "stakers_at x chain (unat n) h = Some (set l)" "db_consistent x chain (bstakingDB c')"
    "bconfig c' = bconfig c" "bsigner c' = bsigner c"
proof -
  from getStakers_loop_replay [OF assms, of "[]"] obtain l new c1 stks where
    r: "getStakers_loop chain c n h [] = (Inr (l, new), c1)" "same_store c c1"
      "checkBlocks x c chain l (rev new) = Inr (Inr stks)" "stakers_inv stks"
      "stakers_at x chain (unat n) h = Some (set stks)" "new = [] \<longrightarrow> stks = l" "new \<noteq> [] \<longrightarrow> n \<noteq> 0" by auto
  show ?thesis
  proof (cases "new = []")
    case True
    with r assms(3) that [of l c1] show ?thesis by (simp add: getStakers_def same_store_def)
  next
    case False
    with r(7) assms(4) have b: "chain_GetBlock chain h n \<noteq> None" "n \<noteq> 0" by auto
    then have "card (set stks) < 2 ^ 59" using assms(2) r(5) unfolding blocks_ok_def by blast
    then have "length stks < 2 ^ 59" using r(4) by (simp add: stakers_inv_def distinct_card)
    from staking_store [OF r(4) this, of "bstakingDB c" "hash_Hex h"] obtain db' where
      db': "staking_Commit (bstakingDB c) (hash_Hex h) stks = Inr db'"
        "\<And>key. GetStakers db' key = (if key = hash_Hex h then Inr stks else GetStakers (bstakingDB c) key)" by blast
    let ?c = "c1\<lparr>bcache := xArcAdd x (bcache c1) h (json_Marshal stks), bstakingDB := db'\<rparr>"
    have "getStakers x c chain n h = Inr (Inr stks, ?c)"
      using r(1-3) False db'(1)
      by (simp add: getStakers_def reverse_loop_rev checkBlocks_config [of x c1 chain _ _ c] same_store_def Let_def)
    with that [of stks ?c] r db_consistent_commit [OF assms(2,3) b r(5) db'(2)] show ?thesis
      by (simp add: same_store_def)
  qed
qed

text \<open>C5: The stakers the engine computes for a block are those of a replay of the whole chain, whatever entries its
  database happens to hold, whatever its cache drops and in whatever order it visits the map of changes;
  what it stores keeps the database consistent.\<close>

theorem getStakers_replay:
  assumes "order_ok x" "blocks_ok x chain" "db_consistent x chain (bstakingDB c)"
    "n = 0 \<or> chain_GetBlock chain h n \<noteq> None"
  shows "\<exists>l c'. getStakers x c chain n h = Inr (Inr l, c') \<and> stakers_inv l
    \<and> stakers_at x chain (unat n) h = Some (set l) \<and> db_consistent x chain (bstakingDB c')"
  using getStakers_consistent [OF assms] by metis

definition sample_externals :: "int externals" where
  "sample_externals = \<lparr>xInt63n = (\<lambda>g n. (g mod n, g + 7)), xSeed = (\<lambda>s. s), xSha256 = (\<lambda>b. b),
     xSender = (\<lambda>_ _ _. Inr 42), xArcAdd = (\<lambda>m k v. m(k \<mapsto> v)), xMapOrder = (\<lambda>cs. cs),
     xDirtyOrder = (\<lambda>_. []), xDirtyKeys = (\<lambda>_ _. [])\<rparr>"

definition stake_block :: Block where
  "stake_block = \<lparr>blk_header = sample_header\<lparr>hNumber := 1\<rparr>, blk_uncles = [],
     blk_transactions = [newTransaction 0 None (Some 5) 21000 None [] jw_Main jw_Stake]\<rparr>"

definition sample_state :: StateDB where
  "sample_state = (case state_New 0 empty_db of Inr s \<Rightarrow> s)"

definition stake_chain :: ChainReader where
  "stake_chain = sample_chain\<lparr>chain_GetBlock := (\<lambda>h n. if h = 7 \<and> n = 1 then Some stake_block else None),
     chain_GetHeader := (\<lambda>h n. Some sample_header), chain_StateAt := (\<lambda>_. Inr sample_state)\<rparr>"

lemma stake_block_changes: "block_changes sample_externals stake_chain stake_block = Inr [(42, True)]"
  by (simp add: block_changes_def stake_block_def newTransaction_def AsMessage_def sample_externals_def stake_change_def
      jw_Main_def jw_Stake_def)

lemma stake_chain_ok: "order_ok sample_externals" "blocks_ok sample_externals stake_chain"
proof -
  show "order_ok sample_externals" by (simp add: order_ok_def sample_externals_def)
  have "stakers_at sample_externals stake_chain (unat (1 :: u64)) 7 = Some {42}"
    using stake_block_changes by (simp add: stake_chain_def apply_set_def)
  then show "blocks_ok sample_externals stake_chain"
    using stake_block_changes unfolding blocks_ok_def by (auto simp: stake_chain_def split: if_splits)
qed

lemma empty_db_consistent: "db_consistent x chain \<lparr>stakeDB = [], NoPruning = np\<rparr>"
  by (simp add: db_consistent_def GetStakers_def getValue_def)

theorem getStakers_replay_witness:
  "\<exists>c'. getStakers sample_externals sample_engine stake_chain 1 7 = Inr (Inr [42], c')
    \<and> stakers_at sample_externals stake_chain (unat (1 :: u64)) 7 = Some {42}"
proof -
  have db: "db_consistent sample_externals stake_chain (bstakingDB sample_engine)"
    by (simp add: sample_engine_def bsrr_New_def Let_def empty_db_consistent)
  have k: "chain_GetBlock stake_chain 7 1 \<noteq> None" by (simp add: stake_chain_def)
  have s: "stakers_at sample_externals stake_chain (unat (1 :: u64)) 7 = Some {42}"
    using stake_block_changes by (simp add: stake_chain_def apply_set_def)
  from getStakers_replay [OF stake_chain_ok db disjI2 [OF k]] s obtain l c' where
    "getStakers sample_externals sample_engine stake_chain 1 7 = Inr (Inr l, c')" "distinct l" "set l = {42}"
    by (auto simp: stakers_inv_def)
  moreover from this have "l = [42]"
    by (cases l; cases "tl l") auto
  ultimately show ?thesis using s by blast
qed

subsection \<open>Agreement between nodes\<close>

text \<open>Two nodes run the same libraries but visit maps in their own orders and have their own caches.\<close>

definition same_libraries :: "'g externals \<Rightarrow> 'g externals \<Rightarrow> bool" where
  "same_libraries x y \<longleftrightarrow> xInt63n y = xInt63n x \<and> xSeed y = xSeed x \<and> xSha256 y = xSha256 x \<and> xSender y = xSender x"

definition result_of :: "('a \<times> BSRR) loop \<Rightarrow> 'a loop" where
  "result_of m = map_option (map_sum id fst) m"

lemma stakers_at_sender:
  assumes "same_libraries x y"
  shows "stakers_at y chain n h = stakers_at x chain n h"
proof (induction n arbitrary: h)
  case (Suc n)
  have "block_changes y chain b = block_changes x chain b" for b
    using assms by (simp add: block_changes_def same_libraries_def)
  with Suc show ?case by (simp split: option.split)
qed simp

lemma same_libraries_ok:
  assumes "same_libraries x y"
  shows "blocks_ok y chain = blocks_ok x chain" "db_consistent y chain db = db_consistent x chain db"
proof -
  have "block_changes y chain b = block_changes x chain b" for b
    using assms by (simp add: block_changes_def same_libraries_def)
  then show "blocks_ok y chain = blocks_ok x chain" "db_consistent y chain db = db_consistent x chain db"
    using stakers_at_sender [OF assms] by (simp_all add: blocks_ok_def db_consistent_def)
qed

lemma calcDifficultyAndRank_same:
  assumes "order_ok x" "order_ok y" "same_libraries x y" "blocks_ok x chain"
    "db_consistent x chain (bstakingDB c)" "db_consistent x chain (bstakingDB c')" "bconfig c' = bconfig c"
    "hNumber t = 0 \<or> chain_GetBlock chain (header_Hash t) (big_Uint64 (hNumber t)) \<noteq> None"
  shows "result_of (calcDifficultyAndRank x c signer chain time t)
    = result_of (calcDifficultyAndRank y c' signer chain time t)"
proof (cases "hNumber t = 0")
  case True
  then show ?thesis by (simp add: calcDifficultyAndRank_def result_of_def)
next
  case False
  let ?n = "big_Uint64 (hNumber t)" and ?h = "header_Hash t"
  have k: "?n = 0 \<or> chain_GetBlock chain ?h ?n \<noteq> None" using assms(8) False by simp
  obtain l c1 where l: "getStakers x c chain ?n ?h = Inr (Inr l, c1)" "stakers_inv l"
    "stakers_at x chain (unat ?n) ?h = Some (set l)" "bconfig c1 = bconfig c"
    using getStakers_consistent [OF assms(1,4,5) k] by metis
  have "blocks_ok y chain" "db_consistent y chain (bstakingDB c')"
    using same_libraries_ok [OF assms(3)] assms(4,6) by simp_all
  then obtain l' c1' where l': "getStakers y c' chain ?n ?h = Inr (Inr l', c1')" "stakers_inv l'"
    "stakers_at y chain (unat ?n) ?h = Some (set l')" "bconfig c1' = bconfig c'"
    using getStakers_consistent [OF assms(2) _ _ k] by metis
  have "set l = set l'" using l(3) l'(3) stakers_at_sender [OF assms(3)] by simp
  note perm = SelectBlockCreator_perm [OF l(2) l'(2) this]
  have mx: "getMaxMiningCandidates c1 = getMaxMiningCandidates c1'"
    using l(4) l'(4) assms(7) by (simp add: getMaxMiningCandidates_def fun_eq_iff)
  show ?thesis
  proof (cases "chain_StateAt chain (hRoot t)")
    case (Inl e)
    with False l(1) l'(1) show ?thesis by (simp add: calcDifficultyAndRank_def result_of_def)
  next
    case (Inr st)
    let ?sel = "SelectBlockCreator (xInt63n x) (xSeed x) (xSha256 x) (chain_Config chain) ?n l'
      (\<lambda>a. fst (GetStakeBalance st a)) (\<lambda>a. fst (GetStakeUpdated st a)) (\<lambda>a. fst (GetPoint st a))"
    show ?thesis
      using False l(1) l'(1) Inr assms(3) mx
      by (cases "(?sel, \<lambda>_ :: VoteResults. None :: nat loop)" rule: bind_loop.cases)
        (simp_all add: calcDifficultyAndRank_def result_of_def perm same_libraries_def)
  qed
qed

text \<open>C9: Nodes agree on the difficulty and rank of every block creator: two engines with the same configuration and
  consistent databases compute the same values, or fail in the same way, whatever their databases and caches hold
  and in whatever order they visit maps.\<close>

theorem calcDifficultyAndRank_agree:
  assumes "order_ok x" "order_ok y" "same_libraries x y" "blocks_ok x chain"
    "db_consistent x chain (bstakingDB c)" "db_consistent x chain (bstakingDB c')" "bconfig c' = bconfig c"
    "hNumber t = 0 \<or> chain_GetBlock chain (header_Hash t) (big_Uint64 (hNumber t)) \<noteq> None"
  shows "result_of (calcDifficultyAndRank x c signer chain time t)
    = result_of (calcDifficultyAndRank y c' signer chain time t)"
  using assms by (rule calcDifficultyAndRank_same)

theorem calcDifficultyAndRank_agree_witness:
  "result_of (calcDifficultyAndRank sample_externals sample_engine 42 stake_chain 0 sample_header)
   = result_of (calcDifficultyAndRank (sample_externals\<lparr>xMapOrder := rev\<rparr>) sample_engine 42 stake_chain 0 sample_header)"
proof (rule calcDifficultyAndRank_agree)
  show "order_ok (sample_externals\<lparr>xMapOrder := rev\<rparr>)" by (simp add: order_ok_def rev_map [symmetric])
  show "same_libraries sample_externals (sample_externals\<lparr>xMapOrder := rev\<rparr>)" by (simp add: same_libraries_def)
qed (simp_all add: stake_chain_ok sample_engine_def bsrr_New_def Let_def empty_db_consistent sample_header_def)

lemma getStakeTargetBlock_known:
  assumes "chain_ok chain" "getStakeTargetBlock c chain p = Some (Inr (Some t))"
  shows "chain_HasBlockAndState chain (header_Hash t) (big_Uint64 (hNumber t))"
proof -
  have n: "big_Uint64 (hNumber t) = k" if "chain_GetHeaderByNumber chain k = Some t" for k
    using assms(1) that by (auto simp: chain_ok_def big_Uint64_def)
  show ?thesis
    using assms(2) n
    by (auto simp: getStakeTargetBlock_def getAncestor_def Let_def split: option.splits if_splits)
qed

lemma getStakeTargetBlock_config:
  "bconfig c' = bconfig c \<Longrightarrow> getStakeTargetBlock c' chain p = getStakeTargetBlock c chain p"
  by (cases p) (simp_all add: getStakeTargetBlock_def Let_def split: option.split)

lemma getSigners_same:
  assumes "order_ok x" "order_ok y" "same_libraries x y" "blocks_ok x chain"
    "db_consistent x chain (bstakingDB c)" "db_consistent x chain (bstakingDB c')" "bconfig c' = bconfig c"
    "hNumber t = 0 \<or> chain_GetBlock chain (header_Hash t) (big_Uint64 (hNumber t)) \<noteq> None"
    "getSigners x c chain t = Inr (Inr l, c1)"
  obtains l' c1' where "getSigners y c' chain t = Inr (Inr l', c1')" "set l' = set l"
    "db_consistent x chain (bstakingDB c1')" "bconfig c1' = bconfig c'"
proof (cases "hNumber t = 0 \<or> hNumber t < sint (Epoch (bconfig c))")
  case True
  with assms(6,7,9) that [of l c'] show ?thesis
    by (auto simp: getSigners_def split: if_splits option.splits)
next
  case False
  let ?n = "big_Uint64 (hNumber t)" and ?h = "header_Hash t"
  have k: "?n = 0 \<or> chain_GetBlock chain ?h ?n \<noteq> None" using assms(8) False by simp
  obtain m c2 where m: "getStakers x c chain ?n ?h = Inr (Inr m, c2)" "stakers_at x chain (unat ?n) ?h = Some (set m)"
    using getStakers_consistent [OF assms(1,4,5) k] by metis
  have "blocks_ok y chain" "db_consistent y chain (bstakingDB c')"
    using same_libraries_ok [OF assms(3)] assms(4,6) by simp_all
  then obtain m' c2' where m': "getStakers y c' chain ?n ?h = Inr (Inr m', c2')"
    "stakers_at y chain (unat ?n) ?h = Some (set m')" "db_consistent y chain (bstakingDB c2')" "bconfig c2' = bconfig c'"
    using getStakers_consistent [OF assms(2) _ _ k] by metis
  have "l = m" using assms(9) False m(1) by (simp add: getSigners_def AsList_def)
  with that [of m' c2'] m(2) m' False assms(7) stakers_at_sender [OF assms(3)] same_libraries_ok [OF assms(3)]
  show ?thesis by (simp add: getSigners_def AsList_def)
qed

lemma result_of_Inr:
  assumes "result_of m = result_of m'" "m = Some (Inr (r, c))"
  obtains c' where "m' = Some (Inr (r, c'))"
  using assms by (cases "(m', \<lambda>_ :: 'a \<times> BSRR. None :: nat loop)" rule: bind_loop.cases) (auto simp: result_of_def)

text \<open>What the interface documents: a block with a state is a block.\<close>

definition has_block_ok :: "ChainReader \<Rightarrow> bool" where
  "has_block_ok chain \<longleftrightarrow> (\<forall>h n. chain_HasBlockAndState chain h n \<longrightarrow> chain_GetBlock chain h n \<noteq> None)"

definition authorized :: "'g externals \<Rightarrow> BSRR \<Rightarrow> ChainReader \<Rightarrow> header \<Rightarrow> bool" where
  "authorized x c chain h \<longleftrightarrow>
     (\<forall>p t. chain_GetHeader chain (hParentHash h) (big_Uint64 (hNumber h) - 1) = Some p
        \<and> getStakeTargetBlock c chain (Some p) = Some (Inr (Some t))
        \<longrightarrow> (\<exists>l c1. getSigners x c chain t = Inr (Inr l, c1) \<and> bsigner c \<in> set l))"

lemma checkBlocks_no_panic: "\<exists>r. checkBlocks x c chain stks bs = Inr r"
proof (induction bs arbitrary: stks)
  case (Cons b bs)
  have "\<exists>r. setStakersWithTxs x c None chain stks txs h = Inr r" for txs h
    by (simp add: setStakersWithTxs_def change_loop_None split: option.split sum.split)
  then obtain r where "setStakersWithTxs x c None chain stks (blk_transactions b) (blk_header b) = Inr r" by blast
  with Cons.IH show ?case by (auto split: sum.split)
qed simp

lemma getStakers_no_panic: "\<exists>r c'. getStakers x c chain n h = Inr (r, c')"
proof -
  obtain res c1 where l: "getStakers_loop chain c n h [] = (res, c1)" by fastforce
  show ?thesis
  proof (cases res)
    case (Inl e)
    with l show ?thesis by (simp add: getStakers_def)
  next
    case (Inr p)
    obtain lst blocks where p: "p = (lst, blocks)" by fastforce
    obtain r where r: "checkBlocks x c1 chain lst (reverse_loop 0 blocks) = Inr r" using checkBlocks_no_panic by blast
    with l Inr p show ?thesis by (cases r) (auto simp: getStakers_def Let_def split: sum.split)
  qed
qed

lemma getStakers_loop_store: "getStakers_loop chain c n h bs = (r, c1) \<Longrightarrow> same_store c c1"
proof (induction "unat n" arbitrary: c n h bs rule: less_induct)
  case less
  obtain c2 where c2: "cached_stakers c h = (None, c2)" "same_store c c2" by (rule cached_stakers_None)
  have m: "unat (n - 1) < unat n" if "n \<noteq> 0" using that by (simp add: unat_minus_one unat_gt_0)
  have e: "getStakers_loop chain c n h bs = (r, c1)" by (rule less.prems)
  show ?case
  proof (cases "\<exists>b. getStakers_loop chain c2 (n - 1) (hParentHash (blk_header b)) (bs @ [b]) = (r, c1) \<and> n \<noteq> 0")
    case True
    with less.hyps m same_store_trans [OF c2(2)] show ?thesis by blast
  next
    case False
    with e c2 show ?thesis by (subst (asm) getStakers_loop.simps) (auto split: if_splits sum.splits option.splits)
  qed
qed

lemma getStakers_config: "getStakers x c chain n h = Inr (r, c1) \<Longrightarrow> bconfig c1 = bconfig c"
proof -
  assume g: "getStakers x c chain n h = Inr (r, c1)"
  obtain q c2 where q: "getStakers_loop chain c n h [] = (q, c2)" by fastforce
  with getStakers_loop_store have c2: "bconfig c2 = bconfig c" by (auto simp: same_store_def)
  show ?thesis
  proof (cases q)
    case (Inl e)
    with g q c2 show ?thesis by (simp add: getStakers_def)
  next
    case (Inr lb)
    obtain u where u: "checkBlocks x c2 chain (fst lb) (reverse_loop 0 (snd lb)) = Inr u" using checkBlocks_no_panic by blast
    with g q c2 Inr show ?thesis
      by (cases u) (auto simp: getStakers_def Let_def case_prod_beta split: sum.splits if_splits)
  qed
qed

lemma getMaxMiningCandidates_le: "getMaxMiningCandidates c n \<le> MaxMiner"
  by (simp add: getMaxMiningCandidates_def Let_def MaxMiner_def)

lemma calcDifficultyAndRank_rank:
  assumes "calcDifficultyAndRank x c signer chain time t = Some (Inr ((d, rank), c1))"
  shows "rank \<le> MaxMiner \<and> bconfig c1 = bconfig c"
proof -
  obtain r c2 where g: "getStakers x c chain (big_Uint64 (hNumber t)) (header_Hash t) = Inr (r, c2)"
    using getStakers_no_panic by blast
  note c2 = getStakers_config [OF g]
  have one: "1 \<le> MaxMiner" "- 1 \<le> MaxMiner" by (simp_all add: MaxMiner_def)
  consider "hNumber t = 0" | e where "r = Inl e" | e where "chain_StateAt chain (hRoot t) = Inl e"
    | l st where "hNumber t \<noteq> 0" "r = Inr l" "chain_StateAt chain (hRoot t) = Inr st" by (metis sum.exhaust)
  then show ?thesis
  proof cases
    case 4
    with assms g have "c1 = c2 \<and> (rank = - 1 \<or> (\<exists>n. rank \<le> getMaxMiningCandidates c2 n))"
      by (auto simp: calcDifficultyAndRank_def not_less split: if_splits)
    with c2 one order_trans [OF _ getMaxMiningCandidates_le] show ?thesis by auto
  qed (use assms g c2 one in \<open>auto simp: calcDifficultyAndRank_def split: if_splits sum.splits\<close>)
qed

lemma Prepare_nil:
  assumes "Prepare x c chain now h = Some (Inr ((None, h'), c1))"
  obtains p t d rank where "chain_GetHeader chain (hParentHash h) (big_Uint64 (hNumber h) - 1) = Some p"
    "getStakeTargetBlock c chain (Some p) = Some (Inr (Some t))"
    "calcDifficultyAndRank x c (bsigner c) chain 0 t = Some (Inr ((Some d, rank), c1))" "1 \<le> rank"
    "hDifficulty h' = d" "hNonce h' = EncodeNonce (word_of_int rank)"
    "hParentHash h' = hParentHash h" "hNumber h' = hNumber h"
    "hTime h' = (if big_Int64 (hTime p + uint (Period (bconfig c1))) < now then now
       else hTime p + uint (Period (bconfig c1)))"
    "hMixDigest h' = 0" "length (hExtra h') = extraVanity + extraSeal"
  using assms by (auto simp: Prepare_def Let_def split: option.splits if_splits prod.splits)

text \<open>What happens to a prepared header before the block is sent: the miner's address and the roots are filled in and
  the signature replaces the zero bytes at the end of the extra data.\<close>

definition completes :: "address \<Rightarrow> header \<Rightarrow> header \<Rightarrow> bool" where
  "completes signer h b \<longleftrightarrow>
     hParentHash b = hParentHash h \<and> hNumber b = hNumber h \<and> hDifficulty b = hDifficulty h \<and> hNonce b = hNonce h
     \<and> hTime b = hTime h \<and> hMixDigest b = hMixDigest h \<and> hCoinbase b = signer \<and> hUncleHash b = uncleHash
     \<and> length (hExtra b) = length (hExtra h)
     \<and> take (length (hExtra h) - extraSeal) (hExtra b) = take (length (hExtra h) - extraSeal) (hExtra h)"

lemma Prepare_verifies:
  assumes "chain_ok chain" "Prepare x c chain now h = Some (Inr ((None, h'), c1))" "completes signer h' b"
    "bconfig c' = bconfig c" "0 < hNumber h" "hNumber h < 2 ^ 64" "EIP150Hash (chain_Config chain) = 0"
    "now < 2 ^ 63" "hTime b \<le> now'"
    "\<And>p. chain_GetHeader chain (hParentHash h) (big_Uint64 (hNumber h) - 1) = Some p
       \<Longrightarrow> 0 \<le> hTime p \<and> hTime p + uint (Period (bconfig c)) < 2 ^ 63"
  shows "verifyHeader c' chain now' (raw_header_of b) [] = Inr None"
proof -
  from Prepare_nil [OF assms(2)] obtain p t d rank where
    p: "chain_GetHeader chain (hParentHash h) (big_Uint64 (hNumber h) - 1) = Some p"
      "getStakeTargetBlock c chain (Some p) = Some (Inr (Some t))"
      "calcDifficultyAndRank x c (bsigner c) chain 0 t = Some (Inr ((Some d, rank), c1))" "1 \<le> rank"
      "hNonce h' = EncodeNonce (word_of_int rank)" "hParentHash h' = hParentHash h" "hNumber h' = hNumber h"
      "hTime h' = (if big_Int64 (hTime p + uint (Period (bconfig c1))) < now then now
         else hTime p + uint (Period (bconfig c1)))"
      "hMixDigest h' = 0" "length (hExtra h') = extraVanity + extraSeal" by metis
  have r: "rank \<le> MaxMiner" "bconfig c1 = bconfig c" using calcDifficultyAndRank_rank [OF p(3)] by simp_all
  let ?P = "uint (Period (bconfig c))" and ?n = "big_Uint64 (hNumber h)"
  have z: "Epoch (bconfig c) \<noteq> 0" using p(2) by (auto simp: getStakeTargetBlock_def)
  have n: "?n \<noteq> 0" using uint_big_Uint64 [of "hNumber h"] assms(5,6) by auto
  have hp: "header_Hash p = hParentHash h" "big_Uint64 (hNumber p) = ?n - 1"
    using assms(1) p(1) by (auto simp: chain_ok_def big_Uint64_def)
  have tp: "0 \<le> hTime p" "hTime p + ?P < 2 ^ 63" using assms(10) [OF p(1)] by auto
  have "0 \<le> hTime p + ?P" using tp(1) uint_ge_0 [of "Period (bconfig c)"] by simp
  then have "big_Int64 (hTime p + ?P) = hTime p + ?P" using tp(2) by (simp add: big_Int64_def int64_idn not_less [symmetric])
  then have tb: "hTime p + ?P \<le> hTime b" "hTime b < 2 ^ 63"
    using p(8) r(2) assms(3,8) tp by (simp_all add: completes_def)
  have w: "uint (big_Uint64 (hTime p) + Period (bconfig c)) = hTime p + ?P" "uint (big_Uint64 (hTime b)) = hTime b"
    using tp tb uint_big_Uint64 [of "hTime p"] uint_big_Uint64 [of "hTime b"] uint_ge_0 [of "Period (bconfig c)"]
    by (simp_all add: uint_word_ariths)
  have t: "\<not> big_Uint64 (hTime b) < big_Uint64 (hTime p) + Period (bconfig c)"
    using w tb(1) by (simp add: word_less_def)
  have "rank < 2 ^ 64" using r(1) by (simp add: MaxMiner_def)
  then have "uint (word_of_int rank :: u64) = rank" using p(4) by (simp add: uint_word_of_int)
  then have "\<not> (word_of_int rank :: u64) < 1" using p(4) by (simp add: word_less_def)
  moreover have "with_number (raw_header_of b) (hNumber h) = b"
    using assms(3) p(7) raw_header_of_simps(2) [of b] by (simp add: completes_def)
  ultimately show ?thesis
    using assms(3,4,7,9) p(1,5-7,9,10) z n hp t
    by (simp add: verifyHeader_def Let_def completes_def VerifyForkHashes_def verifyCascadingFields_def verifySeal_def)
qed

text \<open>C7: A block that a node prepares is accepted by the others. Let the node's signer be authorised for the block, and let
  the block keep what \<open>Prepare\<close> wrote, with the signer as its coinbase, no uncles and a seal of any content. Then every other
  node with the same configuration and a consistent database, whose clock is not behind the time of the block,
  accepts the header and finds the creator, the difficulty and the nonce that it expects. Block and parent have numbers and
  times that fit into their machine words, and the configuration has no fork hash. Two kinds of blocks are
  left out: the one at which the fork BIP1 changes the stakers, and every 100000th, at which \<open>Finalize\<close> prunes the
  database.\<close>

theorem Prepare_accepted:
  assumes "order_ok x" "order_ok y" "same_libraries x y" "blocks_ok x chain" "chain_ok chain" "has_block_ok chain"
    "db_consistent x chain (bstakingDB c)" "db_consistent x chain (bstakingDB c')" "bconfig c' = bconfig c"
    "authorized x c chain h" "Prepare x c chain now h = Some (Inr ((None, h'), c1))" "completes (bsigner c) h' b"
    "0 < hNumber h" "hNumber h < 2 ^ 64" "EIP150Hash (chain_Config chain) = 0" "now < 2 ^ 63" "hTime b \<le> now'"
    "\<And>p. chain_GetHeader chain (hParentHash h) (big_Uint64 (hNumber h) - 1) = Some p
       \<Longrightarrow> 0 \<le> hTime p \<and> hTime p + uint (Period (bconfig c)) < 2 ^ 63"
    "\<not> IsBIP1Block (chain_Config chain) (Some (hNumber b))" "hNumber b mod CleanCycle \<noteq> 0"
  shows "verifyHeader c' chain now' (raw_header_of b) [] = Inr None
    \<and> (\<exists>c2. check_creator y c' chain b stks = Some (Inr (Inr stks, c2)))"
proof
  show "verifyHeader c' chain now' (raw_header_of b) [] = Inr None"
    by (rule Prepare_verifies [OF assms(5,11,12,9,13-18)])
  from Prepare_nil [OF assms(11)] obtain p t d rank where
    p: "chain_GetHeader chain (hParentHash h) (big_Uint64 (hNumber h) - 1) = Some p"
      "getStakeTargetBlock c chain (Some p) = Some (Inr (Some t))"
      "calcDifficultyAndRank x c (bsigner c) chain 0 t = Some (Inr ((Some d, rank), c1))" "1 \<le> rank"
      "hDifficulty h' = d" "hNonce h' = EncodeNonce (word_of_int rank)"
      "hParentHash h' = hParentHash h" "hNumber h' = hNumber h" by metis
  have k: "hNumber t = 0 \<or> chain_GetBlock chain (header_Hash t) (big_Uint64 (hNumber t)) \<noteq> None"
    using getStakeTargetBlock_known [OF assms(5) p(2)] assms(6) by (simp add: has_block_ok_def)
  from assms(10) p(1,2) obtain l c3 where l: "getSigners x c chain t = Inr (Inr l, c3)" "bsigner c \<in> set l"
    unfolding authorized_def by blast
  obtain l' c4 where l': "getSigners y c' chain t = Inr (Inr l', c4)" "set l' = set l"
    "db_consistent x chain (bstakingDB c4)" "bconfig c4 = bconfig c'"
    using getSigners_same [OF assms(1-4,7-9) k l(1)] by metis
  have "result_of (calcDifficultyAndRank x c (bsigner c) chain 0 t)
      = result_of (calcDifficultyAndRank y c4 (bsigner c) chain 0 t)"
    using l'(4) assms(9) by (intro calcDifficultyAndRank_same [OF assms(1-4,7) l'(3) _ k]) simp
  from result_of_Inr [OF this p(3)] obtain c5 where
    "calcDifficultyAndRank y c4 (bsigner c) chain 0 t = Some (Inr ((Some d, rank), c5))" by metis
  with p l l' assms(12,19,20) getStakeTargetBlock_config [OF assms(9)]
  show "\<exists>c2. check_creator y c' chain b stks = Some (Inr (Inr stks, c2))"
    by (simp add: check_creator_def Let_def signersMap_def completes_def)
qed

definition genesis_header :: header where
  "genesis_header = sample_header\<lparr>hExtra := replicate 32 0 @ addr_bytes 42 @ replicate 65 0\<rparr>"

definition genesis_chain :: ChainReader where
  "genesis_chain = \<lparr>chain_Config = MainnetChainConfig,
     chain_GetHeader = (\<lambda>h n. if h = header_Hash genesis_header \<and> n = 0 then Some genesis_header else None),
     chain_GetHeaderByNumber = (\<lambda>n. if n = 0 then Some genesis_header else None),
     chain_GetBlock = (\<lambda>h n. if h = header_Hash genesis_header \<and> n = 0
        then Some \<lparr>blk_header = genesis_header, blk_uncles = [], blk_transactions = []\<rparr> else None),
     chain_StateAt = (\<lambda>_. Inr sample_state),
     chain_HasBlockAndState = (\<lambda>h n. h = header_Hash genesis_header \<and> n = 0)\<rparr>"

definition first_header :: header where
  "first_header = sample_header\<lparr>hParentHash := header_Hash genesis_header, hNumber := 1\<rparr>"

lemma genesis_chain_ok:
  "chain_ok genesis_chain" "has_block_ok genesis_chain" "blocks_ok x genesis_chain"
  by (auto simp: chain_ok_def has_block_ok_def blocks_ok_def genesis_chain_def genesis_header_def sample_header_def
      split: if_splits)

lemma genesis_number: "hNumber genesis_header = 0" "hNumber first_header = 1"
  by (simp_all add: genesis_header_def sample_header_def first_header_def)

lemma sample_state_facts: "state_inv sample_state" "StakeBalance (acct sample_state a) = 0"
proof -
  obtain s where s: "state_New 0 empty_db = Inr s" "good_state s" "stateObjects s = Map.empty" "strie s = (\<lambda>_. Inr [])"
    by (rule empty_state)
  then show "state_inv sample_state" by (simp add: sample_state_def good_state_def)
  show "StakeBalance (acct sample_state a) = 0"
    using s by (simp add: sample_state_def acct_def lookup_def load_def newObject_def zero_Account_def Let_def)
qed

text \<open>A chain of two blocks with epochs of one block, on which the account 42 has staked in block 1.\<close>

definition stake_engine :: BSRR where
  "stake_engine = bsrr_New ((Bsrr MainnetChainConfig)\<lparr>Epoch := 1\<rparr>) \<lparr>stakeDB = [], NoPruning = False\<rparr>"

definition staked_header :: header where
  "staked_header = sample_header\<lparr>hParentHash := header_Hash sample_header, hNumber := 1, hTime := 5\<rparr>"

definition staked_state :: StateDB where
  "staked_state = SetPoint sample_state 42 100"

definition staked_chain :: ChainReader where
  "staked_chain = \<lparr>chain_Config = MainnetChainConfig\<lparr>BIP3Block := Some 0\<rparr>,
     chain_GetHeader = (\<lambda>h n. if h = header_Hash sample_header \<and> n = 0 then Some sample_header
        else if h = header_Hash staked_header \<and> n = 1 then Some staked_header else None),
     chain_GetHeaderByNumber = (\<lambda>n. if n = 0 then Some sample_header else if n = 1 then Some staked_header else None),
     chain_GetBlock = (\<lambda>h n. if h = header_Hash staked_header \<and> n = 1
        then Some (stake_block\<lparr>blk_header := staked_header\<rparr>) else None),
     chain_StateAt = (\<lambda>_. Inr staked_state),
     chain_HasBlockAndState = (\<lambda>h n. h = header_Hash staked_header \<and> n = 1)\<rparr>"

definition second_header :: header where
  "second_header = sample_header\<lparr>hParentHash := header_Hash staked_header, hNumber := 2\<rparr>"

lemma stake_engine_config [simp]:
  "Epoch (bconfig stake_engine) = 1" "Period (bconfig stake_engine) = 5" "ForkFactor (bconfig stake_engine) = 1"
  "bstakingDB stake_engine = \<lparr>stakeDB = [], NoPruning = False\<rparr>"
  by (simp_all add: stake_engine_def bsrr_New_def MainnetChainConfig_def Let_def bsrr_ForkFactor_def)

lemma staked_numbers [simp]:
  "hNumber sample_header = 0" "hNumber staked_header = 1" "hNumber second_header = 2" "hTime staked_header = 5"
  "hParentHash staked_header = header_Hash sample_header" "hParentHash second_header = header_Hash staked_header"
  by (simp_all add: sample_header_def staked_header_def second_header_def)

lemma staked_chain_stakers:
  "stakers_at sample_externals staked_chain (Suc 0) (header_Hash staked_header) = Some {42}"
  "block_changes sample_externals staked_chain (stake_block\<lparr>blk_header := staked_header\<rparr>) = Inr [(42, True)]"
proof -
  show "block_changes sample_externals staked_chain (stake_block\<lparr>blk_header := staked_header\<rparr>) = Inr [(42, True)]"
    by (simp add: block_changes_def stake_block_def newTransaction_def AsMessage_def sample_externals_def stake_change_def
        jw_Main_def jw_Stake_def)
  then show "stakers_at sample_externals staked_chain (Suc 0) (header_Hash staked_header) = Some {42}"
    by (simp add: staked_chain_def apply_set_def)
qed

lemma staked_chain_ok: "chain_ok staked_chain" "has_block_ok staked_chain" "blocks_ok sample_externals staked_chain"
proof -
  show "chain_ok staked_chain" "has_block_ok staked_chain"
    by (auto simp: chain_ok_def has_block_ok_def staked_chain_def split: if_splits)
  show "blocks_ok sample_externals staked_chain"
    using staked_chain_stakers unfolding blocks_ok_def
    by (auto simp: staked_chain_def big_Uint64_def split: if_splits)
qed

lemma staked_getStakers:
  assumes "bstakingDB c = bstakingDB stake_engine" "order_ok x" "same_libraries sample_externals x"
  obtains c' where "getStakers x c staked_chain 1 (header_Hash staked_header) = Inr (Inr [42], c')" "bconfig c' = bconfig c"
proof -
  have k: "chain_GetBlock staked_chain (header_Hash staked_header) 1 \<noteq> None" by (simp add: staked_chain_def)
  have db: "db_consistent x staked_chain (bstakingDB c)" using assms(1) by (simp add: empty_db_consistent)
  have b: "blocks_ok x staked_chain" using staked_chain_ok(3) same_libraries_ok [OF assms(3)] by simp
  obtain l c' where l: "getStakers x c staked_chain 1 (header_Hash staked_header) = Inr (Inr l, c')" "stakers_inv l"
    "stakers_at x staked_chain (unat (1 :: u64)) (header_Hash staked_header) = Some (set l)" "bconfig c' = bconfig c"
    using getStakers_consistent [OF assms(2) b db disjI2 [OF k]] by metis
  have "Some (set l) = Some {42}"
    unfolding l(3) [symmetric] stakers_at_sender [OF assms(3)] staked_chain_stakers(1) [symmetric] by (simp del: stakers_at.simps)
  moreover have "distinct l" using l(2) by (simp add: stakers_inv_def)
  ultimately have "l = [42]" by (cases l; cases "tl l") auto
  with that l show ?thesis by blast
qed

lemma staked_select:
  obtains results where
    "SelectBlockCreator (xInt63n sample_externals) (xSeed sample_externals) (xSha256 sample_externals)
       (chain_Config staked_chain) 1 [42] (\<lambda>a. fst (GetStakeBalance staked_state a))
       (\<lambda>a. fst (GetStakeUpdated staked_state a)) (\<lambda>a. fst (GetPoint staked_state a)) = Some (Inr results)"
    "dom results = {42}" "results 42 = Some \<lparr>Score = maxElectScore, Rank = 1\<rparr>"
proof -
  have c: "changes_acct 42 (\<lambda>d. d\<lparr>State_Object.Point := 100\<rparr>) sample_state staked_state"
    unfolding staked_state_def by (rule SetPoint_changes [OF sample_state_facts(1)])
  then have p: "fst (GetPoint staked_state 42) = 100" using getters_acct(4) by (auto simp: changes_acct_def)
  have "\<exists>results ord. SelectBlockCreator (xInt63n sample_externals) (xSeed sample_externals) (xSha256 sample_externals)
       (chain_Config staked_chain) 1 [42] (\<lambda>a. fst (GetStakeBalance staked_state a))
       (\<lambda>a. fst (GetStakeUpdated staked_state a)) (\<lambda>a. fst (GetPoint staked_state a)) = Some (Inr results)
    \<and> set ord = set [42] \<and> dom results = set [42]
    \<and> ranking ord maxElectScore ((maxElectScore - minElectScore) div int (length [42 :: address])) 1 results"
    by (rule SelectBlockCreator_BIP3 [where p = "\<lambda>_. 100"])
      (simp_all add: rand_ok_def sample_externals_def stakers_inv_def staked_chain_def IsBIP3_def staker_point_def p
        IsBIP4_def MainnetChainConfig_def big_Uint64_def)
  then obtain results ord where r: "SelectBlockCreator (xInt63n sample_externals) (xSeed sample_externals)
       (xSha256 sample_externals) (chain_Config staked_chain) 1 [42] (\<lambda>a. fst (GetStakeBalance staked_state a))
       (\<lambda>a. fst (GetStakeUpdated staked_state a)) (\<lambda>a. fst (GetPoint staked_state a)) = Some (Inr results)"
    "set ord = {42}" "dom results = {42}" "ranking ord maxElectScore (maxElectScore - minElectScore) 1 results" by auto
  from r(2,4) have "ord = [42]" by (cases ord; cases "tl ord") (auto simp: ranking_def)
  with r(4) have "results 42 = Some \<lparr>Score = maxElectScore, Rank = 1\<rparr>" by (simp add: ranking_def)
  with r that show ?thesis by blast
qed

lemma staked_target:
  "bconfig c = bconfig stake_engine \<Longrightarrow>
    getStakeTargetBlock c staked_chain (Some staked_header) = Some (Inr (Some staked_header))"
  by (simp add: getStakeTargetBlock_def Let_def staked_chain_def big_Uint64_def)

lemma staked_rank:
  "\<exists>c1. calcDifficultyAndRank sample_externals (Authorize stake_engine 42) 42 staked_chain 0 staked_header
    = Some (Inr ((Some maxElectScore, 1), c1)) \<and> bconfig c1 = bconfig stake_engine"
proof -
  let ?c = "Authorize stake_engine 42"
  obtain c1 where c1: "getStakers sample_externals ?c staked_chain 1 (header_Hash staked_header) = Inr (Inr [42], c1)"
    "bconfig c1 = bconfig ?c"
    using staked_getStakers [of ?c sample_externals] stake_chain_ok(1) by (auto simp: Authorize_def same_libraries_def)
  obtain results where r: "SelectBlockCreator (xInt63n sample_externals) (xSeed sample_externals) (xSha256 sample_externals)
       (chain_Config staked_chain) 1 [42] (\<lambda>a. fst (GetStakeBalance staked_state a))
       (\<lambda>a. fst (GetStakeUpdated staked_state a)) (\<lambda>a. fst (GetPoint staked_state a)) = Some (Inr results)"
    "dom results = {42}" "results 42 = Some \<lparr>Score = maxElectScore, Rank = 1\<rparr>" by (rule staked_select)
  have "f64_mul 1 (f64_of_int 1) = 1" by (simp add: f64_mul_def f64_of_int_exact f64_dyadic [of _ 1 0])
  moreover have "\<lfloor>3 / 2 :: rat\<rfloor> = 1" by (rule floor_unique) simp_all
  ultimately have "getMaxMiningCandidates c1 1 = 1"
    using c1(2) by (simp add: getMaxMiningCandidates_def Let_def Authorize_def go_round_def go_trunc_def MaxMiner_def)
  moreover have "chain_StateAt staked_chain h = Inr staked_state" for h by (simp add: staked_chain_def)
  ultimately show ?thesis
    using c1 r by (simp add: calcDifficultyAndRank_def big_Uint64_def rank_of_def Authorize_def)
qed

theorem Prepare_accepted_witness:
  "\<exists>h' c1 c2. Prepare sample_externals (Authorize stake_engine 42) staked_chain 100 second_header
       = Some (Inr ((None, h'), c1)) \<and> hDifficulty h' = maxElectScore
     \<and> verifyHeader stake_engine staked_chain 100 (raw_header_of (h'\<lparr>hCoinbase := 42, hUncleHash := uncleHash\<rparr>)) []
       = Inr None
     \<and> check_creator (sample_externals\<lparr>xMapOrder := rev\<rparr>) stake_engine staked_chain
         (h'\<lparr>hCoinbase := 42, hUncleHash := uncleHash\<rparr>) [] = Some (Inr (Inr [], c2))"
proof -
  let ?c = "Authorize stake_engine 42" and ?y = "sample_externals\<lparr>xMapOrder := rev\<rparr>"
  have cfg: "bconfig stake_engine = bconfig ?c" "bsigner ?c = 42" "bstakingDB ?c = bstakingDB stake_engine"
    by (simp_all add: Authorize_def)
  note t = staked_target [OF cfg(1) [symmetric]]
  have g: "chain_GetHeader staked_chain (header_Hash staked_header) (big_Uint64 2 - 1) = Some staked_header"
    by (simp add: staked_chain_def big_Uint64_def)
  obtain c1 where "calcDifficultyAndRank sample_externals ?c 42 staked_chain 0 staked_header
    = Some (Inr ((Some maxElectScore, 1), c1))" "bconfig c1 = bconfig stake_engine" using staked_rank by blast
  then obtain h' where p: "Prepare sample_externals ?c staked_chain 100 second_header = Some (Inr ((None, h'), c1))"
    "hNumber h' = 2" "hDifficulty h' = maxElectScore" "hTime h' = 100"
    using cfg(2) by (simp add: Prepare_def Let_def g t big_Int64_def int64_idn)
  obtain c3 where "getStakers sample_externals ?c staked_chain 1 (header_Hash staked_header) = Inr (Inr [42], c3)"
    using staked_getStakers [of ?c sample_externals] stake_chain_ok(1) cfg(3) by (auto simp: same_libraries_def)
  then have "getSigners sample_externals ?c staked_chain staked_header = Inr (Inr [42], c3)"
    by (simp add: getSigners_def AsList_def big_Uint64_def cfg(1) [symmetric])
  then have a: "authorized sample_externals ?c staked_chain second_header" by (simp add: authorized_def g t cfg(2))
  have y: "order_ok ?y" "same_libraries sample_externals ?y"
    by (simp_all add: order_ok_def rev_map [symmetric] same_libraries_def)
  have db: "db_consistent x staked_chain (bstakingDB stake_engine)" "db_consistent x staked_chain (bstakingDB ?c)" for x
    by (simp_all add: empty_db_consistent cfg(3))
  let ?b = "h'\<lparr>hCoinbase := 42, hUncleHash := uncleHash\<rparr>"
  have b: "completes (bsigner ?c) h' ?b" by (simp add: completes_def cfg(2))
  have tm: "0 \<le> hTime q \<and> hTime q + uint (Period (bconfig ?c)) < 2 ^ 63"
    if "chain_GetHeader staked_chain (hParentHash second_header) (big_Uint64 (hNumber second_header) - 1) = Some q" for q
    using that g by (simp add: cfg(1) [symmetric])
  have ch: "EIP150Hash (chain_Config staked_chain) = 0" "\<not> IsBIP1Block (chain_Config staked_chain) (Some (hNumber ?b))"
    by (simp_all add: staked_chain_def MainnetChainConfig_def IsBIP1Block_def p(2))
  have "verifyHeader stake_engine staked_chain 100 (raw_header_of ?b) [] = Inr None
    \<and> (\<exists>c2. check_creator ?y stake_engine staked_chain ?b [] = Some (Inr (Inr [], c2)))"
    by (rule Prepare_accepted [OF stake_chain_ok(1) y staked_chain_ok(3,1,2) db(2,1) cfg(1) a p(1) b _ _ ch(1) _ _ tm ch(2)])
      (simp_all add: p(2,4) CleanCycle_def)
  with p(1,3) show ?thesis by blast
qed

subsection \<open>The seal\<close>

text \<open>C12: No check depends on the signature in a header: the verification of a header gives the same result for
  every seal, and so do the checks of \<open>Finalize\<close>, where the comment at \<open>verifySeal\<close> says the signature is
  verified. A block with the address of any authorised creator is accepted whoever sealed it.\<close>

theorem seal_not_verified:
  assumes "length s = 65" "length s' = 65" "EIP150Hash (chain_Config chain) = 0"
  shows "verifyHeader c chain now (raw_header_of (h\<lparr>hExtra := v @ s\<rparr>)) parents
      = verifyHeader c chain now (raw_header_of (h\<lparr>hExtra := v @ s'\<rparr>)) parents
    \<and> check_creator x c chain (h\<lparr>hExtra := v @ s\<rparr>) stks = check_creator x c chain (h\<lparr>hExtra := v @ s'\<rparr>) stks"
proof
  have w: "with_number (raw_header_of k) n = k\<lparr>hNumber := n\<rparr>" for k n
    by (simp add: with_number_def raw_header_of_def)
  have f: "VerifyForkHashes (chain_Config chain) k False = None" for k
    using assms(3) by (simp add: VerifyForkHashes_def)
  have k: "verifyCascadingFields c chain (h\<lparr>hExtra := e\<rparr>) parents = verifyCascadingFields c chain h parents" for e
    by (simp add: verifyCascadingFields_def verifySeal_def Let_def split: option.split)
  have r: "hParentHash (h\<lparr>hExtra := e\<rparr>) = hParentHash h" "hNumber (h\<lparr>hExtra := e\<rparr>) = hNumber h"
    "hCoinbase (h\<lparr>hExtra := e\<rparr>) = hCoinbase h" "hDifficulty (h\<lparr>hExtra := e\<rparr>) = hDifficulty h"
    "hNonce (h\<lparr>hExtra := e\<rparr>) = hNonce h" for e by simp_all
  show "verifyHeader c chain now (raw_header_of (h\<lparr>hExtra := v @ s\<rparr>)) parents
      = verifyHeader c chain now (raw_header_of (h\<lparr>hExtra := v @ s'\<rparr>)) parents"
    using assms by (simp add: verifyHeader_def w f k Let_def)
  show "check_creator x c chain (h\<lparr>hExtra := v @ s\<rparr>) stks = check_creator x c chain (h\<lparr>hExtra := v @ s'\<rparr>) stks"
    unfolding check_creator_def r ..
qed

theorem seal_not_verified_witness:
  "verifyHeader sample_engine child_chain 10 (raw_header_of (child_header\<lparr>hExtra := replicate 32 0 @ replicate 65 1\<rparr>)) []
   = verifyHeader sample_engine child_chain 10 (raw_header_of (child_header\<lparr>hExtra := replicate 32 0 @ replicate 65 0\<rparr>)) []"
  by (rule seal_not_verified [THEN conjunct1])
    (simp_all add: child_chain_def sample_chain_def MainnetChainConfig_def)

subsection \<open>Conservation of rewards\<close>

text \<open>What an account owns: its balance and the rewards that wait to be paid out.\<close>

definition funds :: "StateDB \<Rightarrow> address \<Rightarrow> int" where
  "funds st a = Balance (acct st a) + sum_list (map bhBalance (BehindBalance (acct st a)))"

lemma release_step:
  assumes "state_inv st" "BehindBalance (acct st addr) = b # bs"
  obtains st' where "RemoveFirstBehindBalance (AddBalance st addr (bhBalance b)) addr = Inr st'" "state_inv st'"
    "\<And>a. funds st' a = funds st a"
proof -
  let ?t = "AddBalance st addr (bhBalance b)"
  have t: "state_inv ?t" "acct ?t = (acct st)(addr := (acct st addr)\<lparr>Balance := Balance (acct st addr) + bhBalance b\<rparr>)"
    using AddBalance_changes [OF assms(1)] by (simp_all add: changes_acct_def)
  then have "BehindBalance (acct ?t addr) = b # bs" using assms(2) by simp
  from RemoveFirstBehindBalance_acct [OF t(1) this] obtain st' where
    st': "RemoveFirstBehindBalance ?t addr = Inr st'" "changes_acct addr (\<lambda>d. d\<lparr>BehindBalance := bs\<rparr>) ?t st'" by metis
  then have "funds st' a = funds st a" for a using t(2) assms(2) by (simp add: changes_acct_def funds_def)
  with st' that show ?thesis by (simp add: changes_acct_def)
qed

lemma release_loop_conserves:
  "state_inv st \<Longrightarrow> \<exists>st'. release_loop config h signers st = Inr st' \<and> state_inv st' \<and> (\<forall>a. funds st' a = funds st a)"
proof (induction signers arbitrary: st)
  case (Cons addr rest)
  obtain t where t: "state_inv t" "acct t = acct st"
    "GetFirstBehindBalance st addr = (case BehindBalance (acct st addr) of [] \<Rightarrow> Inl ''empty behind'' | b # _ \<Rightarrow> Inr b, t)"
    using GetFirstBehindBalance_acct [OF Cons.prems] by metis
  have f: "funds t = funds st" using t(2) by (simp add: funds_def fun_eq_iff)
  show ?case
  proof (cases "BehindBalance (acct st addr)")
    case Nil
    with t f Cons.IH [OF t(1)] show ?thesis by simp
  next
    case (Cons b bs)
    with t(2) have "BehindBalance (acct t addr) = b # bs" by simp
    from release_step [OF t(1) this] obtain u where
      "RemoveFirstBehindBalance (AddBalance t addr (bhBalance b)) addr = Inr u" "state_inv u"
      "\<And>a. funds u a = funds t a" by metis
    with Cons t(3) f Cons.IH [OF t(1)] Cons.IH [of u] show ?thesis by auto
  qed
qed simp

lemma getSigners_no_panic:
  assumes "chain_GetHeaderByNumber chain 0 \<noteq> None"
  shows "\<exists>r. getSigners x c chain t = Inr r"
proof -
  obtain r c' where r: "getStakers x c chain (big_Uint64 (hNumber t)) (header_Hash t) = Inr (r, c')"
    using getStakers_no_panic by blast
  with assms show ?thesis by (cases r) (auto simp: getSigners_def)
qed

text \<open>C8: The distribution of rewards returns, and it conserves what the accounts own: paying out moves an amount from
  the waiting rewards of an account to its balance, and all that is added is the reward of the block, to its
  creator.\<close>

theorem accumulateRewards_conserves:
  assumes "state_inv st" "chain_ok chain" "0 \<le> hNumber h" "hNumber h < 2 ^ 64"
    "0 \<le> sint (Epoch (Bsrr (chain_Config chain)))" "chain_GetHeaderByNumber chain 0 \<noteq> None"
    "getReward (chain_Config chain) h = Inr reward"
  shows "\<exists>st' c'. accumulateRewards x c chain st h = Some (Inr (st', c')) \<and> state_inv st'
    \<and> (\<forall>a. funds st' a = funds st a + (if a = hCoinbase h then reward else 0))"
proof -
  let ?s = "AddBehindBalance st (hCoinbase h) (hNumber h) reward"
  have s: "state_inv ?s" "funds ?s a = funds st a + (if a = hCoinbase h then reward else 0)" for a
    using AddBehindBalance_changes [OF assms(1), of "hCoinbase h" reward "hNumber h"]
    by (auto simp: changes_acct_def funds_def)
  obtain r where r: "getAncestor chain (sint (Epoch (Bsrr (chain_Config chain)))) h = Some (Inr r)"
    using getAncestor_ends [OF assms(2-5)] by blast
  show ?thesis
  proof (cases r)
    case None
    with r s assms(7) show ?thesis by (simp add: accumulateRewards_def Let_def)
  next
    case (Some t)
    obtain q c1 where q: "getSigners x c chain t = Inr (q, c1)" using getSigners_no_panic [OF assms(6)] by fastforce
    show ?thesis
    proof (cases q)
      case (Inl e)
      with Some r q s assms(7) show ?thesis by (simp add: accumulateRewards_def Let_def)
    next
      case (Inr signers)
      from release_loop_conserves [OF s(1), of "chain_Config chain" h signers] obtain st' where
        "release_loop (chain_Config chain) h signers ?s = Inr st'" "state_inv st'" "\<forall>a. funds st' a = funds ?s a" by blast
      with Inr Some r q s(2) assms(7) show ?thesis by (simp add: accumulateRewards_def Let_def)
    qed
  qed
qed

theorem accumulateRewards_conserves_witness:
  "\<exists>st' c'. accumulateRewards sample_externals sample_engine genesis_chain sample_state
       (first_header\<lparr>hCoinbase := 42\<rparr>) = Some (Inr (st', c')) \<and> funds st' 42 = funds sample_state 42"
proof -
  have "getReward (chain_Config genesis_chain) (first_header\<lparr>hCoinbase := 42\<rparr>) = Inr 0"
    by (simp add: getReward_def genesis_chain_def MainnetChainConfig_def Let_def genesis_number big_Uint64_def)
  from accumulateRewards_conserves [OF sample_state_facts(1) genesis_chain_ok(1) _ _ _ _ this] show ?thesis
    by (fastforce simp: genesis_number genesis_chain_def MainnetChainConfig_def)
qed

subsection \<open>Stakes of less than a token\<close>

lemma CalcPointBigint_panic:
  assumes "0 < period" "uint period \<le> 36000000"
  shows "CalcPointBigint prev add now upd period = Inl e \<Longrightarrow> e = DivideByZero"
proof -
  obtain ref where ref: "referenceBlock period = Inr ref" using referenceBlock_ok [OF assms] by blast
  have d: "(\<exists>q. big_Div a b = Inr q) \<or> big_Div a b = Inl DivideByZero" for a b by (simp add: big_Div_def)
  show "CalcPointBigint prev add now upd period = Inl e \<Longrightarrow> e = DivideByZero"
    using d [of "now * 100" "ref + upd"] d [of prev "prev + add"]
    by (auto simp: CalcPointBigint_def Let_def ref big_Div_pos)
qed

lemma update_point_cases:
  assumes "0 < Period (bconfig c)" "uint (Period (bconfig c)) \<le> 36000000" "state_inv s"
  shows "if 0 < StakeBalance (acct s a) \<and> StakeBalance (acct s a) < UnitForBer
    then update_point c prevState h s a = Inl DivideByZero
    else update_point c prevState h s a = Inl DivideByZero
      \<or> (\<exists>s'. update_point c prevState h s a = Inr s' \<and> state_inv s'
             \<and> (\<forall>b. StakeBalance (acct s' b) = StakeBalance (acct s b)))"
proof -
  obtain s1 where s1: "GetStakeBalance s a = (StakeBalance (acct s a), s1)" "state_inv s1" "acct s1 = acct s"
    using getters_acct [OF assms(3), of a] by (metis prod.collapse)
  have sp: "state_inv (SetPoint s1 a v)" "StakeBalance (acct (SetPoint s1 a v) b) = StakeBalance (acct s b)" for v b
    using SetPoint_changes [OF s1(2), of a v] s1(3) by (auto simp: changes_acct_def)
  let ?b = "StakeBalance (acct s a)" and ?prev = "fst (GetStakeBalance prevState a) div UnitForBer"
  let ?calc = "CalcPointBigint ?prev (?b div UnitForBer - ?prev) (hNumber h) (fst (GetStakeUpdated s1 a)) (Period (bconfig c))"
  have u: "0 < UnitForBer" by (simp add: UnitForBer_def)
  have e: "update_point c prevState h s a = bind_run (if 0 < ?b then ?calc else Inr 0) (\<lambda>v. Inr (SetPoint s1 a v))"
    using s1(1) u by (simp add: update_point_def big_Div_pos)
  show ?thesis
  proof (cases "0 < ?b \<and> ?b < UnitForBer")
    case True
    then have "?b div UnitForBer = 0" by (simp add: div_pos_pos_trivial)
    with e True CalcPointBigint_zero_total [OF assms(1,2)] show ?thesis by simp
  next
    case False
    show ?thesis
    proof (cases "if 0 < ?b then ?calc else Inr 0")
      case (Inl q)
      then have "?calc = Inl q" by (simp split: if_splits)
      with CalcPointBigint_panic [OF assms(1,2)] have "q = DivideByZero" by blast
      with Inl False e show ?thesis by simp
    next
      case (Inr v)
      with False e sp show ?thesis by simp
    qed
  qed
qed

lemma change_loop_fraction:
  assumes "0 < Period (bconfig c)" "uint (Period (bconfig c)) \<le> 36000000"
  shows "state_inv s \<Longrightarrow> a \<in> fst ` set cs \<Longrightarrow> 0 < StakeBalance (acct s a) \<Longrightarrow> StakeBalance (acct s a) < UnitForBer
    \<Longrightarrow> change_loop c prevState h cs (Some s) stks = Inl DivideByZero"
proof (induction cs arbitrary: s stks)
  case (Cons p cs)
  obtain b isAdd where p: "p = (b, isAdd)" by fastforce
  note u = update_point_cases [OF assms Cons.prems(1), of b prevState h]
  show ?case
  proof (cases "update_point c prevState h s b")
    case (Inl q)
    with u have "q = DivideByZero" by (auto split: if_splits)
    with Inl p show ?thesis by simp
  next
    case (Inr s')
    with u have s': "state_inv s'" "StakeBalance (acct s' a) = StakeBalance (acct s a)"
      and "\<not> (0 < StakeBalance (acct s b) \<and> StakeBalance (acct s b) < UnitForBer)" by (auto split: if_splits)
    with Cons.prems(2-4) p have "a \<in> fst ` set cs" by auto
    with Cons.IH [OF s'(1)] Cons.prems(3,4) s'(2) Inr p show ?thesis by simp
  qed
qed simp

text \<open>C26: Stakes are turned from wei into whole tokens before the point is computed, and the computation divides by the whole
  tokens. So if an account that stakes or unstakes in a block holds more than nothing and less than one token as its stake
  afterwards, \<open>setStakersWithTxs\<close> panics with a division by zero, whatever the account held before, whatever the
  others do and in whatever order the changes are visited.\<close>

theorem setStakersWithTxs_fraction_panics:
  assumes "0 < Period (bconfig c)" "uint (Period (bconfig c)) \<le> 36000000" "order_ok x" "state_inv st"
    "chain_GetHeader chain (hParentHash h) (big_Uint64 (hNumber h) - 1) = Some parent"
    "chain_StateAt chain (hRoot parent) = Inr prevState"
    "stake_changes (xSender x (chain_Config chain) (hNumber h)) (chain_Config chain) (hNumber h) txs [] = Inr changes"
    "a \<in> fst ` set changes" "0 < StakeBalance (acct st a)" "StakeBalance (acct st a) < 10 ^ 18"
  shows "setStakersWithTxs x c (Some st) chain stks txs h = Inl DivideByZero"
proof -
  have "distinct (map fst changes)" using stake_changes_distinct [OF assms(7)] by simp
  then have "a \<in> fst ` set (xMapOrder x changes)" using assms(3,8) by (simp add: order_ok_def)
  with change_loop_fraction [OF assms(1,2,4)] assms(9,10)
  have "change_loop c prevState h (xMapOrder x changes) (Some st) stks = Inl DivideByZero" by (simp add: UnitForBer_def)
  with assms(5-7) show ?thesis by (simp add: setStakersWithTxs_def)
qed

theorem setStakersWithTxs_fraction_panics_witness:
  "setStakersWithTxs sample_externals sample_engine (Some (AddStakeBalance sample_state 42 5 1)) stake_chain []
     (blk_transactions stake_block) (blk_header stake_block) = Inl DivideByZero"
proof (rule setStakersWithTxs_fraction_panics)
  let ?s = "AddStakeBalance sample_state 42 5 1" and ?h = "blk_header stake_block"
  have "changes_acct 42 (\<lambda>d. if 5 = (0 :: int) then d else d\<lparr>StakeBalance := StakeBalance d + 5, StakeUpdated := 1\<rparr>)
      sample_state ?s"
    by (rule AddStakeBalance_changes [OF sample_state_facts(1)])
  then have s: "state_inv ?s" "StakeBalance (acct ?s 42) = StakeBalance (acct sample_state 42) + 5"
    by (simp_all add: changes_acct_def)
  show "state_inv ?s" by (rule s)
  show "stake_changes (xSender sample_externals (chain_Config stake_chain) (hNumber ?h)) (chain_Config stake_chain)
      (hNumber ?h) (blk_transactions stake_block) [] = Inr [(42, True)]"
    using stake_block_changes by (simp add: block_changes_def)
  have "StakeBalance (acct sample_state 42) = 0" by (simp add: sample_state_facts(2))
  with s(2) show "0 < StakeBalance (acct ?s 42)" "StakeBalance (acct ?s 42) < 10 ^ 18" by simp_all
qed (simp_all add: stake_chain_ok stake_chain_def)

end
