(* ===== verification/Spec2Isabelle.thy ===== *)
theory Spec2Isabelle
  imports Rank_Group Chain_Params Selection Rlp_Raw State_Finalise Bsrr_Engine
begin

text \<open>
  A verification library for the Berith node, a proof-of-stake chain in Go that descends from
  go-ethereum. This theory imports the development; the definitions and theorems are in the theories
  it names below.

  \<^bold>\<open>The program.\<close> Accounts are kept in the state database (\<open>core/state\<close>). An account has, beside balance and
  nonce, a staked amount, a selection point and a list of rewards that are not yet paid out. The
  consensus engine (\<open>consensus/bsrr\<close>) finds, for a new block, the older block whose stakers may create
  it, draws their order at random with their points as weights (\<open>berith/selection\<close>), and derives the
  difficulty, the nonce and the delay of the new block from the rank of its creator. The stakers of a
  block are stored under its hash (\<open>berith/staking\<close>). Headers, accounts and stakers are encoded in RLP
  (\<open>rlp\<close>) and hashed with Keccak (\<open>crypto/sha3\<close>).

  \<^bold>\<open>The theories.\<close>
  \<^item> \<open>Berith_Prelude\<close>: the types of the Go sources (\<open>u64\<close>, \<open>address\<close>, \<open>hash\<close>), run-time panics, \<open>math/big\<close>
    conversions, the monads for panics and for loops that may not end, generic lemmas.
  \<^item> \<open>Go_Float\<close>: \<open>float64\<close> as rational numbers rounded to 53 bits, half to even.
  \<^item> \<open>Rank_Group\<close>: \<open>common/group.go\<close>, with the contract of \<open>SequenceGroup\<close> as a locale.
  \<^item> \<open>Chain_Params\<close>: \<open>params\<close>, chain configurations, forks, gas tables, compatibility.
  \<^item> \<open>Rlp\<close>, \<open>Rlp_Stream\<close>, \<open>Rlp_Raw\<close>, \<open>Rlp_Struct\<close>: \<open>rlp/encode.go\<close>, \<open>decode.go\<close> and \<open>raw.go\<close> against a
    specification of the encoding; the decoders of structs are built from those of their fields.
  \<^item> \<open>Staking\<close>: \<open>berith/staking\<close>, with the contract of \<open>Stakers\<close> as a locale.
  \<^item> \<open>Candidate_Selection\<close>, \<open>Legacy_Selection\<close>, \<open>Selection\<close>: \<open>berith/selection\<close>, the drawing from fork BIP3 on,
    the one before, and the operation the engine calls.
  \<^item> \<open>Keccak\<close>: \<open>crypto/sha3\<close> against FIPS 202.
  \<^item> \<open>State_Object\<close>, \<open>State_DB\<close>: \<open>core/state/state_object.go\<close>, \<open>statedb.go\<close> and \<open>journal.go\<close>. \<open>State_Revert\<close>: the
    view a client has of a state, and that a revert restores it. \<open>State_Finalise\<close>: what finalising
    writes to the trie.
  \<^item> \<open>Block_Types\<close>: \<open>core/types\<close>, headers, transactions and blocks.
  \<^item> \<open>State_Accounts\<close>: what the operations of a state do to the account records.
  \<^item> \<open>Bsrr_Rules\<close>: \<open>consensus/bsrr/berith.go\<close>, the rules that read headers and the configuration only.
  \<^item> \<open>Bsrr_Engine\<close>: the operations of the same file that read stakers and states, \<open>Prepare\<close>, \<open>Finalize\<close>, \<open>Seal\<close>
    and the rewards; that nodes agree, and that a block one of them prepares is accepted by the others.

  \<^bold>\<open>How the model corresponds to the code.\<close> A struct is a record, an operation a function that returns the
  changed state, an error the left side of a sum, a run-time panic a value of \<open>go_panic\<close>. Unsigned
  integers are words, \<open>*big.Int\<close> is \<open>int\<close>. A Go map is a map; where the code iterates over one, the
  order is an argument or a list whose order is arbitrary. A loop that ends is a function with a
  termination proof; one that may not end is a partial function to \<open>option\<close>, and theorems state that it
  returns. Two functions of \<open>Rlp_Stream\<close> have fuel: \<open>decodeInterface\<close>, for the nesting of the input, and
  \<open>decodeSliceElems\<close>, for the elements of a list. They get at least the length of the input, and
  \<open>decodeInterface_fuel\<close> and \<open>decodeListSlice_fuel\<close> show that this is enough. No other loop is bounded.

  \<^bold>\<open>What is left out of modelled parts.\<close> Integers are decoded at 64 bits only. The staking database is the
  list of its entries, without I/O errors and compaction. A storage trie that cannot be opened twice reads as
  empty, and committing a storage trie gives its hash without the error. The specification of the sponge shares
  the conversion between bytes and lanes, \<open>xorIn\<close> and \<open>copyOut\<close>, with the code.

  \<^bold>\<open>Parameters.\<close> The generator of \<open>math/rand\<close>, SHA-256, the recovery of keys from signatures, the
  eviction of the ARC caches, the state database below the tries and the chain behind the interface
  \<open>ChainReader\<close> are arguments. A theorem names what it needs of them, and its witness gives an instance.

  \<^bold>\<open>Not modelled.\<close> The virtual machine, the import of blocks and the transaction pool, the Merkle tries
  and the databases below them, elliptic curves, the network, RPC, account management, the command line
  and logging: I/O, concurrency, third-party or generated code. The tries appear as their contents.
\<close>

end
